(* ===== verification/Prelude.thy ===== *)
theory Prelude
  imports Main "HOL-Library.Word" "HOL-Library.Option_ord" "HOL-Library.Product_Lexorder"
    "HOL-Library.List_Lexorder" "HOL-Library.Char_ord" "HOL-Library.Multiset"
begin

text \<open>
  Shared vocabulary of the development: the machine integers of the simulator, the outcomes a
  C++ statement can have beside returning (failed assertion, bad pointer, exit), the model of
  \<open>std::map\<close> as a list of pairs sorted by key, the model of the free store as a list of cells
  addressed by position, decimal and hexadecimal printing as \<open>ostream\<close> does it, and the generic
  lemmas about them that carry the proofs of the components.
\<close>

section \<open>Machine integers\<close>

text \<open>The build is for 64-bit Linux: \<open>unsigned int\<close> has 32 bits, \<open>unsigned long\<close> has 64.\<close>

type_synonym u32 = "32 word"
type_synonym u64 = "64 word"

lemma u32_bound: "unat (w :: u32) < 2 ^ 32"
  by (rule order_less_le_trans [OF unsigned_less]) simp

section \<open>Outcomes\<close>

text \<open>
  A fault is what stops the program: \<open>assert\<close> (the build type is Debug, so assertions are on), a
  dereferenced NULL or dangling pointer, an array access out of its bounds, a \<open>sscanf\<close> result
  that does not fit an \<open>int\<close>, an exception of \<open>std::stoi\<close>, or a call of \<open>exit\<close>.
\<close>

datatype fault =
    Assertion_Failed
  | Null_Pointer
  | Bad_Pointer
  | Out_Of_Bounds
  | Bad_Conversion
  | Invalid_Argument
  | Out_Of_Range
  | Exit int

type_synonym 'a result = "fault + 'a"

named_theorems fault_simps \<open>how a computation that can fault returns\<close>
named_theorems om_simps \<open>lookups in and updates of ordered maps\<close>

definition bindR :: "'a result \<Rightarrow> ('a \<Rightarrow> 'b result) \<Rightarrow> 'b result" where
  "bindR m f = (case m of Inl e \<Rightarrow> Inl e | Inr x \<Rightarrow> f x)"

lemma bindR_simps [simp]: "bindR (Inl e) f = Inl e" "bindR (Inr x) f = f x"
  by (simp_all add: bindR_def)

lemma bindR_Inr_iff [fault_simps]: "bindR m f = Inr y \<longleftrightarrow> (\<exists>x. m = Inr x \<and> f x = Inr y)"
  by (cases m) auto

lemma bindR_Inl_iff [fault_simps]:
  "bindR m f = Inl e \<longleftrightarrow> m = Inl e \<or> (\<exists>x. m = Inr x \<and> f x = Inl e)"
  by (cases m) auto

lemma bindR_cong [fundef_cong]:
  "m = m' \<Longrightarrow> (\<And>x. m' = Inr x \<Longrightarrow> f x = g x) \<Longrightarrow> bindR m f = bindR m' g"
  by (cases m') auto

definition assertR :: "bool \<Rightarrow> unit result" where
  "assertR b = (if b then Inr () else Inl Assertion_Failed)"

lemma assertR_Inr [simp]: "assertR b = Inr u \<longleftrightarrow> b"
  by (simp add: assertR_def)

lemma assertR_Inl [simp]: "assertR b = Inl e \<longleftrightarrow> \<not> b \<and> e = Assertion_Failed"
  by (auto simp: assertR_def)

lemma assertR_eval [simp]: "assertR True = Inr ()" "assertR False = Inl Assertion_Failed"
  by (simp_all add: assertR_def)

text \<open>A loop over the elements of a container whose body can fault.\<close>

fun foldR :: "('s \<Rightarrow> 'x \<Rightarrow> 's result) \<Rightarrow> 'x list \<Rightarrow> 's \<Rightarrow> 's result" where
  "foldR f [] s = Inr s"
| "foldR f (x # xs) s = bindR (f s x) (foldR f xs)"

lemma foldR_ran: "foldR f xs s = Inr s' \<Longrightarrow> x \<in> set xs \<Longrightarrow> \<exists>a b. f a x = Inr b"
  by (induction xs arbitrary: s) (auto simp: fault_simps)

lemma foldR_append: "foldR f (xs @ ys) s = bindR (foldR f xs s) (foldR f ys)"
proof (induction xs arbitrary: s)
  case (Cons x xs)
  then show ?case by (cases "f s x") auto
qed simp

text \<open>
  The contract of a loop body: it keeps an invariant whenever it returns. Every loop of the
  program over a container is an instance.
\<close>

locale loop_body =
  fixes body :: "'s \<Rightarrow> 'x \<Rightarrow> 's result" and keeps :: "'s \<Rightarrow> bool"
  assumes body_keeps: "keeps s \<Longrightarrow> body s x = Inr s' \<Longrightarrow> keeps s'"
begin

lemma loop_keeps: "keeps s \<Longrightarrow> foldR body xs s = Inr s' \<Longrightarrow> keeps s'"
  by (induction xs arbitrary: s) (auto simp: fault_simps dest: body_keeps)

end

section \<open>Ordered maps\<close>

text \<open>
  \<open>std::map\<close> iterates in the order of its keys, and the order is visible (the heap is walked, the
  trace is merged, the tables are printed in it), so a map is the list of its entries sorted by
  key. \<open>find\<close> is \<^const>\<open>map_of\<close>; \<open>m[k] = v\<close> is \<open>om_put\<close>.
\<close>

type_synonym ('k, 'v) omap = "('k \<times> 'v) list"

fun om_put :: "'k::linorder \<Rightarrow> 'v \<Rightarrow> ('k, 'v) omap \<Rightarrow> ('k, 'v) omap" where
  "om_put k v [] = [(k, v)]"
| "om_put k v (e # m) =
     (if fst e < k then e # om_put k v m
      else if fst e = k then (k, v) # m
      else (k, v) # e # m)"

definition om_wf :: "('k::linorder, 'v) omap \<Rightarrow> bool" where
  "om_wf m = sorted_wrt (<) (map fst m)"

lemma map_of_om_put [simp, om_simps]: "map_of (om_put k v m) = (map_of m)(k \<mapsto> v)"
  by (induction m) (auto simp: fun_eq_iff)

lemma keys_om_put [simp, om_simps]: "fst ` set (om_put k v m) = insert k (fst ` set m)"
  by (induction m) auto

lemma om_wf_Nil [simp]: "om_wf []"
  by (simp add: om_wf_def)

lemma om_wf_put [simp]: "om_wf m \<Longrightarrow> om_wf (om_put k v m)"
proof (induction m)
  case Nil
  then show ?case by (simp add: om_wf_def)
next
  case (Cons e m)
  have keys: "set (map fst (om_put k v m)) = insert k (set (map fst m))"
    by (metis keys_om_put set_map)
  from Cons show ?case
    unfolding om_wf_def using keys by (auto simp: image_iff)
qed

lemma om_wf_distinct: "om_wf m \<Longrightarrow> distinct (map fst m)"
  unfolding om_wf_def by (simp add: strict_sorted_iff)

lemma om_wf_lookup: "om_wf m \<Longrightarrow> map_of m k = Some v \<longleftrightarrow> (k, v) \<in> set m"
  by (simp add: om_wf_distinct)

lemma set_om_put: "set (om_put k v m) \<subseteq> insert (k, v) (set m)"
  by (induction m) auto

lemma om_put_fresh_mset:
  "map_of m k = None \<Longrightarrow> mset (om_put k v m) = add_mset (k, v) (mset m)"
  by (induction m) (auto split: if_splits)

lemma length_om_put:
  "om_wf m \<Longrightarrow> length (om_put k v m) = (if map_of m k = None then Suc (length m) else length m)"
proof (induction m)
  case (Cons e m)
  have wf: "om_wf m" and lt: "\<forall>a \<in> fst ` set m. fst e < a"
    using Cons.prems by (auto simp: om_wf_def)
  show ?case
  proof (cases "fst e < k")
    case True
    then show ?thesis using Cons.IH [OF wf] by auto
  next
    case False
    then have "fst e \<noteq> k \<Longrightarrow> map_of m k = None"
      using lt by (force simp: map_of_eq_None_iff)
    then show ?thesis using False by auto
  qed
qed simp

lemma om_put_set: "om_wf m \<Longrightarrow> set (om_put k v m) = insert (k, v) {e \<in> set m. fst e \<noteq> k}"
proof -
  assume wf: "om_wf m"
  have "(a, b) \<in> set (om_put k v m) \<longleftrightarrow> (a, b) \<in> insert (k, v) {e \<in> set m. fst e \<noteq> k}" for a b
    using om_wf_lookup [OF om_wf_put [OF wf], of k v a b] om_wf_lookup [OF wf, of a b]
    by (auto split: if_splits)
  then show ?thesis by auto
qed

text \<open>The interface of \<open>std::map\<close> that the components rely on.\<close>

locale ordered_map =
  fixes look :: "'m \<Rightarrow> 'k::linorder \<Rightarrow> 'v option"
    and put :: "'k \<Rightarrow> 'v \<Rightarrow> 'm \<Rightarrow> 'm"
    and keys :: "'m \<Rightarrow> 'k list"
    and wf :: "'m \<Rightarrow> bool"
  assumes look_put: "look (put k v m) = (look m)(k \<mapsto> v)"
    and wf_put: "wf m \<Longrightarrow> wf (put k v m)"
    and keys_sorted: "wf m \<Longrightarrow> sorted_wrt (<) (keys m)"
    and keys_look: "wf m \<Longrightarrow> k \<in> set (keys m) \<longleftrightarrow> look m k \<noteq> None"
begin

lemma look_put_same: "look (put k v m) k = Some v"
  by (simp add: look_put)

lemma look_put_other: "k \<noteq> j \<Longrightarrow> look (put k v m) j = look m j"
  by (simp add: look_put)

lemma keys_put: "wf m \<Longrightarrow> set (keys (put k v m)) = insert k (set (keys m))"
  using keys_look [of m] keys_look [OF wf_put, of m] by (auto simp: look_put split: if_splits)

lemma keys_distinct: "wf m \<Longrightarrow> distinct (keys m)"
  using keys_sorted strict_sorted_iff by blast

lemma keys_put_order:
  assumes "wf m" and "look m k = None"
  shows "keys (put k v m) = insort k (keys m)"
proof (rule sorted_distinct_set_unique)
  have "sorted (keys m)" "k \<notin> set (keys m)"
    using assms keys_sorted [of m] by (auto simp: strict_sorted_iff keys_look)
  then show "sorted (insort k (keys m))" "distinct (insort k (keys m))"
    using keys_distinct [OF assms(1)] by (simp_all add: sorted_insort distinct_insort)
  show "sorted (keys (put k v m))" "distinct (keys (put k v m))"
    using keys_sorted [OF wf_put [OF assms(1)]] by (simp_all add: strict_sorted_iff)
  show "set (keys (put k v m)) = set (insort k (keys m))"
    using keys_put [OF assms(1)] by (simp add: set_insort_key)
qed

end

interpretation om: ordered_map "map_of" "om_put" "map fst" "om_wf"
proof unfold_locales
  show "om_wf m \<Longrightarrow> om_wf (om_put k v m)" for m :: "('k::linorder, 'v) omap" and k v
    by (rule om_wf_put)
qed (auto simp: om_wf_def map_of_eq_None_iff simp del: not_None_eq)

text \<open>Reading \<open>m[k]\<close> of a map of pointers stores NULL there first when \<open>k\<close> is absent.\<close>

definition om_index :: "'k::linorder \<Rightarrow> ('k, 'v option) omap \<Rightarrow> 'v option \<times> ('k, 'v option) omap" where
  "om_index k m = (case map_of m k of None \<Rightarrow> (None, om_put k None m) | Some v \<Rightarrow> (v, m))"

lemma om_index_present: "map_of m k = Some v \<Longrightarrow> om_index k m = (v, m)"
  by (simp add: om_index_def)

lemma om_index_absent: "map_of m k = None \<Longrightarrow> om_index k m = (None, om_put k None m)"
  by (simp add: om_index_def)

section \<open>Stores\<close>

text \<open>
  What \<open>new\<close> has created is a list of cells: a pointer is a position, \<open>new\<close> appends, so a fresh
  pointer is the length of the list. A nullable pointer is an \<^typ>\<open>nat option\<close>.
\<close>

definition deref :: "'a list \<Rightarrow> nat \<Rightarrow> 'a result" where
  "deref st p = (if p < length st then Inr (st ! p) else Inl Bad_Pointer)"

definition derefN :: "'a list \<Rightarrow> nat option \<Rightarrow> 'a result" where
  "derefN st po = (case po of None \<Rightarrow> Inl Null_Pointer | Some p \<Rightarrow> deref st p)"

lemma deref_Inr [simp, fault_simps]: "deref st p = Inr x \<longleftrightarrow> p < length st \<and> x = st ! p"
  by (auto simp: deref_def)

lemma deref_Inl [simp, fault_simps]: "deref st p = Inl e \<longleftrightarrow> length st \<le> p \<and> e = Bad_Pointer"
  by (auto simp: deref_def)

lemma deref_valid: "p < length st \<Longrightarrow> deref st p = Inr (st ! p)"
  by (simp add: deref_def)

lemma derefN_Some [simp]: "derefN st (Some p) = deref st p"
  by (simp add: derefN_def)

lemma derefN_None [simp]: "derefN st None = Inl Null_Pointer"
  by (simp add: derefN_def)

section \<open>Lists\<close>

lemma takeWhile_upto: "\<forall>x \<in> set xs. P x \<Longrightarrow> \<not> P y \<Longrightarrow> takeWhile P (xs @ y # ys) = xs"
  by (induction xs) auto

lemma dropWhile_upto: "\<forall>x \<in> set xs. P x \<Longrightarrow> \<not> P y \<Longrightarrow> dropWhile P (xs @ y # ys) = y # ys"
  by (induction xs) auto

section \<open>Numbers as text\<close>

text \<open>What \<open>ostream << n\<close> writes for an unsigned \<open>n\<close>, in base 10 or, after \<open>hex\<close>, 16.\<close>

definition digit_char :: "nat \<Rightarrow> char" where
  "digit_char d = (if d < 10 then char_of (48 + d) else char_of (87 + d))"

fun show_base :: "nat \<Rightarrow> nat \<Rightarrow> string" where
  "show_base b n =
     (if b \<le> 1 \<or> n < b then [digit_char n] else show_base b (n div b) @ [digit_char (n mod b)])"

declare show_base.simps [simp del]

definition show_dec :: "'a::len word \<Rightarrow> string" where
  "show_dec w = show_base 10 (unat w)"

definition show_hex :: "'a::len word \<Rightarrow> string" where
  "show_hex w = show_base 16 (unat w)"

definition is_dec_digit :: "char \<Rightarrow> bool" where
  "is_dec_digit c = ((48::nat) \<le> of_char c \<and> of_char c \<le> (57::nat))"

fun digits_value :: "int \<Rightarrow> string \<Rightarrow> int" where
  "digits_value acc [] = acc"
| "digits_value acc (c # cs) = digits_value (10 * acc + (of_char c - 48)) cs"

lemma digits_value_append: "digits_value a (xs @ ys) = digits_value (digits_value a xs) ys"
  by (induction xs arbitrary: a) auto

lemma digit_char_props:
  fixes d :: nat
  assumes "d < 10"
  shows "is_dec_digit (digit_char d)" "of_char (digit_char d) - 48 = int d"
proof -
  have c: "(of_char (char_of (48 + d) :: char) :: nat) = 48 + d"
    using assms by (simp only: of_char_of) simp
  moreover have "(of_char (char_of (48 + d) :: char) :: int) = 48 + int d"
    by (metis c of_nat_of_char of_nat_add of_nat_numeral)
  ultimately show "is_dec_digit (digit_char d)" "of_char (digit_char d) - 48 = int d"
    using assms by (auto simp: is_dec_digit_def digit_char_def)
qed

lemma show_base_digits: "set (show_base 10 n) \<subseteq> {c. is_dec_digit c}"
proof (induction n rule: less_induct)
  case (less n)
  then show ?case
    using digit_char_props(1) by (subst show_base.simps) auto
qed

lemma show_base_nonempty [simp]: "show_base b n \<noteq> []"
  by (subst show_base.simps) auto

lemma digits_value_show: "digits_value 0 (show_base 10 n) = int n"
proof (induction n rule: less_induct)
  case (less n)
  then show ?case
    by (subst show_base.simps) (auto simp: digits_value_append digit_char_props(2) zmod_int zdiv_int)
qed

end
