(* ===== verification/Tokenizing.thy ===== *)
theory Tokenizing
  imports Prelude
begin

text \<open>
  The tokenizer (\<open>simulator/tokenizer.hpp\<close>, \<open>tokenizer.cpp\<close>). A \<open>Tokenizer\<close> owns a file, a line
  buffer of \<open>LINESIZE\<close> characters and an array of \<open>TOKENSIZE\<close> pointers into it. \<open>getLine\<close> reads
  one line and cuts it in place: every delimiter is overwritten by NUL and the start of every
  token is recorded. A pointer into the buffer is the offset it points at, the text of a token is
  the C string that starts there. The array is written with no check against its size, which is
  the fault \<^const>\<open>Out_Of_Bounds\<close> here. What \<open>getLine\<close> writes to \<open>cerr\<close> in debug mode and
  \<open>debugCurrent\<close> to \<open>cout\<close> is the value of \<open>getLine_debug\<close> and \<open>debugCurrent\<close>.

  The loop of a client (\<open>while (!t.isDone()) { t.getLine(); if (t.isDone()) break; ... }\<close>) is
  \<open>read_lines\<close>, shared by every reader of the program.
\<close>

section \<open>The buffer and the line\<close>

datatype DELIMITER_TYPE = E_SPACE | E_COMMA | E_INVALID

definition LINESIZE :: nat where "LINESIZE = 2048"

definition TOKENSIZE :: nat where "TOKENSIZE = 50"

abbreviation NUL :: char where "NUL \<equiv> CHR 0x00"

text \<open>
  \<open>m_file\<close> is what is still to be read; \<open>m_line\<close> is what \<open>fgets\<close> last wrote, terminator
  included; \<open>m_tokens\<close> holds the entries of the array that the current line has set.
\<close>

record Tokenizer =
  m_file :: string
  m_line :: string
  m_line_saved :: string
  m_tokens :: "nat list"
  m_num_tokens :: u32
  m_done :: bool
  m_cur_line :: u32
  m_delimiter :: DELIMITER_TYPE
  m_debug :: bool

text \<open>
  The constructor leaves the buffer and the number of tokens unset; \<open>getLine\<close> sets both before
  anything reads them.
\<close>

definition Tokenizer_new :: "string \<Rightarrow> DELIMITER_TYPE \<Rightarrow> Tokenizer" where
  "Tokenizer_new f d =
     \<lparr>m_file = f, m_line = [NUL], m_line_saved = [], m_tokens = [], m_num_tokens = 0, m_done = False,
      m_cur_line = 0, m_delimiter = d, m_debug = False\<rparr>"

definition setDebug :: "bool \<Rightarrow> Tokenizer \<Rightarrow> Tokenizer" where
  "setDebug flag t = t\<lparr>m_debug := flag\<rparr>"

definition isDone :: "Tokenizer \<Rightarrow> bool" where
  "isDone t = m_done t"

text \<open>\<open>isspace\<close> in the C locale: the blank, and tab to carriage return.\<close>

definition isspace :: "char \<Rightarrow> bool" where
  "isspace c = (of_char c = (32::nat) \<or> ((9::nat) \<le> of_char c \<and> of_char c \<le> (13::nat)))"

definition isDelimiter :: "DELIMITER_TYPE \<Rightarrow> char \<Rightarrow> bool" where
  "isDelimiter d c =
     (if d = E_SPACE then isspace c else if d = E_COMMA then c = CHR '','' else False)"

text \<open>
  \<open>fgets\<close> reads up to the newline, which it keeps, or as many characters as it is allowed; the
  result is the line and the rest of the file. On an empty file it returns NULL instead.
\<close>

fun fgets :: "string \<Rightarrow> nat \<Rightarrow> string \<times> string" where
  "fgets [] n = ([], [])"
| "fgets (c # cs) n =
     (if n = 0 then ([], c # cs)
      else if c = CHR 0x0A then ([c], cs)
      else (let (l, r) = fgets cs (n - 1) in (c # l, r)))"

text \<open>The \<open>while\<close> loop of \<open>getLine\<close>: its state is the buffer, \<open>cur\<close>, \<open>prev_was_delimiter\<close>, the array.\<close>

function getLine_loop ::
  "DELIMITER_TYPE \<Rightarrow> string \<Rightarrow> nat \<Rightarrow> bool \<Rightarrow> nat list \<Rightarrow> (string \<times> nat list) result" where
  "getLine_loop d line cur prev toks =
     (if length line \<le> cur then Inl Out_Of_Bounds
      else if line ! cur \<noteq> NUL \<and> cur < LINESIZE then
        (if isDelimiter d (line ! cur) then
           getLine_loop d (line[cur := NUL]) (Suc cur) True toks
         else if prev then
           (if TOKENSIZE \<le> length toks then Inl Out_Of_Bounds
            else getLine_loop d line (Suc cur) False (toks @ [cur]))
         else getLine_loop d line (Suc cur) False toks)
      else Inr (line, toks))"
  by pat_completeness auto
termination
  by (relation "measure (\<lambda>(d, line, cur, prev, toks). length line - cur)") auto

declare getLine_loop.simps [simp del]

definition getLine :: "Tokenizer \<Rightarrow> Tokenizer result" where
  "getLine t =
     (if m_file t = [] then
        Inr (t\<lparr>m_num_tokens := 0, m_tokens := [], m_done := True\<rparr>)
      else
        (let (l, r) = fgets (m_file t) (LINESIZE - 1) in
         bindR (getLine_loop (m_delimiter t) (l @ [NUL]) 0 True []) (\<lambda>(line, toks).
         Inr (t\<lparr>m_file := r, m_line := line, m_tokens := toks, m_num_tokens := of_nat (length toks),
               m_cur_line := m_cur_line t + 1, m_done := (toks = [])\<rparr>))))"

text \<open>The C string at an offset of the buffer.\<close>

definition c_string :: "string \<Rightarrow> nat \<Rightarrow> string" where
  "c_string buf off = takeWhile (\<lambda>c. c \<noteq> NUL) (drop off buf)"

text \<open>
  The debug output of \<open>getLine\<close>, from the states before and after it: the line, then every token
  with its number. On an empty file the NULL line makes the stream fail, and nothing follows.
\<close>

definition debug_tokens :: "Tokenizer \<Rightarrow> string" where
  "debug_tokens t =
     (if 0 < m_num_tokens t then
        concat (map (\<lambda>i. ''tok'' @ show_dec (of_nat i :: u32) @ ''=\"'' @ c_string (m_line t) (m_tokens t ! i) @ ''\", '')
          [0..<unat (m_num_tokens t)])
      else if 0 < m_num_tokens t then ''No more tokens.''
      else ''NEGATIVE NUMBER OF TOKENS -- ERROR.'')"

definition getLine_debug :: "Tokenizer \<Rightarrow> Tokenizer \<Rightarrow> string" where
  "getLine_debug t t' =
     (if \<not> m_debug t then []
      else if m_file t = [] then ''[DBG Tokenizer]: ''
      else ''[DBG Tokenizer]: '' @ fst (fgets (m_file t) (LINESIZE - 1)) @
           ''[DBG Tokenizer]: '' @ debug_tokens t' @ [CHR 0x0A])"

text \<open>The text of \<open>debugCurrent\<close>; no function ever writes \<open>m_line_saved\<close>.\<close>

definition debugCurrent :: "Tokenizer \<Rightarrow> string" where
  "debugCurrent t =
     ''DBG: current line = '' @ show_dec (m_cur_line t) @ [CHR 0x0A] @ ''  ---> '' @ m_line_saved t @ [CHR 0x0A]"

section \<open>Reading tokens\<close>

text \<open>
  The index is an \<open>int\<close> compared with an \<open>unsigned int\<close>, so it is converted first. \<open>%d\<close> skips
  white space, takes a sign and digits, and stores nothing when there is no digit; a number that
  does not fit an \<open>int\<close> is undefined behaviour.
\<close>

definition scan_int :: "string \<Rightarrow> int option" where
  "scan_int s =
     (let s1 = dropWhile isspace s;
          neg = (s1 \<noteq> [] \<and> hd s1 = CHR ''-'');
          s2 = (if s1 \<noteq> [] \<and> (hd s1 = CHR ''-'' \<or> hd s1 = CHR ''+'') then tl s1 else s1);
          ds = takeWhile is_dec_digit s2
      in if ds = [] then None
         else Some (if neg then - digits_value 0 ds else digits_value 0 ds))"

definition fits_int :: "int \<Rightarrow> bool" where
  "fits_int n = (- (2 ^ 31) \<le> n \<and> n < 2 ^ 31)"

definition numTokens :: "Tokenizer \<Rightarrow> u32" where
  "numTokens t = m_num_tokens t"

definition has_token :: "Tokenizer \<Rightarrow> int \<Rightarrow> bool" where
  "has_token t i = ((word_of_int i :: u32) < m_num_tokens t)"

definition token :: "Tokenizer \<Rightarrow> int \<Rightarrow> string" where
  "token t i = c_string (m_line t) (m_tokens t ! nat i)"

definition getInt :: "Tokenizer \<Rightarrow> int \<Rightarrow> u32 result" where
  "getInt t i =
     (if has_token t i then
        (case scan_int (token t i) of
           None \<Rightarrow> Inr 0
         | Some n \<Rightarrow> if fits_int n then Inr (word_of_int n) else Inl Bad_Conversion)
      else Inr 0)"

definition getString :: "Tokenizer \<Rightarrow> int \<Rightarrow> string option" where
  "getString t i = (if has_token t i then Some (token t i) else None)"

definition getChar :: "Tokenizer \<Rightarrow> int \<Rightarrow> char" where
  "getChar t i = (if has_token t i then hd (token t i @ [NUL]) else NUL)"

text \<open>Building a \<open>std::string\<close> from a \<open>char*\<close> dereferences it.\<close>

definition to_string :: "string option \<Rightarrow> string result" where
  "to_string so = (case so of None \<Rightarrow> Inl Null_Pointer | Some s \<Rightarrow> Inr s)"

lemma to_string_Inr [simp, fault_simps]: "to_string so = Inr s \<longleftrightarrow> so = Some s"
  by (cases so) (auto simp: to_string_def)

section \<open>The reference tokenizer\<close>

text \<open>What a line means: the maximal runs of characters that are not delimiters.\<close>

function tokens_of :: "(char \<Rightarrow> bool) \<Rightarrow> string \<Rightarrow> string list" where
  "tokens_of p s =
     (case dropWhile p s of
        [] \<Rightarrow> []
      | c # cs \<Rightarrow> takeWhile (\<lambda>x. \<not> p x) (c # cs) # tokens_of p (dropWhile (\<lambda>x. \<not> p x) cs))"
  by pat_completeness auto
termination
proof (relation "measure (\<lambda>(p, s). length s)", simp, clarsimp)
  fix p s c cs
  assume "dropWhile p s = c # cs"
  then have "length (dropWhile p s) = Suc (length cs)"
    by simp
  then have "length cs < length s"
    using length_dropWhile_le [of p s] by simp
  then show "length (dropWhile (\<lambda>x. \<not> p x) cs) < length s"
    using length_dropWhile_le [of "\<lambda>x. \<not> p x" cs] by simp
qed

declare tokens_of.simps [simp del]

lemma tokens_of_Nil [simp]: "tokens_of p [] = []"
  by (simp add: tokens_of.simps)

lemma tokens_of_delim: "p c \<Longrightarrow> tokens_of p (c # cs) = tokens_of p cs"
  by (subst (1 2) tokens_of.simps) simp

lemma tokens_of_run:
  "\<not> p c \<Longrightarrow> tokens_of p (c # cs) =
     (c # takeWhile (\<lambda>x. \<not> p x) cs) # tokens_of p (dropWhile (\<lambda>x. \<not> p x) cs)"
  by (subst tokens_of.simps) simp

lemmas tokens_of_Cons = tokens_of_delim tokens_of_run

text \<open>Offsets of the tokens of a text that starts at offset \<open>cur\<close>, as the loop finds them.\<close>

fun token_starts :: "(char \<Rightarrow> bool) \<Rightarrow> nat \<Rightarrow> bool \<Rightarrow> string \<Rightarrow> nat list" where
  "token_starts p cur prev [] = []"
| "token_starts p cur prev (c # cs) =
     (if p c then token_starts p (Suc cur) True cs
      else (if prev then [cur] else []) @ token_starts p (Suc cur) False cs)"

definition blanked :: "(char \<Rightarrow> bool) \<Rightarrow> string \<Rightarrow> string" where
  "blanked p = map (\<lambda>c. if p c then NUL else c)"

lemma getLine_loop_steps:
  assumes "NUL \<notin> set str" and "length pre + length str < LINESIZE"
  shows "getLine_loop d (pre @ str @ NUL # post) (length pre) prev toks =
    (if length toks + length (token_starts (isDelimiter d) (length pre) prev str) \<le> TOKENSIZE
       \<or> token_starts (isDelimiter d) (length pre) prev str = []
     then Inr (pre @ blanked (isDelimiter d) str @ NUL # post,
               toks @ token_starts (isDelimiter d) (length pre) prev str)
     else Inl Out_Of_Bounds)"
  using assms
proof (induction str arbitrary: pre prev toks)
  case Nil
  then show ?case by (subst getLine_loop.simps) (simp add: blanked_def)
next
  case (Cons c cs)
  note IH = Cons.IH [of "pre @ [c]", simplified] Cons.IH [of "pre @ [NUL]", simplified]
  show ?case
    using Cons.prems
    by (subst getLine_loop.simps) (auto simp: IH blanked_def nth_append list_update_append)
qed

lemma token_starts_text:
  assumes "NUL \<notin> set str"
  shows "map (c_string (pre @ blanked p str @ NUL # post)) (token_starts p (length pre) prev str) =
    tokens_of p (if prev then str else dropWhile (\<lambda>c. \<not> p c) str)"
  using assms
proof (induction str arbitrary: pre prev)
  case Nil
  then show ?case by simp
next
  case (Cons c cs)
  note IH = Cons.IH [of "pre @ [c]", simplified] Cons.IH [of "pre @ [NUL]", simplified]
  have cut: "takeWhile (\<lambda>c. c \<noteq> NUL) (blanked p cs @ NUL # post) = takeWhile (\<lambda>x. \<not> p x) cs"
    using Cons.prems by (induction cs) (auto simp: blanked_def)
  show ?case
    using Cons.prems IH cut
    by (auto simp: blanked_def tokens_of_Cons c_string_def)
qed

lemma fgets_append: "fgets s n = (l, r) \<Longrightarrow> s = l @ r"
  by (induction s n arbitrary: l r rule: fgets.induct)
    (auto split: if_splits prod.splits)

lemma fgets_length: "fgets s n = (l, r) \<Longrightarrow> length l \<le> n"
  by (induction s n arbitrary: l r rule: fgets.induct)
    (force split: if_splits prod.splits)+

lemma fgets_nonempty: "s \<noteq> [] \<Longrightarrow> 0 < n \<Longrightarrow> fgets s n = (l, r) \<Longrightarrow> l \<noteq> []"
  by (cases s) (auto split: if_splits prod.splits)

lemma fgets_newline: "fgets s n = (l, r) \<Longrightarrow> CHR 0x0A \<in> set l \<Longrightarrow> \<exists>k. l = k @ [CHR 0x0A] \<and> CHR 0x0A \<notin> set k"
proof (induction s n arbitrary: l r rule: fgets.induct)
  case (2 c cs n)
  then show ?case
    by (auto split: if_splits prod.splits)
qed simp


lemma fgets_line:
  "CHR 0x0A \<notin> set l \<Longrightarrow> length l < n \<Longrightarrow> fgets (l @ CHR 0x0A # r) n = (l @ [CHR 0x0A], r)"
  by (induction l arbitrary: n) (auto simp: Let_def)

section \<open>What getLine computes\<close>

definition line_text :: "Tokenizer \<Rightarrow> string" where
  "line_text t = takeWhile (\<lambda>c. c \<noteq> NUL) (fst (fgets (m_file t) (LINESIZE - 1)))"

definition line_tokens :: "Tokenizer \<Rightarrow> string list" where
  "line_tokens t = tokens_of (isDelimiter (m_delimiter t)) (line_text t)"

definition tokens :: "Tokenizer \<Rightarrow> string list" where
  "tokens t = map (c_string (m_line t)) (m_tokens t)"

text \<open>The array and its counter agree, and the array is not overrun.\<close>

definition tokenizer_ok :: "Tokenizer \<Rightarrow> bool" where
  "tokenizer_ok t \<longleftrightarrow> m_num_tokens t = of_nat (length (m_tokens t)) \<and> length (m_tokens t) \<le> TOKENSIZE"

lemma tokenizer_ok_new [simp]: "tokenizer_ok (Tokenizer_new f d)"
  by (simp add: tokenizer_ok_def Tokenizer_new_def)

lemma buffer_split:
  obtains post where "l @ [NUL] = takeWhile (\<lambda>c. c \<noteq> NUL) l @ NUL # post"
proof (cases "NUL \<in> set l")
  case True
  then obtain a b where l: "l = a @ NUL # b" and "NUL \<notin> set a"
    by (meson split_list_first)
  then have e: "takeWhile (\<lambda>c. c \<noteq> NUL) l = a"
    unfolding l by (intro takeWhile_upto) auto
  show ?thesis by (rule that [of "b @ [NUL]"], unfold e, simp add: l)
next
  case False
  then have "takeWhile (\<lambda>c. c \<noteq> NUL) l = l"
    unfolding takeWhile_eq_all_conv by blast
  then show ?thesis by (intro that [of "[]"]) (simp only: append_Nil2)
qed

lemma getLine_eq:
  assumes "m_file t \<noteq> []"
  shows "getLine t =
    (if length (line_tokens t) \<le> TOKENSIZE
     then Inr (t\<lparr>m_file := snd (fgets (m_file t) (LINESIZE - 1)),
                 m_line := blanked (isDelimiter (m_delimiter t)) (line_text t) @ NUL # drop (Suc (length (line_text t)))
                             (fst (fgets (m_file t) (LINESIZE - 1)) @ [NUL]),
                 m_tokens := token_starts (isDelimiter (m_delimiter t)) 0 True (line_text t),
                 m_num_tokens := of_nat (length (line_tokens t)),
                 m_cur_line := m_cur_line t + 1, m_done := (line_tokens t = [])\<rparr>)
     else Inl Out_Of_Bounds)"
proof -
  let ?p = "isDelimiter (m_delimiter t)"
  obtain l r where lr: "fgets (m_file t) (LINESIZE - 1) = (l, r)" by fastforce
  obtain post where post: "l @ [NUL] = line_text t @ NUL # post"
    using buffer_split [of l] lr by (metis fst_conv line_text_def)
  have post_eq: "drop (Suc (length (line_text t))) (l @ [NUL]) = post"
    by (simp add: post)
  have nn: "NUL \<notin> set (line_text t)"
    by (auto simp: line_text_def dest: set_takeWhileD)
  have "length l \<le> LINESIZE - 1" using fgets_length [OF lr] .
  moreover have "length (line_text t) \<le> length l"
    unfolding line_text_def lr by (simp add: length_takeWhile_le)
  ultimately have len: "length ([]::string) + length (line_text t) < LINESIZE"
    by (simp add: LINESIZE_def)
  have starts: "length (line_tokens t) = length (token_starts ?p 0 True (line_text t))"
    using arg_cong [OF token_starts_text [OF nn, of "[]" ?p post True], of length]
    by (simp add: line_tokens_def)
  then have "(line_tokens t = []) = (token_starts ?p 0 True (line_text t) = [])"
    by (metis length_0_conv)
  with starts show ?thesis
    using getLine_loop_steps [OF nn len, of "m_delimiter t" post True "[]"] assms lr post_eq
    by (auto simp: getLine_def post TOKENSIZE_def)
qed

lemma getLine_tokens:
  assumes "m_file t \<noteq> []" and "getLine t = Inr t'"
  shows "tokens t' = line_tokens t" "tokenizer_ok t'" "m_done t' \<longleftrightarrow> line_tokens t = []"
    "m_file t' = snd (fgets (m_file t) (LINESIZE - 1))" "m_delimiter t' = m_delimiter t"
    "length (line_tokens t) \<le> TOKENSIZE"
proof -
  let ?p = "isDelimiter (m_delimiter t)"
  have nn: "NUL \<notin> set (line_text t)"
    by (auto simp: line_text_def dest: set_takeWhileD)
  note texts = token_starts_text [OF nn, of "[]" ?p _ True, simplified, folded line_tokens_def]
  show "tokens t' = line_tokens t" "m_done t' \<longleftrightarrow> line_tokens t = []"
    "m_file t' = snd (fgets (m_file t) (LINESIZE - 1))" "m_delimiter t' = m_delimiter t"
    "length (line_tokens t) \<le> TOKENSIZE"
    using assms texts by (auto simp: getLine_eq tokens_def split: if_splits)
  have "length (line_tokens t) = length (token_starts ?p 0 True (line_text t))"
    using arg_cong [OF texts, of length] by simp
  then show "tokenizer_ok t'"
    using assms(2) unfolding getLine_eq [OF assms(1)]
    by (auto simp: tokenizer_ok_def split: if_splits)
qed

lemma getLine_end: "m_file t = [] \<Longrightarrow> getLine t = Inr (t\<lparr>m_num_tokens := 0, m_tokens := [], m_done := True\<rparr>)"
  by (simp add: getLine_def)

lemma getLine_ok: "getLine t = Inr t' \<Longrightarrow> tokenizer_ok t'"
  using getLine_tokens(2) by (cases "m_file t = []") (auto simp: getLine_end tokenizer_ok_def [of "_\<lparr>m_done := _\<rparr>"])

lemma getLine_saves_no_line: "getLine t = Inr t' \<Longrightarrow> m_line_saved t' = m_line_saved t \<and> m_debug t' = m_debug t"
  by (cases "m_file t = []") (auto simp: getLine_end getLine_eq split: if_splits)

lemma getLine_progress:
  assumes "getLine t = Inr t'" and "\<not> m_done t'"
  shows "length (m_file t') < length (m_file t)"
proof (cases "m_file t = []")
  case True
  then show ?thesis using assms by (auto simp: getLine_end)
next
  case False
  obtain l r where lr: "fgets (m_file t) (LINESIZE - 1) = (l, r)" by fastforce
  have "l \<noteq> []" using fgets_nonempty [OF False _ lr] by (simp add: LINESIZE_def)
  then show ?thesis
    using getLine_tokens(4) [OF False assms(1)] fgets_append [OF lr] lr by simp
qed

section \<open>Access to the tokens\<close>

lemma has_token_iff:
  assumes "tokenizer_ok t" and "fits_int i"
  shows "has_token t i \<longleftrightarrow> 0 \<le> i \<and> i < int (length (tokens t))"
proof -
  have n: "uint (m_num_tokens t) = int (length (tokens t))"
    using assms(1) by (simp add: tokenizer_ok_def tokens_def TOKENSIZE_def uint_nat unat_of_nat)
  have i: "uint (word_of_int i :: u32) = (if 0 \<le> i then i else 2 ^ 32 + i)"
    using assms(2) by (auto simp: uint_word_of_int fits_int_def mod_pos_pos_trivial
      intro!: mod_pos_pos_trivial [of "2 ^ 32 + i" "2 ^ 32", simplified])
  show ?thesis
    using assms n by (auto simp: has_token_def word_less_def i fits_int_def tokenizer_ok_def tokens_def TOKENSIZE_def)
qed

lemma token_text:
  assumes "tokenizer_ok t" and "k < length (tokens t)"
  shows "has_token t (int k)" "token t (int k) = tokens t ! k"
proof -
  have "fits_int (int k)"
    using assms by (auto simp: fits_int_def tokenizer_ok_def tokens_def TOKENSIZE_def)
  then show "has_token t (int k)"
    using assms by (simp add: has_token_iff)
  show "token t (int k) = tokens t ! k"
    using assms by (simp add: token_def tokens_def)
qed

lemma getString_token:
  "tokenizer_ok t \<Longrightarrow> getString t (int k) = (if k < length (tokens t) then Some (tokens t ! k) else None)"
  if "k < 2 ^ 31" for k
proof -
  assume ok: "tokenizer_ok t"
  have "fits_int (int k)" using that by (simp add: fits_int_def)
  then show ?thesis
    using ok token_text [OF ok] by (auto simp: getString_def has_token_iff)
qed

lemma getInt_token:
  "tokenizer_ok t \<Longrightarrow> k < length (tokens t) \<Longrightarrow> getInt t (int k) =
     (case scan_int (tokens t ! k) of
        None \<Rightarrow> Inr 0
      | Some n \<Rightarrow> if fits_int n then Inr (word_of_int n) else Inl Bad_Conversion)"
  by (simp add: getInt_def token_text)

section \<open>The reading loop of a client\<close>

function read_lines :: "('s \<Rightarrow> Tokenizer \<Rightarrow> 's result) \<Rightarrow> Tokenizer \<Rightarrow> 's \<Rightarrow> 's result" where
  "read_lines body t s =
     (if m_done t then Inr s
      else (case getLine t of
              Inl e \<Rightarrow> Inl e
            | Inr t' \<Rightarrow>
                (if m_done t' then Inr s
                 else (case body s t' of
                         Inl e \<Rightarrow> Inl e
                       | Inr s' \<Rightarrow> read_lines body t' s'))))"
  by pat_completeness auto
termination
  by (relation "measure (\<lambda>(body, t, s). length (m_file t))") (auto dest: getLine_progress)

declare read_lines.simps [simp del]

text \<open>The lines a file is delivered as: the tokenizer states the body sees.\<close>

function delivered :: "Tokenizer \<Rightarrow> Tokenizer list" where
  "delivered t =
     (if m_done t then []
      else (case getLine t of
              Inl e \<Rightarrow> []
            | Inr t' \<Rightarrow> (if m_done t' then [] else t' # delivered t')))"
  by pat_completeness auto
termination
  by (relation "measure (\<lambda>t. length (m_file t))") (auto dest: getLine_progress)

declare delivered.simps [simp del]

lemma read_lines_foldR: "read_lines body t s = Inr s' \<Longrightarrow> foldR body (delivered t) s = Inr s'"
proof (induction body t s rule: read_lines.induct)
  case (1 body t s)
  from "1.prems" [unfolded read_lines.simps [of body t s]] show ?case
    using "1.IH" by (subst delivered.simps) (auto split: if_splits sum.splits)
qed

lemma delivered_ok: "u \<in> set (delivered t) \<Longrightarrow> tokenizer_ok u \<and> m_delimiter u = m_delimiter t \<and> tokens u \<noteq> []"
proof (induction t rule: delivered.induct)
  case (1 t)
  from "1.prems" obtain t' where t': "\<not> m_done t" "getLine t = Inr t'" "\<not> m_done t'"
    and u: "u = t' \<or> u \<in> set (delivered t')"
    by (subst (asm) delivered.simps) (auto split: sum.splits if_splits)
  then have "m_file t \<noteq> []"
    by (auto simp: getLine_end)
  note props = getLine_tokens [OF this t'(2)]
  from u show ?case
  proof
    assume "u = t'"
    then show ?thesis using props t'(3) by simp
  next
    assume "u \<in> set (delivered t')"
    then show ?thesis using "1.IH" [OF t'] props(5) by simp
  qed
qed

lemma getLine_fault: "getLine t = Inl e \<Longrightarrow> e = Out_Of_Bounds"
  by (cases "m_file t = []") (auto simp: getLine_end getLine_eq split: if_splits)

text \<open>
  The contract of the body of such a loop, and what the loop inherits from it: the invariant, and
  that a fault comes from the token array or from the body on a line that has tokens.
\<close>

locale line_handler = loop_body body keeps
  for body :: "'s \<Rightarrow> Tokenizer \<Rightarrow> 's result" and keeps :: "'s \<Rightarrow> bool"
begin

lemma lines_keep: "keeps s \<Longrightarrow> read_lines body t s = Inr s' \<Longrightarrow> keeps s'"
  by (rule loop_keeps [OF _ read_lines_foldR])

lemma lines_fault:
  assumes "keeps s" and "read_lines body t s = Inl e"
  shows "e = Out_Of_Bounds \<or> (\<exists>s u. keeps s \<and> tokenizer_ok u \<and> tokens u \<noteq> [] \<and> body s u = Inl e)"
  using assms
proof (induction "length (m_file t)" arbitrary: t s rule: less_induct)
  case less
  from less.prems(2) [unfolded read_lines.simps [of body t s]] less.prems(1)
  consider "getLine t = Inl e"
    | u where "getLine t = Inr u" "\<not> m_done u" "body s u = Inl e"
    | u s1 where "getLine t = Inr u" "\<not> m_done u" "keeps s1" "read_lines body u s1 = Inl e"
    by (auto split: if_splits sum.splits dest: body_keeps)
  then show ?case
  proof cases
    case 1
    then show ?thesis using getLine_fault by blast
  next
    case (2 u)
    have ne: "m_file t \<noteq> []" using 2(1,2) by (auto simp: getLine_end)
    show ?thesis
      using getLine_tokens [OF ne 2(1)] 2 less.prems(1) by metis
  next
    case (3 u s1)
    then show ?thesis using less.hyps [OF getLine_progress] by blast
  qed
qed

end

section \<open>Printed lines\<close>

text \<open>A line as the tracing agent prints it: the fields separated by one blank.\<close>

fun print_line :: "string list \<Rightarrow> string" where
  "print_line [] = []"
| "print_line [x] = x"
| "print_line (x # y # ys) = x @ CHR '' '' # print_line (y # ys)"

definition plain_token :: "string \<Rightarrow> bool" where
  "plain_token x \<longleftrightarrow> x \<noteq> [] \<and> (\<forall>c \<in> set x. \<not> isspace c \<and> c \<noteq> NUL)"

lemma isspace_blank [simp]: "isspace (CHR '' '')" and isspace_newline [simp]: "isspace (CHR 0x0A)"
  by (simp_all add: isspace_def)

lemma tokens_of_plain:
  assumes "plain_token x"
  shows "tokens_of isspace (x @ CHR '' '' # s) = x # tokens_of isspace s"
    "tokens_of isspace (x @ [CHR 0x0A]) = [x]"
proof -
  obtain c cs where x: "x = c # cs" and c: "\<not> isspace c" "\<forall>d \<in> set cs. \<not> isspace d"
    using assms by (cases x) (auto simp: plain_token_def)
  have cut: "takeWhile (\<lambda>x. \<not> isspace x) (cs @ b # s) = cs" "dropWhile (\<lambda>x. \<not> isspace x) (cs @ b # s) = b # s"
    if "isspace b" for b s
    using c(2) that by (auto intro!: takeWhile_upto dropWhile_upto)
  show "tokens_of isspace (x @ CHR '' '' # s) = x # tokens_of isspace s"
    "tokens_of isspace (x @ [CHR 0x0A]) = [x]"
    using c(1) cut [of "CHR '' ''" s] cut [of "CHR 0x0A" "[]"]
    by (simp_all add: x tokens_of_Cons)
qed

lemma tokens_of_print_line:
  "\<forall>x \<in> set xs. plain_token x \<Longrightarrow> tokens_of isspace (print_line xs @ [CHR 0x0A]) = xs"
proof (induction xs rule: print_line.induct)
  case 1
  then show ?case by (simp add: tokens_of_Cons)
qed (auto simp: tokens_of_plain)

lemma print_line_chars:
  "\<forall>x \<in> set xs. plain_token x \<Longrightarrow> c \<in> set (print_line xs) \<Longrightarrow> c = CHR '' '' \<or> (\<not> isspace c \<and> c \<noteq> NUL)"
  by (induction xs rule: print_line.induct) (auto simp: plain_token_def)

lemma show_dec_plain: "plain_token (show_dec w)"
proof -
  have "\<not> isspace c \<and> c \<noteq> NUL" if "is_dec_digit c" for c
    using that by (auto simp: is_dec_digit_def isspace_def)
  then show ?thesis
    using show_base_digits [of "unat w"] by (auto simp: plain_token_def show_dec_def)
qed

lemma scan_int_show_dec_then:
  assumes "r = [] \<or> \<not> is_dec_digit (hd r)"
  shows "scan_int (show_dec w @ r) = Some (int (unat w))"
proof -
  let ?s = "show_base 10 (unat w)"
  have digits: "\<forall>c \<in> set ?s. is_dec_digit c" using show_base_digits by auto
  obtain c cs where s: "?s = c # cs"
    by (cases ?s) (use show_base_nonempty in auto)
  have "is_dec_digit c" using digits s by simp
  then have "\<not> isspace c" "c \<noteq> CHR ''-''" "c \<noteq> CHR ''+''"
    by (auto simp: is_dec_digit_def isspace_def)
  then have "dropWhile isspace (?s @ r) = ?s @ r" "hd (?s @ r) \<noteq> CHR ''-''" "hd (?s @ r) \<noteq> CHR ''+''"
    by (simp_all add: s)
  moreover have "takeWhile is_dec_digit (?s @ r) = ?s"
    using assms digits by (cases r) (simp_all add: takeWhile_append takeWhile_eq_all_conv)
  ultimately show ?thesis
    unfolding scan_int_def show_dec_def Let_def
    by (simp add: digits_value_show del: takeWhile_eq_all_conv)
qed

lemma scan_int_show_dec: "scan_int (show_dec w) = Some (int (unat w))"
  using scan_int_show_dec_then [of "[]" w] by simp

text \<open>What the accessors give for a token: a number as \<open>ostream\<close> prints it, if it fits an \<open>int\<close>, and a first character.\<close>

definition fits :: "u32 \<Rightarrow> bool" where
  "fits w \<longleftrightarrow> unat w < 2 ^ 31"

lemma getInt_printed:
  assumes "tokenizer_ok tk" and "k < length (tokens tk)" and "tokens tk ! k = show_dec w" and "fits w"
    and "j = int k"
  shows "getInt tk j = Inr w"
proof -
  have "fits_int (int n) \<longleftrightarrow> n < 2 ^ 31" for n
    by (simp add: fits_int_def)
  then show ?thesis
    using assms getInt_token [OF assms(1,2)]
    by (simp only: scan_int_show_dec option.case fits_def if_True) simp
qed

lemma numTokens_tokens: "tokenizer_ok tk \<Longrightarrow> numTokens tk = of_nat (length (tokens tk))"
  by (simp add: tokenizer_ok_def numTokens_def tokens_def)

lemma getChar_token:
  assumes "tokenizer_ok tk" and "k < length (tokens tk)" and "tokens tk ! k = c # cs" and "i = int k"
  shows "getChar tk i = c"
  using token_text [OF assms(1,2)] assms(3,4) by (simp add: getChar_def)

text \<open>A line of text with its newline, in either mode.\<close>

definition line_says :: "DELIMITER_TYPE \<Rightarrow> string \<Rightarrow> string list \<Rightarrow> bool" where
  "line_says d l toks \<longleftrightarrow> CHR 0x0A \<notin> set l \<and> NUL \<notin> set l \<and> length l < LINESIZE - 1 \<and>
     tokens_of (isDelimiter d) (l @ [CHR 0x0A]) = toks \<and> toks \<noteq> [] \<and> length toks \<le> TOKENSIZE"

lemma getLine_text:
  assumes "line_says (m_delimiter t) l toks" and "m_file t = l @ CHR 0x0A # rest"
  shows "\<exists>t'. getLine t = Inr t' \<and> tokens t' = toks \<and> tokenizer_ok t' \<and> \<not> m_done t' \<and> m_file t' = rest \<and>
    m_delimiter t' = m_delimiter t"
proof -
  have fg: "fgets (m_file t) (LINESIZE - 1) = (l @ [CHR 0x0A], rest)"
    unfolding assms(2) using assms(1) by (intro fgets_line) (auto simp: line_says_def)
  have "NUL \<notin> set (l @ [CHR 0x0A])"
    using assms(1) by (simp add: line_says_def)
  then have "line_text t = l @ [CHR 0x0A]"
    unfolding line_text_def fg fst_conv takeWhile_eq_all_conv by blast
  then have toks: "line_tokens t = toks"
    using assms(1) by (simp add: line_tokens_def line_says_def)
  have ne: "m_file t \<noteq> []" by (simp add: assms(2))
  obtain t' where t': "getLine t = Inr t'"
    using assms(1) toks by (auto simp: getLine_eq [OF ne] line_says_def)
  show ?thesis
    using getLine_tokens [OF ne t'] toks fg assms(1) t' by (auto simp: line_says_def)
qed

lemma line_says_printed:
  assumes "xs \<noteq> []" and "length xs \<le> TOKENSIZE" and "\<forall>x \<in> set xs. plain_token x" and "length (print_line xs) < LINESIZE - 1"
  shows "line_says E_SPACE (print_line xs) xs"
proof -
  have "isDelimiter E_SPACE = isspace"
    by (simp add: fun_eq_iff isDelimiter_def)
  then show ?thesis
    using assms print_line_chars [OF assms(3)] tokens_of_print_line [OF assms(3)] by (fastforce simp: line_says_def)
qed

lemma getLine_print_line:
  assumes "m_delimiter t = E_SPACE" and "xs \<noteq> []" and "length xs \<le> TOKENSIZE"
    and "\<forall>x \<in> set xs. plain_token x" and "length (print_line xs) < LINESIZE - 1"
    and "m_file t = print_line xs @ CHR 0x0A # rest"
  shows "\<exists>t'. getLine t = Inr t' \<and> tokens t' = xs \<and> tokenizer_ok t' \<and> \<not> m_done t' \<and> m_file t' = rest"
  using getLine_text [OF _ assms(6)] line_says_printed [OF assms(2-5)] assms(1) by metis

text \<open>A reader that looks only at the tokens, on a file of lines, is a fold over them.\<close>

lemma read_file_of_lines:
  assumes "\<forall>e \<in> set es. line_says (m_delimiter t) (pr e) (f e)" and "\<not> m_done t"
    and "m_file t = concat (map (\<lambda>e. pr e @ [CHR 0x0A]) es)"
    and "\<And>s u e. tokenizer_ok u \<Longrightarrow> e \<in> set es \<Longrightarrow> tokens u = f e \<Longrightarrow> body s u = step s e"
  shows "read_lines body t s = foldR step es s"
  using assms
proof (induction es arbitrary: t s)
  case Nil
  then show ?case
    by (subst read_lines.simps) (simp add: getLine_end)
next
  case (Cons e es)
  then obtain t' where t': "getLine t = Inr t'" "tokens t' = f e" "tokenizer_ok t'" "\<not> m_done t'"
    "m_file t' = concat (map (\<lambda>e. pr e @ [CHR 0x0A]) es)" "m_delimiter t' = m_delimiter t"
    using getLine_text [of t "pr e" "f e"] by auto
  have IH: "read_lines body t' s' = foldR step es s'" for s'
    using Cons.IH [of t'] Cons.prems(1,4) t'(4-6) by simp
  have "body s t' = step s e"
    using Cons.prems(4) [of t' e s] t'(2,3) by simp
  then show ?case
    using Cons.prems(2) t'(1,4) by (subst read_lines.simps) (simp add: IH bindR_def split: sum.splits)
qed

text \<open>A whole file of printed lines.\<close>

definition print_file :: "string list list \<Rightarrow> string" where
  "print_file ls = concat (map (\<lambda>xs. print_line xs @ [CHR 0x0A]) ls)"

definition printable :: "string list \<Rightarrow> bool" where
  "printable xs \<longleftrightarrow> xs \<noteq> [] \<and> length xs \<le> TOKENSIZE \<and> (\<forall>x \<in> set xs. plain_token x) \<and>
     length (print_line xs) < LINESIZE - 1"

lemma delivered_print_file:
  "\<forall>xs \<in> set ls. printable xs \<Longrightarrow> m_delimiter t = E_SPACE \<Longrightarrow> \<not> m_done t \<Longrightarrow>
     m_file t = print_file ls \<Longrightarrow> map tokens (delivered t) = ls"
proof (induction ls arbitrary: t)
  case Nil
  then show ?case
    by (subst delivered.simps) (simp add: getLine_end print_file_def)
next
  case (Cons xs ls)
  then have "m_file t = print_line xs @ CHR 0x0A # print_file ls"
    by (simp add: print_file_def)
  then obtain t' where t': "getLine t = Inr t'" "tokens t' = xs" "\<not> m_done t'" "m_file t' = print_file ls"
    using getLine_print_line [of t xs "print_file ls"] Cons.prems by (auto simp: printable_def)
  have "m_file t \<noteq> []"
    using Cons.prems(4) by (simp add: print_file_def)
  then have "m_delimiter t' = E_SPACE"
    using getLine_tokens(5) t'(1) Cons.prems(2) by simp
  then show ?case
    using Cons.IH [of t'] Cons.prems t' by (subst delivered.simps) simp
qed

lemma read_print_file:
  assumes "\<forall>e \<in> set es. printable (f e)" and "m_delimiter t = E_SPACE" and "\<not> m_done t"
    and "m_file t = print_file (map f es)"
    and "\<And>s u e. tokenizer_ok u \<Longrightarrow> e \<in> set es \<Longrightarrow> tokens u = f e \<Longrightarrow> body s u = step s e"
  shows "read_lines body t s = foldR step es s"
proof (rule read_file_of_lines)
  show "\<forall>e \<in> set es. line_says (m_delimiter t) (print_line (f e)) (f e)"
    using assms(1,2) line_says_printed by (auto simp: printable_def)
  show "m_file t = concat (map (\<lambda>e. print_line (f e) @ [CHR 0x0A]) es)"
    using assms(4) by (simp add: print_file_def comp_def)
qed (use assms in auto)

section \<open>Properties\<close>

text \<open>
  C14: on a file with something left, getLine cuts the next line into the maximal runs of
  characters that are not delimiters (the in-place loop agrees with the reference tokenizer),
  reports their number, gives each of them back by getString and NULL past the last one, sets
  the done flag exactly when there is none, and loses no character of the file; when the line has
  more than 50 tokens it writes past the end of the token array.
\<close>
theorem getLine_reference:
  assumes "m_file t \<noteq> []"
  shows "if length (line_tokens t) \<le> TOKENSIZE
    then \<exists>t'. getLine t = Inr t' \<and> numTokens t' = of_nat (length (line_tokens t)) \<and>
           (m_done t' \<longleftrightarrow> line_tokens t = []) \<and>
           (\<forall>k < 2 ^ 31. getString t' (int k) =
              (if k < length (line_tokens t) then Some (line_tokens t ! k) else None)) \<and>
           fst (fgets (m_file t) (LINESIZE - 1)) @ m_file t' = m_file t
    else getLine t = Inl Out_Of_Bounds"
proof (cases "length (line_tokens t) \<le> TOKENSIZE")
  case True
  then obtain t' where t': "getLine t = Inr t'"
    using getLine_eq [OF assms] by simp
  note props = getLine_tokens [OF assms t']
  have "numTokens t' = of_nat (length (line_tokens t))"
    using props(1,2) by (metis length_map numTokens_def tokenizer_ok_def tokens_def)
  moreover have "fst (fgets (m_file t) (LINESIZE - 1)) @ m_file t' = m_file t"
    using props(4) fgets_append [of "m_file t" "LINESIZE - 1"] by (metis prod.collapse)
  ultimately show ?thesis
    using True t' props getString_token [OF _ props(2)] by auto
next
  case False
  then show ?thesis using getLine_eq [OF assms] by simp
qed

theorem getLine_reference_witness:
  "m_file (Tokenizer_new ''M 12  7'' E_SPACE) \<noteq> [] \<and>
   (\<exists>t'. getLine (Tokenizer_new ''M 12  7'' E_SPACE) = Inr t' \<and> numTokens t' = 3 \<and>
      getString t' 1 = Some ''12'' \<and> getString t' 3 = None)"
proof -
  let ?t = "Tokenizer_new ''M 12  7'' E_SPACE"
  have ne: "m_file ?t \<noteq> []" by (simp add: Tokenizer_new_def)
  have toks: "line_tokens ?t = [''M'', ''12'', ''7'']" by code_simp
  have "(1::nat) < 2 ^ 31" "(3::nat) < 2 ^ 31" by simp_all
  then show ?thesis
    using getLine_reference [OF ne] ne unfolding toks
    by (fastforce simp: TOKENSIZE_def dest: spec [of _ 1] spec [of _ 3])
qed

text \<open>
  A trace line printed as a record letter and decimal numbers below $2^{31}$ comes back as it
  was printed: getChar gives the letter, getInt the k-th number, and the token count is right.
\<close>
theorem record_line_roundtrip:
  fixes ws :: "u32 list"
  assumes "\<not> isspace c" and "c \<noteq> NUL" and "\<forall>w \<in> set ws. unat w < 2 ^ 31" and "length ws < TOKENSIZE"
    and "length (print_line ([c] # map show_dec ws)) < LINESIZE - 1"
    and "m_delimiter t = E_SPACE" and "m_file t = print_line ([c] # map show_dec ws) @ CHR 0x0A # rest"
  shows "\<exists>t'. getLine t = Inr t' \<and> numTokens t' = of_nat (Suc (length ws)) \<and> getChar t' 0 = c \<and>
    (\<forall>k < length ws. getInt t' (int (Suc k)) = Inr (ws ! k)) \<and> m_file t' = rest"
proof -
  let ?xs = "[c] # map show_dec ws"
  have "\<forall>x \<in> set ?xs. plain_token x"
    using assms(1,2) by (auto simp: show_dec_plain) (simp add: plain_token_def)
  then obtain t' where t': "getLine t = Inr t'" "tokens t' = ?xs" "tokenizer_ok t'" "m_file t' = rest"
    using getLine_print_line [OF assms(6) _ _ _ assms(5,7)] assms(4) by auto
  have "numTokens t' = of_nat (length (tokens t'))"
    using t'(3) by (simp add: numTokens_def tokenizer_ok_def tokens_def)
  moreover have "getChar t' 0 = c"
    using token_text [OF t'(3), of 0] t'(2) by (simp add: getChar_def)
  moreover have "getInt t' (int (Suc k)) = Inr (ws ! k)" if "k < length ws" for k
  proof -
    have "unat (ws ! k) < 2 ^ 31" using assms(3) that by auto
    then have "int (unat (ws ! k)) < int (2 ^ 31)" by (simp only: of_nat_less_iff)
    moreover have "- (2 ^ 31) \<le> int (unat (ws ! k))" by (rule order_trans [OF _ of_nat_0_le_iff]) simp
    ultimately have "fits_int (int (unat (ws ! k)))" by (simp add: fits_int_def del: int_nat_eq)
    then show ?thesis
      using getInt_token [OF t'(3), of "Suc k"] t'(2) that
      by (simp add: scan_int_show_dec del: of_nat_Suc)
  qed
  ultimately show ?thesis using t' by auto
qed

theorem record_line_roundtrip_witness:
  "\<exists>t'. getLine (Tokenizer_new (print_line [''W'', show_dec (5::u32), show_dec (81::u32)] @ CHR 0x0A # ''E'') E_SPACE) = Inr t' \<and>
     numTokens t' = 3 \<and> getChar t' 0 = CHR ''W'' \<and> getInt t' 2 = Inr 81 \<and> m_file t' = ''E''"
proof -
  let ?ws = "[5, 81] :: u32 list"
  have len: "length (print_line ([CHR ''W''] # map show_dec ?ws)) < LINESIZE - 1" by code_simp
  have ws: "\<forall>w \<in> set ?ws. unat w < 2 ^ 31" "length ?ws < TOKENSIZE" by (simp_all add: TOKENSIZE_def)
  have c: "\<not> isspace (CHR ''W'')" "CHR ''W'' \<noteq> NUL" by (simp_all add: isspace_def)
  show ?thesis
    using record_line_roundtrip [OF c ws len, of "Tokenizer_new (print_line [''W'', show_dec (5::u32), show_dec (81::u32)] @ CHR 0x0A # ''E'') E_SPACE" "''E''"]
    by (fastforce simp: Tokenizer_new_def dest: spec [of _ 1])
qed

text \<open>
  A file of printed lines reaches the client's loop as exactly those lines, in order: none is
  dropped, split or merged, and the loop's result is the fold of its body over them.
\<close>
theorem read_lines_complete:
  assumes "\<forall>xs \<in> set ls. printable xs"
    and "read_lines body (Tokenizer_new (print_file ls) E_SPACE) s = Inr s'"
  shows "\<exists>us. map tokens us = ls \<and> foldR body us s = Inr s'"
proof -
  let ?t = "Tokenizer_new (print_file ls) E_SPACE"
  have "map tokens (delivered ?t) = ls"
    using assms(1) by (intro delivered_print_file) (simp_all add: Tokenizer_new_def)
  then show ?thesis using read_lines_foldR [OF assms(2)] by blast
qed

theorem read_lines_complete_witness:
  "\<exists>us. map tokens us = [[''a'', ''b''], [''c'']] \<and>
     foldR (\<lambda>n t. Inr (n + length (tokens t))) us 0 = Inr (3::nat)"
proof -
  have p: "\<forall>xs \<in> set [[''a'', ''b''], [''c'']]. printable xs"
    by (simp add: printable_def plain_token_def isspace_def TOKENSIZE_def LINESIZE_def)
  have r: "read_lines (\<lambda>n t. Inr (n + length (tokens t)))
      (Tokenizer_new (print_file [[''a'', ''b''], [''c'']]) E_SPACE) 0 = Inr (3::nat)"
    by code_simp
  show ?thesis using read_lines_complete [OF p r] .
qed

text \<open>
  C38: What a blank line does depends on the mode. Between blanks (the traces and the names files of
  version 1) it has no token: the tokenizer reports that it is done, and everything after it in the
  file is ignored. Between commas (the files of version 2) the newline is itself a token: the body
  is run on that one token and the reading goes on with the next line.
\<close>
theorem blank_line_read:
  assumes "\<not> m_done t" and "m_file t = CHR 0x0A # rest"
  shows "if m_delimiter t = E_SPACE then read_lines body t s = Inr s
    else \<exists>t'. tokens t' = [[CHR 0x0A]] \<and> tokenizer_ok t' \<and> \<not> m_done t' \<and> m_file t' = rest \<and> m_delimiter t' = m_delimiter t \<and>
      read_lines body t s = bindR (body s t') (read_lines body t')"
proof -
  have fg: "fgets (m_file t) (LINESIZE - 1) = ([CHR 0x0A], rest)"
    using assms(2) by (simp add: LINESIZE_def)
  have ne: "m_file t \<noteq> []" using assms(2) by simp
  have toks: "line_tokens t = (if m_delimiter t = E_SPACE then [] else [[CHR 0x0A]])"
    using fg by (cases "m_delimiter t")
      (simp_all add: line_tokens_def line_text_def isDelimiter_def tokens_of_delim tokens_of_Cons)
  then have "length (line_tokens t) \<le> TOKENSIZE" by (simp add: TOKENSIZE_def)
  then obtain t' where t': "getLine t = Inr t'"
    using getLine_eq [OF ne] by simp
  note props = getLine_tokens [OF ne t']
  show ?thesis
  proof (cases "m_delimiter t = E_SPACE")
    case True
    then have "m_done t'" using props toks by simp
    then show ?thesis using assms(1) t' True by (subst read_lines.simps) simp
  next
    case False
    then have "tokens t' = [[CHR 0x0A]]" "\<not> m_done t'" "m_file t' = rest" "tokenizer_ok t'" "m_delimiter t' = m_delimiter t"
      using props toks fg by simp_all
    moreover have "read_lines body t s = bindR (body s t') (read_lines body t')"
      using assms(1) t' \<open>\<not> m_done t'\<close> by (subst read_lines.simps) (simp add: bindR_def split: sum.split)
    ultimately show ?thesis using False by auto
  qed
qed

theorem blank_line_read_witness:
  "read_lines (\<lambda>n t. Inr (Suc n)) (Tokenizer_new (CHR 0x0A # ''M 1 2 3'') E_SPACE) 0 = Inr 0 \<and>
   (\<exists>t'. tokens t' = [[CHR 0x0A]] \<and> m_file t' = ''A,1'' \<and>
      read_lines (\<lambda>n t. Inr (Suc n)) (Tokenizer_new (CHR 0x0A # ''A,1'') E_COMMA) 0 = read_lines (\<lambda>n t. Inr (Suc n)) t' (Suc 0))"
  using blank_line_read [of "Tokenizer_new (CHR 0x0A # ''M 1 2 3'') E_SPACE" "''M 1 2 3''" "\<lambda>n t. Inr (Suc n)" 0]
    blank_line_read [of "Tokenizer_new (CHR 0x0A # ''A,1'') E_COMMA" "''A,1''" "\<lambda>n t. Inr (Suc n)" 0]
  by (auto simp: Tokenizer_new_def)

end
