(* ===== verification/Class_Info.thy ===== *)
theory Class_Info
  imports Tokenizing
begin

text \<open>
  The class tables (\<open>simulator/classinfo.hpp\<close>, \<open>classinfo.cpp\<close>, \<open>et2utility.hpp\<close>): classes,
  methods, fields and allocation sites as records that extend \<open>Entity\<close>, the static tables of
  \<open>ClassInfo\<close>, and the readers that fill them: the names file of Elephant Tracks 1 and the
  classes, fields and methods files of version 2. An entity made by \<open>new\<close> is a cell of the store
  of its kind. A file is its contents, or None where \<open>fopen\<close> fails. \<open>debug_names\<close> is a constant
  false of the program, so what it guards (output) is left out.
\<close>

section \<open>The classes to instrument\<close>

text \<open>\<open>class_list::white_list\<close> (\<open>class_list.cpp\<close>); the simulator does not use it.\<close>

definition white_list :: "string set" where
  "white_list = {''FooClass'', ''HelloWorld'', ''LotsOfAllocs'', ''Methods'', ''NewCall''}"

section \<open>Entities\<close>

text \<open>
  \<open>std::map\<close> and \<open>std::set\<close> order the methods by address: a method pointer is the position of
  its cell, with the order of the positions.
\<close>

datatype method_ptr = Method_Ptr (cell_of: nat)

instantiation method_ptr :: linorder
begin

definition less_eq_method_ptr :: "method_ptr \<Rightarrow> method_ptr \<Rightarrow> bool" where
  "less_eq_method_ptr a b \<longleftrightarrow> cell_of a \<le> cell_of b"

definition less_method_ptr :: "method_ptr \<Rightarrow> method_ptr \<Rightarrow> bool" where
  "less_method_ptr a b \<longleftrightarrow> cell_of a < cell_of b"

instance
  by standard (auto simp: less_eq_method_ptr_def less_method_ptr_def method_ptr.expand)

end

lemma method_ptr_order [simp]:
  "Method_Ptr a \<le> Method_Ptr b \<longleftrightarrow> a \<le> b" "Method_Ptr a < Method_Ptr b \<longleftrightarrow> a < b"
  by (simp_all add: less_eq_method_ptr_def less_method_ptr_def)

type_synonym class_ptr = nat
type_synonym field_ptr = nat
type_synonym site_ptr = nat

record Entity =
  m_id :: u32
  m_name :: string

record Field = Entity +
  m_isStatic :: bool
  m_class_f :: "class_ptr option"
  m_descriptor_f :: string

record AllocSite = Entity +
  m_method_s :: "method_ptr option"
  m_descriptor_s :: string
  m_dimensions :: u32

record Method = Entity +
  m_class_m :: "class_ptr option"
  m_descriptor_m :: string
  m_flags :: string
  m_allocsites :: "(u32, site_ptr) omap"

record Class = Entity +
  m_superclassId :: u32
  m_is_interface :: bool
  m_methods_c :: "(u32, method_ptr) omap"
  m_fields_c :: "(u32, field_ptr) omap"

definition Class_new :: "u32 \<Rightarrow> string \<Rightarrow> bool \<Rightarrow> Class" where
  "Class_new i n b =
     \<lparr>m_id = i, m_name = n, m_superclassId = 0, m_is_interface = b, m_methods_c = [], m_fields_c = []\<rparr>"

definition Method_new :: "u32 \<Rightarrow> class_ptr option \<Rightarrow> string \<Rightarrow> string \<Rightarrow> string \<Rightarrow> Method" where
  "Method_new i c n d f =
     \<lparr>m_id = i, m_name = n, m_class_m = c, m_descriptor_m = d, m_flags = f, m_allocsites = []\<rparr>"

definition Field_new :: "u32 \<Rightarrow> class_ptr option \<Rightarrow> string \<Rightarrow> string \<Rightarrow> bool \<Rightarrow> Field" where
  "Field_new i c n d s =
     \<lparr>m_id = i, m_name = n, m_isStatic = s, m_class_f = c, m_descriptor_f = d\<rparr>"

definition AllocSite_new :: "u32 \<Rightarrow> method_ptr option \<Rightarrow> string \<Rightarrow> string \<Rightarrow> u32 \<Rightarrow> AllocSite" where
  "AllocSite_new i m n d k =
     \<lparr>m_id = i, m_name = n, m_method_s = m, m_descriptor_s = d, m_dimensions = k\<rparr>"

definition setSuperclassId :: "u32 \<Rightarrow> Class \<Rightarrow> Class" where
  "setSuperclassId i c = c\<lparr>m_superclassId := i\<rparr>"

definition addMethod :: "u32 \<Rightarrow> method_ptr \<Rightarrow> Class \<Rightarrow> Class" where
  "addMethod i m c = c\<lparr>m_methods_c := om_put i m (m_methods_c c)\<rparr>"

definition addField :: "u32 \<Rightarrow> field_ptr \<Rightarrow> Class \<Rightarrow> Class" where
  "addField i f c = c\<lparr>m_fields_c := om_put i f (m_fields_c c)\<rparr>"

definition addAllocSite :: "u32 \<Rightarrow> site_ptr \<Rightarrow> Method \<Rightarrow> Method" where
  "addAllocSite i a m = m\<lparr>m_allocsites := om_put i a (m_allocsites m)\<rparr>"

section \<open>The tables\<close>

text \<open>The four stores and the static members of \<open>ClassInfo\<close>.\<close>

record ClassInfo =
  class_cells :: "Class list"
  method_cells :: "Method list"
  field_cells :: "Field list"
  site_cells :: "AllocSite list"
  TheClasses :: "(u32, class_ptr option) omap"
  rev_map :: "(string, u32) omap"
  max_class_id :: u32
  TheMethods :: "(u32, method_ptr option) omap"
  TheFields :: "(u32, field_ptr option) omap"
  TheAllocSites :: "(u32, site_ptr option) omap"
  main_flag :: bool
  main_method :: "method_ptr option"

definition ClassInfo_init :: ClassInfo where
  "ClassInfo_init =
     \<lparr>class_cells = [], method_cells = [], field_cells = [], site_cells = [], TheClasses = [],
      rev_map = [], max_class_id = 0, TheMethods = [], TheFields = [], TheAllocSites = [],
      main_flag = True, main_method = None\<rparr>"

definition set_main_flag :: "ClassInfo \<Rightarrow> ClassInfo" where
  "set_main_flag ci = ci\<lparr>main_flag := True\<rparr>"

definition unset_main_flag :: "ClassInfo \<Rightarrow> ClassInfo" where
  "unset_main_flag ci = ci\<lparr>main_flag := False\<rparr>"

text \<open>A call on an object through a pointer: NULL and wild pointers fault.\<close>

definition upd_class :: "class_ptr option \<Rightarrow> (Class \<Rightarrow> Class) \<Rightarrow> ClassInfo \<Rightarrow> ClassInfo result" where
  "upd_class po f ci =
     bindR (derefN (class_cells ci) po) (\<lambda>c.
     Inr (ci\<lparr>class_cells := (class_cells ci)[the po := f c]\<rparr>))"

definition upd_method :: "method_ptr option \<Rightarrow> (Method \<Rightarrow> Method) \<Rightarrow> ClassInfo \<Rightarrow> ClassInfo result" where
  "upd_method po f ci =
     bindR (derefN (method_cells ci) (map_option cell_of po)) (\<lambda>m.
     Inr (ci\<lparr>method_cells := (method_cells ci)[cell_of (the po) := f m]\<rparr>))"

definition method_at :: "ClassInfo \<Rightarrow> method_ptr option \<Rightarrow> Method result" where
  "method_at ci po = derefN (method_cells ci) (map_option cell_of po)"

text \<open>\<open>Method::info\<close> dereferences the class, \<open>Method::getName\<close> checks it first.\<close>

definition Method_info :: "ClassInfo \<Rightarrow> method_ptr option \<Rightarrow> string result" where
  "Method_info ci po =
     bindR (method_at ci po) (\<lambda>m.
     bindR (derefN (class_cells ci) (m_class_m m)) (\<lambda>c.
     Inr (m_name c @ ''.'' @ m_name m @ '' ~ '' @ m_descriptor_m m)))"

definition Method_getName :: "ClassInfo \<Rightarrow> method_ptr option \<Rightarrow> string result" where
  "Method_getName ci po =
     bindR (method_at ci po) (\<lambda>m.
     case m_class_m m of
       None \<Rightarrow> Inr (''NOTYPE'' @ ''.'' @ m_name m)
     | Some c \<Rightarrow> bindR (deref (class_cells ci) c) (\<lambda>c. Inr (m_name c @ ''.'' @ m_name m)))"

definition AllocSite_info :: "ClassInfo \<Rightarrow> site_ptr option \<Rightarrow> string result" where
  "AllocSite_info ci po =
     bindR (derefN (site_cells ci) po) (\<lambda>a.
     bindR (Method_info ci (m_method_s a)) (\<lambda>s.
     Inr (s @ '':'' @ show_dec (m_id a))))"

section \<open>The names file of version 1\<close>

text \<open>One definition per record kind: \<open>C\<close> and \<open>I\<close>, \<open>N\<close>, \<open>F\<close>, \<open>S\<close>.\<close>

definition names_class :: "ClassInfo \<Rightarrow> Tokenizer \<Rightarrow> ClassInfo result" where
  "names_class ci t =
     bindR (getInt t 1) (\<lambda>i.
     bindR (case map_of (TheClasses ci) i of
              None \<Rightarrow>
                bindR (to_string (getString t 2)) (\<lambda>n.
                let p = length (class_cells ci) in
                Inr (Some p, ci\<lparr>class_cells := class_cells ci @ [Class_new i n (getChar t 0 = CHR ''I'')],
                               TheClasses := om_put i (Some p) (TheClasses ci)\<rparr>))
            | Some po \<Rightarrow> Inr (po, ci)) (\<lambda>(cls, ci).
     if 3 < numTokens t
     then bindR (getInt t 3) (\<lambda>s. upd_class cls (setSuperclassId s) ci)
     else Inr ci))"

definition names_method :: "string \<Rightarrow> string \<Rightarrow> ClassInfo \<Rightarrow> Tokenizer \<Rightarrow> ClassInfo result" where
  "names_method main_class main_function ci t =
     bindR (getInt t 2) (\<lambda>c.
     let (cls, cs) = om_index c (TheClasses ci) in
     bindR (to_string (getString t 3)) (\<lambda>classname.
     bindR (to_string (getString t 4)) (\<lambda>methodname.
     bindR (getInt t 1) (\<lambda>my_id.
     bindR (to_string (getString t 5)) (\<lambda>desc.
     bindR (to_string (getString t 6)) (\<lambda>flags.
     let m = Method_Ptr (length (method_cells ci)) in
     upd_class cls (addMethod my_id m)
       (ci\<lparr>TheClasses := cs,
           method_cells := method_cells ci @ [Method_new my_id cls methodname desc flags],
           main_method := (if main_flag ci \<and> classname = main_class \<and> methodname = main_function
                           then Some m else main_method ci),
           TheMethods := om_put my_id (Some m) (TheMethods ci)\<rparr>)))))))"

definition names_field :: "ClassInfo \<Rightarrow> Tokenizer \<Rightarrow> ClassInfo result" where
  "names_field ci t =
     bindR (getInt t 4) (\<lambda>c.
     let (cls, cs) = om_index c (TheClasses ci) in
     bindR (getInt t 2) (\<lambda>i.
     bindR (to_string (getString t 3)) (\<lambda>n.
     bindR (to_string (getString t 6)) (\<lambda>desc.
     let f = length (field_cells ci) in
     upd_class cls (addField i f)
       (ci\<lparr>TheClasses := cs,
           field_cells := field_cells ci @ [Field_new i cls n desc (getChar t 1 = CHR ''S'')],
           TheFields := om_put i (Some f) (TheFields ci)\<rparr>)))))"

definition names_site :: "ClassInfo \<Rightarrow> Tokenizer \<Rightarrow> ClassInfo result" where
  "names_site ci t =
     bindR (getInt t 1) (\<lambda>mi.
     let (meth, ms) = om_index mi (TheMethods ci) in
     bindR (getInt t 3) (\<lambda>my_id.
     bindR (to_string (getString t 3)) (\<lambda>n.
     bindR (to_string (getString t 4)) (\<lambda>desc.
     bindR (getInt t 5) (\<lambda>dims.
     let a = length (site_cells ci) in
     upd_method meth (addAllocSite my_id a)
       (ci\<lparr>TheMethods := ms,
           site_cells := site_cells ci @ [AllocSite_new my_id meth n desc dims],
           TheAllocSites := om_put my_id (Some a) (TheAllocSites ci)\<rparr>))))))"

definition names_line_et1 :: "string \<Rightarrow> string \<Rightarrow> ClassInfo \<Rightarrow> Tokenizer \<Rightarrow> ClassInfo result" where
  "names_line_et1 main_class main_function ci t =
     (let c = getChar t 0 in
      if c = CHR ''C'' \<or> c = CHR ''I'' then names_class ci t
      else if c = CHR ''N'' then names_method main_class main_function ci t
      else if c = CHR ''F'' then names_field ci t
      else if c = CHR ''S'' then names_site ci t
      else Inr ci)"

definition impl_read_names_file_et1 ::
  "string option \<Rightarrow> string \<Rightarrow> string \<Rightarrow> ClassInfo \<Rightarrow> ClassInfo result" where
  "impl_read_names_file_et1 f main_class main_function ci =
     (case f of
        None \<Rightarrow> Inl (Exit (-1))
      | Some content \<Rightarrow>
          read_lines (names_line_et1 main_class main_function) (Tokenizer_new content E_SPACE) ci)"

definition read_names_file :: "string option \<Rightarrow> string \<Rightarrow> string \<Rightarrow> ClassInfo \<Rightarrow> ClassInfo result" where
  "read_names_file f main_class main_function ci =
     impl_read_names_file_et1 f main_class main_function (set_main_flag ci)"

definition read_names_file_no_mainfunc :: "string option \<Rightarrow> ClassInfo \<Rightarrow> ClassInfo result" where
  "read_names_file_no_mainfunc f ci =
     impl_read_names_file_et1 f ''--NOMAIN--'' ''--NOMAIN--'' (unset_main_flag ci)"

section \<open>The files of version 2\<close>

definition classes_line_et2 :: "ClassInfo \<Rightarrow> Tokenizer \<Rightarrow> ClassInfo result" where
  "classes_line_et2 ci t =
     bindR (to_string (getString t 0)) (\<lambda>name.
     bindR (getInt t 1) (\<lambda>type_id.
     if map_of (rev_map ci) name \<noteq> None then Inr ci
     else
       let ci = ci\<lparr>rev_map := om_put name type_id (rev_map ci)\<rparr> in
       case map_of (TheClasses ci) type_id of
         None \<Rightarrow>
           let p = length (class_cells ci) in
           Inr (ci\<lparr>class_cells := class_cells ci @ [Class_new type_id name False],
                   max_class_id := max (max_class_id ci) type_id,
                   TheClasses := om_put type_id (Some p) (TheClasses ci)\<rparr>)
       | Some cls \<Rightarrow> bindR (derefN (class_cells ci) cls) (\<lambda>_. Inr ci)))"

definition impl_read_classes_file_et2 :: "string option \<Rightarrow> ClassInfo \<Rightarrow> ClassInfo result" where
  "impl_read_classes_file_et2 f ci =
     (case f of
        None \<Rightarrow> Inl (Exit (-1))
      | Some content \<Rightarrow> read_lines classes_line_et2 (Tokenizer_new content E_COMMA) ci)"

text \<open>\<open>split\<close> of \<open>et2utility.hpp\<close>: the pieces \<open>std::getline\<close> delivers, so no empty last piece.\<close>

function split :: "string \<Rightarrow> char \<Rightarrow> string list" where
  "split s d =
     (if s = [] then []
      else case dropWhile (\<lambda>c. c \<noteq> d) s of
             [] \<Rightarrow> [s]
           | x # r \<Rightarrow> takeWhile (\<lambda>c. c \<noteq> d) s # split r d)"
  by pat_completeness auto
termination
proof (relation "measure (\<lambda>(s, d). length s)", simp, clarsimp)
  fix s :: string and d x r
  assume "dropWhile (\<lambda>c. c \<noteq> d) s = x # r"
  then show "length r < length s"
    by (metis Suc_le_lessD length_Cons length_dropWhile_le)
qed

declare split.simps [simp del]

text \<open>The class a field belongs to: the last component but one of its path.\<close>

definition field_class_name :: "string \<Rightarrow> string" where
  "field_class_name name =
     (let classpath = split name (CHR ''/'') in
      if 2 \<le> length classpath then classpath ! (length classpath - 2) else [])"

text \<open>Its lookup: a class the reader does not know is made under the current \<open>max_class_id\<close>.\<close>

definition class_of_field :: "ClassInfo \<Rightarrow> string \<Rightarrow> class_ptr option \<times> ClassInfo" where
  "class_of_field ci class_name =
     (case map_of (rev_map ci) class_name of
        None \<Rightarrow>
          (let type_id = max_class_id ci; p = length (class_cells ci) in
           (Some p, ci\<lparr>max_class_id := max_class_id ci + 1,
                       class_cells := class_cells ci @ [Class_new type_id class_name False],
                       TheClasses := om_put type_id (Some p) (TheClasses ci)\<rparr>))
      | Some i \<Rightarrow> (let (cls, cs) = om_index i (TheClasses ci) in (cls, ci\<lparr>TheClasses := cs\<rparr>)))"

definition fields_line_et2 ::
  "ClassInfo \<times> (u32, string) omap \<Rightarrow> Tokenizer \<Rightarrow> (ClassInfo \<times> (u32, string) omap) result" where
  "fields_line_et2 st t =
     (let (ci, field_map) = st in
     bindR (to_string (getString t 0)) (\<lambda>name.
     bindR (getInt t 1) (\<lambda>field_id.
     if map_of field_map field_id \<noteq> None then Inr (ci, field_map)
     else
       let field_map = om_put field_id name field_map;
           class_name = field_class_name name;
           (cls, ci) = class_of_field ci class_name in
       bindR (assertR (cls \<noteq> None)) (\<lambda>_.
       let f = length (field_cells ci) in
       bindR (upd_class cls (addField field_id f)
                (ci\<lparr>field_cells := field_cells ci @ [Field_new field_id cls name ''TODO'' False],
                    TheFields := om_put field_id (Some f) (TheFields ci)\<rparr>)) (\<lambda>ci.
       Inr (ci, field_map))))))"

definition impl_read_fields_file_et2 ::
  "string option \<Rightarrow> ClassInfo \<Rightarrow> (ClassInfo \<times> (u32, string) omap) result" where
  "impl_read_fields_file_et2 f ci =
     (case f of
        None \<Rightarrow> Inl (Exit (-1))
      | Some content \<Rightarrow> read_lines fields_line_et2 (Tokenizer_new content E_COMMA) (ci, []))"

definition methods_line_et2 ::
  "(u32, string \<times> string) omap \<Rightarrow> Tokenizer \<Rightarrow> (u32, string \<times> string) omap result" where
  "methods_line_et2 method_map t =
     bindR (getInt t 0) (\<lambda>method_id.
     bindR (to_string (getString t 1)) (\<lambda>class_name.
     bindR (to_string (getString t 1)) (\<lambda>method_name.
     if map_of method_map method_id \<noteq> None then Inr method_map
     else Inr method_map)))"

definition impl_read_methods_file_et2 :: "string option \<Rightarrow> (u32, string \<times> string) omap result" where
  "impl_read_methods_file_et2 f =
     (case f of
        None \<Rightarrow> Inl (Exit (-1))
      | Some content \<Rightarrow> read_lines methods_line_et2 (Tokenizer_new content E_COMMA) [])"

definition impl_read_names_file_et2 ::
  "string option \<Rightarrow> string option \<Rightarrow> string option \<Rightarrow> ClassInfo \<Rightarrow> ClassInfo result" where
  "impl_read_names_file_et2 classes_file fields_file methods_file ci =
     bindR (impl_read_classes_file_et2 classes_file ci) (\<lambda>ci.
     bindR (impl_read_fields_file_et2 fields_file ci) (\<lambda>(ci, _).
     bindR (impl_read_methods_file_et2 methods_file) (\<lambda>_.
     Inr ci)))"

definition read_names_file_no_mainfunc_et2 ::
  "string option \<Rightarrow> string option \<Rightarrow> string option \<Rightarrow> ClassInfo \<Rightarrow> ClassInfo result" where
  "read_names_file_no_mainfunc_et2 classes_file fields_file methods_file ci =
     impl_read_names_file_et2 classes_file fields_file methods_file (unset_main_flag ci)"

definition read_names_file_et2 ::
  "string option \<Rightarrow> string option \<Rightarrow> string option \<Rightarrow> ClassInfo \<Rightarrow> ClassInfo result" where
  "read_names_file_et2 classes_file fields_file methods_file ci =
     read_names_file_no_mainfunc_et2 classes_file fields_file methods_file ci"

section \<open>Calls through pointers\<close>

lemma upd_class_Inr:
  "upd_class po f ci = Inr ci' \<longleftrightarrow>
     (\<exists>p. po = Some p \<and> p < length (class_cells ci) \<and>
          ci' = ci\<lparr>class_cells := (class_cells ci)[p := f (class_cells ci ! p)]\<rparr>)"
  by (cases po) (auto simp: upd_class_def fault_simps)

lemma upd_class_Inl:
  "upd_class po f ci = Inl e \<longleftrightarrow>
     (po = None \<and> e = Null_Pointer) \<or>
     (\<exists>p. po = Some p \<and> length (class_cells ci) \<le> p \<and> e = Bad_Pointer)"
  by (cases po) (auto simp: upd_class_def fault_simps)

lemma upd_method_Inr:
  "upd_method po f ci = Inr ci' \<longleftrightarrow>
     (\<exists>p. po = Some (Method_Ptr p) \<and> p < length (method_cells ci) \<and>
          ci' = ci\<lparr>method_cells := (method_cells ci)[p := f (method_cells ci ! p)]\<rparr>)"
proof (cases po)
  case (Some m)
  then show ?thesis by (cases m) (auto simp: upd_method_def fault_simps)
qed (auto simp: upd_method_def)

lemmas call_simps = upd_class_Inr upd_class_Inl upd_method_Inr fault_simps

lemma entity_setters [simp]:
  "m_id (setSuperclassId i c) = m_id c" "m_id (addMethod j m c) = m_id c"
  "m_id (addField j f c) = m_id c" "m_id (addAllocSite j a mt) = m_id mt"
  "m_name (setSuperclassId i c) = m_name c" "m_name (addMethod j m c) = m_name c"
  "m_name (addField j f c) = m_name c" "m_name (addAllocSite j a mt) = m_name mt"
  "m_methods_c (setSuperclassId i c) = m_methods_c c" "m_methods_c (addField j f c) = m_methods_c c"
  "m_methods_c (addMethod j m c) = om_put j m (m_methods_c c)"
  "m_fields_c (setSuperclassId i c) = m_fields_c c" "m_fields_c (addMethod j m c) = m_fields_c c"
  "m_fields_c (addField j f c) = om_put j f (m_fields_c c)"
  "m_class_m (addAllocSite j a mt) = m_class_m mt"
  "m_allocsites (addAllocSite j a mt) = om_put j a (m_allocsites mt)"
  by (simp_all add: setSuperclassId_def addMethod_def addField_def addAllocSite_def)

lemma entity_new [simp]:
  "m_id (Class_new i n b) = i" "m_name (Class_new i n b) = n"
  "m_id (Method_new i c n d f) = i" "m_class_m (Method_new i c n d f) = c"
  "m_id (Field_new i c n d s) = i" "m_class_f (Field_new i c n d s) = c"
  "m_id (AllocSite_new i m n d k) = i" "m_method_s (AllocSite_new i m n d k) = m"
  by (simp_all add: Class_new_def Method_new_def Field_new_def AllocSite_new_def)

section \<open>Invariants of the tables\<close>

text \<open>
  The class table holds no NULL and files every class under its own identifier; every name of
  \<open>rev_map\<close> leads to a class.
\<close>

definition class_ids :: "ClassInfo \<Rightarrow> u32 list" where
  "class_ids ci = map m_id (class_cells ci)"

definition class_tables_ok :: "ClassInfo \<Rightarrow> bool" where
  "class_tables_ok ci \<longleftrightarrow>
     (\<forall>i po. map_of (TheClasses ci) i = Some po \<longrightarrow>
        (\<exists>p. po = Some p \<and> p < length (class_ids ci) \<and> class_ids ci ! p = i)) \<and>
     (\<forall>n i. map_of (rev_map ci) n = Some i \<longrightarrow> map_of (TheClasses ci) i \<noteq> None)"

lemma class_ids_simps [simp]:
  "length (class_ids ci) = length (class_cells ci)"
  "class_ids (ci\<lparr>class_cells := cs\<rparr>) = map m_id cs"
  "class_ids (ci\<lparr>TheClasses := x1\<rparr>) = class_ids ci" "class_ids (ci\<lparr>max_class_id := x2\<rparr>) = class_ids ci"
  "class_ids (ci\<lparr>rev_map := x3\<rparr>) = class_ids ci" "class_ids (ci\<lparr>field_cells := x4\<rparr>) = class_ids ci"
  "class_ids (ci\<lparr>TheFields := x5\<rparr>) = class_ids ci"
  by (simp_all add: class_ids_def)

lemma class_ids_update:
  "p < length (class_cells ci) \<Longrightarrow> m_id (f (class_cells ci ! p)) = m_id (class_cells ci ! p) \<Longrightarrow>
     map m_id ((class_cells ci)[p := f (class_cells ci ! p)]) = class_ids ci"
  by (simp add: class_ids_def map_update list_update_same_conv)

text \<open>Adding a class under its identifier, and calls that keep identifiers.\<close>

lemma class_tables_ok_register:
  "class_tables_ok ci \<Longrightarrow> class_tables_ok (ci\<lparr>class_cells := class_cells ci @ [c],
     TheClasses := om_put (m_id c) (Some (length (class_cells ci))) (TheClasses ci)\<rparr>)"
  by (force simp: class_tables_ok_def nth_append class_ids_def)

lemma class_tables_ok_name:
  "class_tables_ok ci \<Longrightarrow> map_of (TheClasses ci) i \<noteq> None \<Longrightarrow>
     class_tables_ok (ci\<lparr>rev_map := om_put n i (rev_map ci)\<rparr>)"
  by (simp add: class_tables_ok_def)

lemma class_tables_ok_cong:
  "class_ids ci' = class_ids ci \<Longrightarrow> TheClasses ci' = TheClasses ci \<Longrightarrow> rev_map ci' = rev_map ci \<Longrightarrow>
     class_tables_ok ci' = class_tables_ok ci"
  unfolding class_tables_ok_def by (simp only: length_map class_ids_def)

lemma class_tables_ok_frame [simp]:
  "class_tables_ok (ci\<lparr>max_class_id := x\<rparr>) = class_tables_ok ci"
  "class_tables_ok (ci\<lparr>field_cells := fs\<rparr>) = class_tables_ok ci"
  "class_tables_ok (ci\<lparr>TheFields := ft\<rparr>) = class_tables_ok ci"
  by (rule class_tables_ok_cong, simp_all)+

lemma class_tables_okD:
  assumes "class_tables_ok ci" and "map_of (TheClasses ci) i = Some po"
  obtains p where "po = Some p" "p < length (class_cells ci)" "m_id (class_cells ci ! p) = i"
  using assms unfolding class_tables_ok_def class_ids_def by fastforce

lemma upd_class_keeps_tables:
  assumes "class_tables_ok ci" and "upd_class po f ci = Inr ci'" and "\<And>c. m_id (f c) = m_id c"
  shows "class_tables_ok ci'"
proof -
  obtain p where p: "p < length (class_cells ci)"
    and ci': "ci' = ci\<lparr>class_cells := (class_cells ci)[p := f (class_cells ci ! p)]\<rparr>"
    using assms(2) by (auto simp: upd_class_Inr)
  have "class_ids ci' = class_ids ci"
    unfolding ci' using class_ids_update [OF p] assms(3) by simp
  then show ?thesis
    using assms(1) class_tables_ok_cong [of ci' ci] by (simp add: ci')
qed

text \<open>After the classes file alone, a class's own name is registered and \<open>max_class_id\<close> is a bound.\<close>

definition classes_ok :: "ClassInfo \<Rightarrow> bool" where
  "classes_ok ci \<longleftrightarrow> class_tables_ok ci \<and>
     (\<forall>i p. map_of (TheClasses ci) i = Some (Some p) \<longrightarrow>
        i \<le> max_class_id ci \<and> map_of (rev_map ci) (m_name (class_cells ci ! p)) = Some i)"

lemma classes_ok_init [simp]: "classes_ok ClassInfo_init"
  by (simp add: classes_ok_def class_tables_ok_def ClassInfo_init_def)

lemma classes_line_keeps:
  assumes ok: "classes_ok ci" and step: "classes_line_et2 ci t = Inr ci'"
  shows "classes_ok ci'"
proof -
  obtain n i where "getString t 0 = Some n" "getInt t 1 = Inr i"
    using step by (auto simp: classes_line_et2_def fault_simps)
  note line = step [unfolded classes_line_et2_def, unfolded this, simplified]
  consider (dup) "map_of (rev_map ci) n \<noteq> None" "ci' = ci"
    | (old) "map_of (rev_map ci) n = None" "map_of (TheClasses ci) i \<noteq> None"
        "ci' = ci\<lparr>rev_map := om_put n i (rev_map ci)\<rparr>"
    | (new) "map_of (rev_map ci) n = None" "map_of (TheClasses ci) i = None"
        "ci' = ci\<lparr>rev_map := om_put n i (rev_map ci), class_cells := class_cells ci @ [Class_new i n False],
                  max_class_id := max (max_class_id ci) i,
                  TheClasses := om_put i (Some (length (class_cells ci))) (TheClasses ci)\<rparr>"
    using line \<open>getString t 0 = Some n\<close>
    by (auto simp: Let_def to_string_def fault_simps split: if_splits option.splits)
  then show ?thesis
  proof cases
    case dup
    then show ?thesis using ok by simp
  next
    case old
    then show ?thesis using ok by (auto simp: classes_ok_def class_tables_ok_def)
  next
    case new
    have valid: "p < length (class_cells ci)" if "map_of (TheClasses ci) j = Some (Some p)" for j p
      using ok that by (auto simp: classes_ok_def elim: class_tables_okD)
    have "class_tables_ok (ci\<lparr>class_cells := class_cells ci @ [Class_new i n False],
        TheClasses := om_put i (Some (length (class_cells ci))) (TheClasses ci)\<rparr>)" (is "class_tables_ok ?c")
      using ok class_tables_ok_register [of ci "Class_new i n False"] by (simp add: classes_ok_def)
    then have "class_tables_ok (?c\<lparr>rev_map := om_put n i (rev_map ci)\<rparr>)"
      using class_tables_ok_name [of ?c i n] by simp
    then have tables: "class_tables_ok ci'"
      using class_tables_ok_cong [of ci' "?c\<lparr>rev_map := om_put n i (rev_map ci)\<rparr>"] by (simp add: new(3))
    moreover have "j \<le> max_class_id ci' \<and> map_of (rev_map ci') (m_name (class_cells ci' ! p)) = Some j"
      if "map_of (TheClasses ci') j = Some (Some p)" for j p
      using that ok new(1) valid unfolding new(3)
      by (fastforce simp: classes_ok_def nth_append le_max_iff_disj split: if_splits)
    ultimately show ?thesis unfolding classes_ok_def by blast
  qed
qed

interpretation class_lines: line_handler classes_line_et2 classes_ok
  by unfold_locales (rule classes_line_keeps)

lemma class_of_field_keeps:
  assumes "class_tables_ok ci" and "class_of_field ci n = (cls, ci')"
  shows "class_tables_ok ci' \<and> (\<exists>p. cls = Some p \<and> p < length (class_cells ci'))"
proof (cases "map_of (rev_map ci) n")
  case None
  have "class_tables_ok (ci\<lparr>class_cells := class_cells ci @ [Class_new (max_class_id ci) n False],
     TheClasses := om_put (max_class_id ci) (Some (length (class_cells ci))) (TheClasses ci)\<rparr>)"
    using class_tables_ok_register [OF assms(1), of "Class_new (max_class_id ci) n False"] by simp
  then have "class_tables_ok ci'"
    using assms(2) None class_tables_ok_cong [of ci' "ci\<lparr>class_cells := class_cells ci @ [Class_new (max_class_id ci) n False],
      TheClasses := om_put (max_class_id ci) (Some (length (class_cells ci))) (TheClasses ci)\<rparr>"]
    by (auto simp: class_of_field_def Let_def)
  then show ?thesis
    using assms(2) None by (auto simp: class_of_field_def Let_def)
next
  case (Some i)
  then obtain po where po: "map_of (TheClasses ci) i = Some po"
    using assms(1) unfolding class_tables_ok_def by blast
  then obtain p where "po = Some p" "p < length (class_cells ci)"
    using assms(1) by (elim class_tables_okD)
  then show ?thesis
    using assms Some po by (auto simp: class_of_field_def om_index_present)
qed

lemma fields_line_keeps:
  assumes "class_tables_ok (fst st)" and "fields_line_et2 st t = Inr st'"
  shows "class_tables_ok (fst st')"
proof -
  obtain ci fm where st: "st = (ci, fm)" by fastforce
  obtain name i where ni: "getString t 0 = Some name" "getInt t 1 = Inr i"
    using assms(2) by (auto simp: fields_line_et2_def st fault_simps)
  obtain cls ci1 where fc: "class_of_field ci (field_class_name name) = (cls, ci1)" by fastforce
  have "class_tables_ok ci1"
    using class_of_field_keeps [OF _ fc] assms(1) st by simp
  then show ?thesis
    using assms st ni fc
    by (auto simp: fields_line_et2_def to_string_def fault_simps Let_def split: if_splits
        dest: upd_class_keeps_tables [rotated])
qed

interpretation field_lines: line_handler fields_line_et2 "\<lambda>st. class_tables_ok (fst st)"
  by unfold_locales (rule fields_line_keeps)

section \<open>The names file of version 1 keeps the tables linked\<close>

definition methods_ok :: "ClassInfo \<Rightarrow> bool" where
  "methods_ok ci \<longleftrightarrow> (\<forall>i po. map_of (TheMethods ci) i = Some po \<longrightarrow>
     (\<exists>m c. po = Some (Method_Ptr m) \<and> m < length (method_cells ci) \<and> m_id (method_cells ci ! m) = i \<and>
        m_class_m (method_cells ci ! m) = Some c \<and> c < length (class_cells ci) \<and>
        map_of (m_methods_c (class_cells ci ! c)) i = Some (Method_Ptr m)))"

definition fields_ok :: "ClassInfo \<Rightarrow> bool" where
  "fields_ok ci \<longleftrightarrow> (\<forall>i po. map_of (TheFields ci) i = Some po \<longrightarrow>
     (\<exists>f c. po = Some f \<and> f < length (field_cells ci) \<and> m_id (field_cells ci ! f) = i \<and>
        m_class_f (field_cells ci ! f) = Some c \<and> c < length (class_cells ci) \<and>
        map_of (m_fields_c (class_cells ci ! c)) i = Some f))"

definition sites_ok :: "ClassInfo \<Rightarrow> bool" where
  "sites_ok ci \<longleftrightarrow> (\<forall>i po. map_of (TheAllocSites ci) i = Some po \<longrightarrow>
     (\<exists>a m. po = Some a \<and> a < length (site_cells ci) \<and> m_id (site_cells ci ! a) = i \<and>
        m_method_s (site_cells ci ! a) = Some (Method_Ptr m) \<and> m < length (method_cells ci) \<and>
        map_of (m_allocsites (method_cells ci ! m)) i = Some a))"

definition names_ok :: "ClassInfo \<Rightarrow> bool" where
  "names_ok ci \<longleftrightarrow> class_tables_ok ci \<and> methods_ok ci \<and> fields_ok ci \<and> sites_ok ci"

lemma upd_class_links:
  assumes "upd_class po f ci = Inr ci'"
  shows "(\<And>c. m_methods_c (f c) = m_methods_c c) \<Longrightarrow> methods_ok ci \<Longrightarrow> methods_ok ci'"
    "(\<And>c. m_fields_c (f c) = m_fields_c c) \<Longrightarrow> fields_ok ci \<Longrightarrow> fields_ok ci'"
    "sites_ok ci' = sites_ok ci"
  using assms
  by (fastforce simp: upd_class_Inr methods_ok_def fields_ok_def sites_ok_def nth_list_update)+

lemma names_class_keeps:
  assumes "names_ok ci" and "names_class ci t = Inr ci'"
  shows "names_ok ci'"
proof -
  obtain i where i: "getInt t 1 = Inr i"
    using assms(2) by (auto simp: names_class_def fault_simps)
  define ci1 where "ci1 n = ci\<lparr>class_cells := class_cells ci @ [Class_new i n (getChar t 0 = CHR ''I'')],
                   TheClasses := om_put i (Some (length (class_cells ci))) (TheClasses ci)\<rparr>" for n
  have "names_ok (ci1 n)" for n
    using assms(1) class_tables_ok_register [of ci "Class_new i n (getChar t 0 = CHR ''I'')"]
    by (fastforce simp: ci1_def names_ok_def methods_ok_def fields_ok_def sites_ok_def nth_append)
  moreover have "\<exists>cls c n. (c = ci \<or> c = ci1 n) \<and> (ci' = c \<or> (\<exists>s. upd_class cls (setSuperclassId s) c = Inr ci'))"
    using assms(2) i
    by (auto simp: names_class_def fault_simps ci1_def Let_def split: option.splits if_splits)
  ultimately obtain cls c s where "names_ok c" "ci' = c \<or> upd_class cls (setSuperclassId s) c = Inr ci'"
    using assms(1) by metis
  then show ?thesis
    by (auto simp: names_ok_def upd_class_links dest: upd_class_keeps_tables [rotated] upd_class_links(1,2) [rotated 2])
qed

lemma om_index_ref:
  "fst (om_index i m) = Some p \<Longrightarrow> snd (om_index i m) = m"
  by (auto simp: om_index_def split: option.splits)

lemma class_tables_ok_update:
  assumes "class_tables_ok ci" and "p < length (class_cells ci)" and "m_id c = m_id (class_cells ci ! p)"
    and "class_cells ci' = (class_cells ci)[p := c]" "TheClasses ci' = TheClasses ci" "rev_map ci' = rev_map ci"
  shows "class_tables_ok ci'"
proof -
  have "class_ids ci' = class_ids ci"
    using assms(2-4) by (simp add: class_ids_def map_update list_update_same_conv)
  then show ?thesis
    using assms class_tables_ok_cong [of ci' ci] by simp
qed

lemma names_method_keeps:
  assumes ok: "names_ok ci" and step: "names_method mc mf ci t = Inr ci'"
  shows "names_ok ci'"
proof -
  let ?m = "length (method_cells ci)"
  obtain i n d f p where p: "p < length (class_cells ci)"
    and cells: "class_cells ci' = (class_cells ci)[p := addMethod i (Method_Ptr ?m) (class_cells ci ! p)]"
      "method_cells ci' = method_cells ci @ [Method_new i (Some p) n d f]"
      "TheMethods ci' = om_put i (Some (Method_Ptr ?m)) (TheMethods ci)"
      "TheClasses ci' = TheClasses ci" "rev_map ci' = rev_map ci" "field_cells ci' = field_cells ci"
      "TheFields ci' = TheFields ci" "site_cells ci' = site_cells ci" "TheAllocSites ci' = TheAllocSites ci"
    using step by (auto simp: names_method_def call_simps case_prod_unfold Let_def om_index_ref)
  have "class_tables_ok ci'"
    using ok p by (intro class_tables_ok_update [OF _ p _ cells(1,4,5)]) (auto simp: names_ok_def)
  moreover have "methods_ok ci'"
    unfolding methods_ok_def
  proof (intro allI impI)
    fix j po
    assume j: "map_of (TheMethods ci') j = Some po"
    show "\<exists>m c. po = Some (Method_Ptr m) \<and> m < length (method_cells ci') \<and> m_id (method_cells ci' ! m) = j \<and>
        m_class_m (method_cells ci' ! m) = Some c \<and> c < length (class_cells ci') \<and>
        map_of (m_methods_c (class_cells ci' ! c)) j = Some (Method_Ptr m)"
    proof (cases "j = i")
      case False
      then obtain m c where "po = Some (Method_Ptr m)" "m < length (method_cells ci)" "m_id (method_cells ci ! m) = j"
        "m_class_m (method_cells ci ! m) = Some c" "c < length (class_cells ci)"
        "map_of (m_methods_c (class_cells ci ! c)) j = Some (Method_Ptr m)"
        using ok j unfolding names_ok_def methods_ok_def cells by fastforce
      then show ?thesis
        using False p by (rule_tac x = m in exI, rule_tac x = c in exI) (auto simp: cells nth_append nth_list_update)
    qed (use j p in \<open>auto simp: cells\<close>)
  qed
  moreover have "fields_ok ci'"
    using ok p by (fastforce simp: names_ok_def fields_ok_def nth_list_update cells)
  moreover have "sites_ok ci'"
    using ok by (fastforce simp: names_ok_def sites_ok_def nth_append cells)
  ultimately show ?thesis by (simp add: names_ok_def)
qed

lemma names_field_keeps:
  assumes ok: "names_ok ci" and step: "names_field ci t = Inr ci'"
  shows "names_ok ci'"
proof -
  let ?f = "length (field_cells ci)"
  obtain i n d b p where p: "p < length (class_cells ci)"
    and cells: "class_cells ci' = (class_cells ci)[p := addField i ?f (class_cells ci ! p)]"
      "field_cells ci' = field_cells ci @ [Field_new i (Some p) n d b]"
      "TheFields ci' = om_put i (Some ?f) (TheFields ci)"
      "TheClasses ci' = TheClasses ci" "rev_map ci' = rev_map ci" "method_cells ci' = method_cells ci"
      "TheMethods ci' = TheMethods ci" "site_cells ci' = site_cells ci" "TheAllocSites ci' = TheAllocSites ci"
    using step by (auto simp: names_field_def call_simps case_prod_unfold Let_def om_index_ref)
  have "class_tables_ok ci'"
    using ok p by (intro class_tables_ok_update [OF _ p _ cells(1,4,5)]) (auto simp: names_ok_def)
  moreover have "fields_ok ci'"
    unfolding fields_ok_def
  proof (intro allI impI)
    fix j po
    assume j: "map_of (TheFields ci') j = Some po"
    show "\<exists>f c. po = Some f \<and> f < length (field_cells ci') \<and> m_id (field_cells ci' ! f) = j \<and>
        m_class_f (field_cells ci' ! f) = Some c \<and> c < length (class_cells ci') \<and>
        map_of (m_fields_c (class_cells ci' ! c)) j = Some f"
    proof (cases "j = i")
      case False
      then obtain f c where "po = Some f" "f < length (field_cells ci)" "m_id (field_cells ci ! f) = j"
        "m_class_f (field_cells ci ! f) = Some c" "c < length (class_cells ci)"
        "map_of (m_fields_c (class_cells ci ! c)) j = Some f"
        using ok j unfolding names_ok_def fields_ok_def cells by fastforce
      then show ?thesis
        using False p by (rule_tac x = f in exI, rule_tac x = c in exI) (auto simp: cells nth_append nth_list_update)
    qed (use j p in \<open>auto simp: cells\<close>)
  qed
  moreover have "methods_ok ci'"
    using ok p by (fastforce simp: names_ok_def methods_ok_def nth_list_update cells)
  moreover have "sites_ok ci'"
    using ok by (simp add: names_ok_def sites_ok_def cells)
  ultimately show ?thesis by (simp add: names_ok_def)
qed

lemma names_site_keeps:
  assumes ok: "names_ok ci" and step: "names_site ci t = Inr ci'"
  shows "names_ok ci'"
proof -
  let ?a = "length (site_cells ci)"
  obtain i n d k m where m: "m < length (method_cells ci)"
    and cells: "method_cells ci' = (method_cells ci)[m := addAllocSite i ?a (method_cells ci ! m)]"
      "site_cells ci' = site_cells ci @ [AllocSite_new i (Some (Method_Ptr m)) n d k]"
      "TheAllocSites ci' = om_put i (Some ?a) (TheAllocSites ci)"
      "TheClasses ci' = TheClasses ci" "rev_map ci' = rev_map ci" "class_cells ci' = class_cells ci"
      "TheMethods ci' = TheMethods ci" "field_cells ci' = field_cells ci" "TheFields ci' = TheFields ci"
    using step by (auto simp: names_site_def call_simps case_prod_unfold Let_def om_index_ref)
  have "class_tables_ok ci'"
    using ok class_tables_ok_cong [of ci' ci] by (simp add: names_ok_def class_ids_def cells)
  moreover have "sites_ok ci'"
    unfolding sites_ok_def
  proof (intro allI impI)
    fix j po
    assume j: "map_of (TheAllocSites ci') j = Some po"
    show "\<exists>a m. po = Some a \<and> a < length (site_cells ci') \<and> m_id (site_cells ci' ! a) = j \<and>
        m_method_s (site_cells ci' ! a) = Some (Method_Ptr m) \<and> m < length (method_cells ci') \<and>
        map_of (m_allocsites (method_cells ci' ! m)) j = Some a"
    proof (cases "j = i")
      case False
      then obtain a mm where "po = Some a" "a < length (site_cells ci)" "m_id (site_cells ci ! a) = j"
        "m_method_s (site_cells ci ! a) = Some (Method_Ptr mm)" "mm < length (method_cells ci)"
        "map_of (m_allocsites (method_cells ci ! mm)) j = Some a"
        using ok j unfolding names_ok_def sites_ok_def cells by fastforce
      then show ?thesis
        using False m by (rule_tac x = a in exI, rule_tac x = mm in exI) (auto simp: cells nth_append nth_list_update)
    qed (use j m in \<open>auto simp: cells\<close>)
  qed
  moreover have "methods_ok ci'"
    using ok m by (fastforce simp: names_ok_def methods_ok_def nth_list_update cells)
  moreover have "fields_ok ci'"
    using ok by (simp add: names_ok_def fields_ok_def cells)
  ultimately show ?thesis by (simp add: names_ok_def)
qed

lemma names_line_keeps: "names_ok ci \<Longrightarrow> names_line_et1 mc mf ci t = Inr ci' \<Longrightarrow> names_ok ci'"
  by (auto simp: names_line_et1_def Let_def split: if_splits
      intro: names_class_keeps names_method_keeps names_field_keeps names_site_keeps)

interpretation names_lines: line_handler "names_line_et1 mc mf" names_ok for mc mf
  by unfold_locales (rule names_line_keeps)

lemma names_ok_init [simp]: "names_ok (set_main_flag ClassInfo_init)"
  by (simp add: names_ok_def class_tables_ok_def methods_ok_def fields_ok_def sites_ok_def
      ClassInfo_init_def set_main_flag_def)

section \<open>Faults of the version 2 readers\<close>

lemma getInt_fault: "getInt t i = Inl e \<Longrightarrow> e = Bad_Conversion"
  by (auto simp: getInt_def split: if_splits option.splits)

lemma getString_first: "tokenizer_ok t \<Longrightarrow> tokens t \<noteq> [] \<Longrightarrow> getString t 0 = Some (hd (tokens t))"
  using getString_token [of 0 t] by (simp add: hd_conv_nth)

lemma classes_line_fault:
  assumes "classes_ok ci" "tokenizer_ok t" "tokens t \<noteq> []" "classes_line_et2 ci t = Inl e"
  shows "e = Bad_Conversion"
  using assms
  by (auto simp: classes_line_et2_def getString_first to_string_def fault_simps Let_def classes_ok_def
      dest: getInt_fault split: if_splits option.splits elim: class_tables_okD)

lemma fields_line_fault:
  assumes "class_tables_ok ci" "tokenizer_ok t" "tokens t \<noteq> []" "fields_line_et2 (ci, fm) t = Inl e"
  shows "e = Bad_Conversion"
proof -
  obtain cls ci1 where fc: "class_of_field ci (field_class_name (hd (tokens t))) = (cls, ci1)" by fastforce
  show ?thesis
    using assms(4) getString_first [OF assms(2,3)] fc class_of_field_keeps [OF assms(1) fc]
    by (auto simp: fields_line_et2_def to_string_def fault_simps Let_def upd_class_Inl
        dest: getInt_fault split: if_splits)
qed

lemma class_tables_names:
  "impl_read_classes_file_et2 f ClassInfo_init = Inr ci \<Longrightarrow> classes_ok ci"
  by (auto simp: impl_read_classes_file_et2_def split: option.splits intro: class_lines.lines_keep [OF classes_ok_init])

interpretation method_lines: line_handler methods_line_et2 "\<lambda>m. m = []"
  by unfold_locales (auto simp: methods_line_et2_def fault_simps split: if_splits)

lemma class_tables_from: "classes_ok ci0 \<Longrightarrow> impl_read_classes_file_et2 f ci0 = Inr ci \<Longrightarrow> classes_ok ci"
  by (auto simp: impl_read_classes_file_et2_def split: option.splits intro: class_lines.lines_keep)

lemma class_files_faults:
  assumes start: "classes_ok ci0" and "bindR (impl_read_classes_file_et2 cf ci0) (impl_read_fields_file_et2 ff) = Inl e"
  shows "e = Out_Of_Bounds \<or> e = Bad_Conversion \<or> (cf = None \<or> ff = None) \<and> e = Exit (-1)"
proof -
  consider (unopened) "(cf = None \<or> ff = None) \<and> e = Exit (-1)"
    | (classes) c where "read_lines classes_line_et2 (Tokenizer_new c E_COMMA) ci0 = Inl e"
    | (fields) ci f where "classes_ok ci"
        "read_lines fields_line_et2 (Tokenizer_new f E_COMMA) (ci, []) = Inl e"
    using assms class_tables_from [OF start, of cf]
    by (cases cf; cases ff) (auto simp: bindR_Inl_iff impl_read_classes_file_et2_def impl_read_fields_file_et2_def)
  then show ?thesis
  proof cases
    case classes
    then show ?thesis using class_lines.lines_fault [OF start] classes_line_fault by blast
  next
    case fields
    then show ?thesis
      using field_lines.lines_fault [OF _ fields(2)] fields_line_fault
      by (fastforce simp: classes_ok_def)
  qed simp
qed

lemma methods_file_faults:
  assumes "impl_read_methods_file_et2 f = Inl e"
  shows "e = Out_Of_Bounds \<or> e = Bad_Conversion \<or> e = Null_Pointer \<or> f = None \<and> e = Exit (-1)"
proof -
  have "e = Bad_Conversion \<or> e = Null_Pointer" if "methods_line_et2 m u = Inl e" for m u
    using that by (auto simp: methods_line_et2_def fault_simps to_string_def dest: getInt_fault split: if_splits option.splits)
  then show ?thesis
    using assms method_lines.lines_fault [of "[]" _ e] by (fastforce simp: impl_read_methods_file_et2_def split: option.splits)
qed

text \<open>The readers of version 2 know no allocation sites.\<close>

lemma class_of_field_sites: "class_of_field ci n = (cls, ci') \<Longrightarrow> TheAllocSites ci' = TheAllocSites ci"
  by (auto simp: class_of_field_def om_index_def Let_def split: option.splits if_splits)

lemma upd_class_sites: "upd_class po f ci = Inr ci' \<Longrightarrow> TheAllocSites ci' = TheAllocSites ci"
  by (auto simp: upd_class_Inr)

lemma fields_line_sites:
  assumes "fields_line_et2 st t = Inr st'"
  shows "TheAllocSites (fst st') = TheAllocSites (fst st)"
proof -
  obtain ci fm where st: "st = (ci, fm)" by fastforce
  obtain name i where ni: "getString t 0 = Some name" "getInt t 1 = Inr i"
    using assms by (auto simp: fields_line_et2_def st fault_simps)
  obtain cls ci1 where fc: "class_of_field ci (field_class_name name) = (cls, ci1)" by fastforce
  then show ?thesis
    using assms st ni class_of_field_sites [OF fc]
    by (auto simp: fields_line_et2_def to_string_def fault_simps Let_def dest!: upd_class_sites split: if_splits)
qed

interpretation class_lines_sites: line_handler classes_line_et2 "\<lambda>ci. TheAllocSites ci = sites" for sites
  by unfold_locales (auto simp: classes_line_et2_def fault_simps Let_def split: if_splits option.splits)

interpretation field_lines_sites: line_handler fields_line_et2 "\<lambda>st. TheAllocSites (fst st) = sites" for sites
  by unfold_locales (simp add: fields_line_sites)

lemma names_file_sites:
  assumes "read_names_file_et2 cf ff mf ci = Inr ci'"
  shows "TheAllocSites ci' = TheAllocSites ci"
proof -
  obtain ci1 fm where 1: "impl_read_classes_file_et2 cf (unset_main_flag ci) = Inr ci1"
      "impl_read_fields_file_et2 ff ci1 = Inr (ci', fm)"
    using assms by (auto simp: read_names_file_et2_def read_names_file_no_mainfunc_et2_def impl_read_names_file_et2_def fault_simps)
  have "TheAllocSites ci1 = TheAllocSites ci"
    using 1(1) class_lines_sites.lines_keep [of "unset_main_flag ci" "TheAllocSites ci"]
    by (auto simp: impl_read_classes_file_et2_def unset_main_flag_def split: option.splits)
  moreover have "TheAllocSites ci' = TheAllocSites ci1"
    using 1(2) field_lines_sites.lines_keep [of "(ci1, [])" "TheAllocSites ci1" _ "(ci', fm)"]
    by (auto simp: impl_read_fields_file_et2_def split: option.splits)
  ultimately show ?thesis by simp
qed

section \<open>Splitting paths\<close>

fun join :: "char \<Rightarrow> string list \<Rightarrow> string" where
  "join d [] = []"
| "join d [x] = x"
| "join d (x # y # ys) = x @ d # join d (y # ys)"

lemma split_run: "d \<notin> set s \<Longrightarrow> s \<noteq> [] \<Longrightarrow> split s d = [s]"
proof -
  assume "d \<notin> set s" "s \<noteq> []"
  then have "dropWhile (\<lambda>c. c \<noteq> d) s = []" unfolding dropWhile_eq_Nil_conv by blast
  then show ?thesis using \<open>s \<noteq> []\<close> by (subst split.simps) (simp del: dropWhile_eq_Nil_conv)
qed

lemma split_cons: "d \<notin> set x \<Longrightarrow> split (x @ d # r) d = x # split r d"
proof -
  assume "d \<notin> set x"
  then have "\<forall>c \<in> set x. c \<noteq> d" by auto
  then show ?thesis
    by (subst split.simps) (simp add: takeWhile_upto dropWhile_upto)
qed

lemma split_prefix: "split (p @ d # r) d = split (p @ [d]) d @ split r d"
proof (induction "length p" arbitrary: p rule: less_induct)
  case less
  show ?case
  proof (cases "d \<in> set p")
    case False
    then show ?thesis by (simp add: split_cons split.simps [of "[]"])
  next
    case True
    then obtain a b where p: "p = a @ d # b" "d \<notin> set a"
      by (meson split_list_first)
    then show ?thesis using less.hyps [of b] by (simp add: split_cons)
  qed
qed

lemma split_nonempty: "s \<noteq> [] \<Longrightarrow> split s d \<noteq> []"
  by (subst split.simps) (simp split: list.splits)

lemma join_Cons: "ys \<noteq> [] \<Longrightarrow> join d (x # ys) = x @ d # join d ys"
  by (cases ys) auto

section \<open>Properties\<close>

text \<open>
  C24: reading a classes file leaves the two class tables consistent: every class name leads to an
  identifier not above max_class_id, under which the class table holds a class (never NULL) with
  that identifier, whose own name leads back to it.
\<close>
theorem classes_file_tables:
  assumes "impl_read_classes_file_et2 f ClassInfo_init = Inr ci"
    and "map_of (rev_map ci) n = Some i"
  shows "i \<le> max_class_id ci \<and> (\<exists>p. map_of (TheClasses ci) i = Some (Some p) \<and> p < length (class_cells ci) \<and>
    m_id (class_cells ci ! p) = i \<and> map_of (rev_map ci) (m_name (class_cells ci ! p)) = Some i)"
proof -
  have ok: "classes_ok ci" using class_tables_names [OF assms(1)] .
  then obtain po where po: "map_of (TheClasses ci) i = Some po"
    using assms(2) unfolding classes_ok_def class_tables_ok_def by blast
  then obtain p where "po = Some p" "p < length (class_cells ci)" "m_id (class_cells ci ! p) = i"
    using ok by (auto simp: classes_ok_def elim: class_tables_okD)
  then show ?thesis using po ok by (auto simp: classes_ok_def)
qed

text \<open>A small classes file: two classes and a duplicate name.\<close>

definition demo_classes :: string where
  "demo_classes = ''A,1'' @ [CHR 0x0A] @ ''p/B,2'' @ [CHR 0x0A] @ ''A,7'' @ [CHR 0x0A]"

definition demo_tables :: ClassInfo where
  "demo_tables = projr (impl_read_classes_file_et2 (Some demo_classes) ClassInfo_init)"

lemma demo_tables_read: "impl_read_classes_file_et2 (Some demo_classes) ClassInfo_init = Inr demo_tables"
proof -
  have "\<not> isl (impl_read_classes_file_et2 (Some demo_classes) ClassInfo_init)" by code_simp
  then show ?thesis by (simp add: demo_tables_def sum.collapse(2))
qed

theorem classes_file_tables_witness:
  "map_of (rev_map demo_tables) ''p/B'' = Some 2 \<and>
   (\<exists>p. map_of (TheClasses demo_tables) 2 = Some (Some p) \<and> m_id (class_cells demo_tables ! p) = 2)"
proof -
  have "map_of (rev_map demo_tables) ''p/B'' = Some 2" by code_simp
  then show ?thesis using classes_file_tables [OF demo_tables_read] by blast
qed

text \<open>
  C32: reading the classes and the fields file that were opened can only stop on a line with too
  many tokens or on a number that does not fit an int: the class of a field is never NULL, so the
  assertion on it never fails, and no bad pointer is followed.
\<close>
theorem class_readers_faults:
  assumes "bindR (impl_read_classes_file_et2 (Some cf) ClassInfo_init) (impl_read_fields_file_et2 (Some ff)) = Inl e"
  shows "e = Out_Of_Bounds \<or> e = Bad_Conversion"
  using class_files_faults [OF classes_ok_init assms] by simp

theorem class_readers_faults_witness:
  "bindR (impl_read_classes_file_et2 (Some ''A,99999999999'') ClassInfo_init)
     (impl_read_fields_file_et2 (Some ''x,1'')) = Inl Bad_Conversion \<and>
   (Bad_Conversion = Out_Of_Bounds \<or> Bad_Conversion = Bad_Conversion)"
proof -
  have "isl (bindR (impl_read_classes_file_et2 (Some ''A,99999999999'') ClassInfo_init)
     (impl_read_fields_file_et2 (Some ''x,1'')))" by code_simp
  then obtain e where e: "bindR (impl_read_classes_file_et2 (Some ''A,99999999999'') ClassInfo_init)
     (impl_read_fields_file_et2 (Some ''x,1'')) = Inl e" by (auto simp: isl_def)
  have "e \<noteq> Out_Of_Bounds"
  proof -
    have "bindR (impl_read_classes_file_et2 (Some ''A,99999999999'') ClassInfo_init)
     (impl_read_fields_file_et2 (Some ''x,1'')) \<noteq> Inl Out_Of_Bounds" by code_simp
    then show ?thesis using e by auto
  qed
  then show ?thesis using class_readers_faults [OF e] e by blast
qed

text \<open>
  C28: a field whose class is not a known name makes a new class under the current max_class_id and
  files it there, so a class of the classes file that has that identifier is no longer found: its
  name still leads to the identifier, the identifier leads to the new class with another name.
\<close>
theorem unknown_field_class_takes_max_id:
  assumes "class_tables_ok ci" and "fields_line_et2 (ci, fm) t = Inr (ci', fm')"
    and "getString t 0 = Some name" and "getInt t 1 = Inr fid" and "map_of fm fid = None"
    and "map_of (rev_map ci) (field_class_name name) = None"
  shows "\<exists>q. map_of (TheClasses ci') (max_class_id ci) = Some (Some q) \<and> q = length (class_cells ci) \<and>
    m_name (class_cells ci' ! q) = field_class_name name \<and>
    map_of (m_fields_c (class_cells ci' ! q)) fid = Some (length (field_cells ci)) \<and>
    max_class_id ci' = max_class_id ci + 1 \<and> rev_map ci' = rev_map ci \<and>
    (\<forall>n. map_of (rev_map ci) n = Some (max_class_id ci) \<longrightarrow> m_name (class_cells ci' ! q) \<noteq> n)"
  using assms
  by (auto simp: fields_line_et2_def class_of_field_def to_string_def fault_simps Let_def upd_class_Inr nth_append)

theorem unknown_field_class_takes_max_id_witness:
  "map_of (rev_map demo_tables) ''p/B'' = Some 2 \<and>
   (\<exists>ci' fm' q. fields_line_et2 (demo_tables, []) (projr (getLine (Tokenizer_new ''q/C/f,5'' E_COMMA))) = Inr (ci', fm') \<and>
      map_of (TheClasses ci') 2 = Some (Some q) \<and> m_name (class_cells ci' ! q) = ''C'')"
proof -
  let ?t = "projr (getLine (Tokenizer_new ''q/C/f,5'' E_COMMA))"
  have ok: "class_tables_ok demo_tables"
    using class_tables_names [OF demo_tables_read] by (simp add: classes_ok_def)
  have "\<not> isl (fields_line_et2 (demo_tables, []) ?t)" by code_simp
  then obtain ci' fm' where r: "fields_line_et2 (demo_tables, []) ?t = Inr (ci', fm')"
    by (metis isl_def surj_pair sum.exhaust)
  have f: "getString ?t 0 = Some ''q/C/f''" "getInt ?t 1 = Inr 5" by code_simp+
  have n: "map_of (rev_map demo_tables) (field_class_name ''q/C/f'') = None"
    and "field_class_name ''q/C/f'' = ''C''" and "max_class_id demo_tables = 2"
    and "map_of (rev_map demo_tables) ''p/B'' = Some 2" by code_simp+
  then show ?thesis
    using unknown_field_class_takes_max_id [OF ok r f _ n] r by auto
qed

text \<open>
  The methods reader never stores a method: when it returns, the map it returns is empty,
  and every line of the file had at least two fields (it stops on NULL at a line with one).
\<close>
theorem methods_file_empty:
  assumes "impl_read_methods_file_et2 (Some content) = Inr mm"
  shows "mm = [] \<and> (\<forall>u \<in> set (delivered (Tokenizer_new content E_COMMA)). 2 \<le> length (tokens u))"
proof -
  let ?us = "delivered (Tokenizer_new content E_COMMA)"
  have run: "foldR methods_line_et2 ?us [] = Inr mm"
    using assms by (auto simp: impl_read_methods_file_et2_def intro: read_lines_foldR)
  have "2 \<le> length (tokens u)" if u: "u \<in> set ?us" for u
  proof -
    obtain m m' where "methods_line_et2 m u = Inr m'" using foldR_ran [OF run u] by blast
    then have "getString u (int 1) \<noteq> None" by (auto simp: methods_line_et2_def fault_simps)
    moreover have "tokenizer_ok u" using delivered_ok [OF u] by blast
    ultimately show ?thesis using getString_token [of 1 u] by (auto split: if_splits)
  qed
  then show ?thesis using method_lines.loop_keeps [OF _ run] by simp
qed

theorem methods_file_empty_witness:
  "\<exists>mm. impl_read_methods_file_et2 (Some ''4,p/B,m'') = Inr mm \<and> mm = []"
proof -
  have "\<not> isl (impl_read_methods_file_et2 (Some ''4,p/B,m''))" by code_simp
  then obtain mm where "impl_read_methods_file_et2 (Some ''4,p/B,m'') = Inr mm"
    by (metis isl_def sum.exhaust)
  then show ?thesis using methods_file_empty by blast
qed

text \<open>
  Split undoes joining with a separator: pieces that are non-empty and free of the separator
  come back as they were, and so the class of a field path is its last component but one, whatever
  comes before it.
\<close>
theorem split_join:
  assumes "\<forall>x \<in> set xs. x \<noteq> [] \<and> d \<notin> set x"
  shows "split (join d xs) d = xs \<and>
    (2 \<le> length xs \<longrightarrow> d = CHR ''/'' \<longrightarrow> field_class_name (pre @ CHR ''/'' # join d xs) = last (butlast xs))"
proof -
  have sj: "split (join d xs) d = xs"
    using assms by (induction xs rule: join.induct) (auto simp: split_run split_cons split.simps [of "[]"])
  moreover have "field_class_name (pre @ CHR ''/'' # join d xs) = last (butlast xs)"
    if len: "2 \<le> length xs" and sl: "d = CHR ''/''"
  proof -
    obtain zs b where zs: "xs = zs @ [b]" using len by (cases xs rule: rev_cases) auto
    obtain ys a where "zs = ys @ [a]" using len zs by (cases zs rule: rev_cases) auto
    then have xs: "xs = ys @ [a, b]" using zs by simp
    show ?thesis
      using sj [unfolded sl] unfolding field_class_name_def Let_def sl
        split_prefix [of pre "CHR ''/''" "join (CHR ''/'') xs"] by (simp add: xs nth_append butlast_append)
  qed
  ultimately show ?thesis by blast
qed

theorem split_join_witness:
  "split (join (CHR ''/'') [''B'', ''f'']) (CHR ''/'') = [''B'', ''f''] \<and>
   field_class_name (''java/util'' @ CHR ''/'' # join (CHR ''/'') [''B'', ''f'']) = ''B''"
  using split_join [of "[''B'', ''f'']" "CHR ''/''" "''java/util''"] by simp

text \<open>
  C12: reading a names file of version 1 leaves every table linked: a method, field or allocation
  site found under an identifier is a valid entity with that identifier, its owner (class or
  method) is valid, and the owner's own table leads back to it.
\<close>
theorem names_file_links:
  assumes "read_names_file f mc mf ClassInfo_init = Inr ci"
  shows "(map_of (TheMethods ci) i = Some po \<longrightarrow>
      (\<exists>m c. po = Some (Method_Ptr m) \<and> m_id (method_cells ci ! m) = i \<and> m_class_m (method_cells ci ! m) = Some c \<and>
         c < length (class_cells ci) \<and> map_of (m_methods_c (class_cells ci ! c)) i = Some (Method_Ptr m))) \<and>
    (map_of (TheFields ci) i = Some fo \<longrightarrow>
      (\<exists>f c. fo = Some f \<and> m_id (field_cells ci ! f) = i \<and> m_class_f (field_cells ci ! f) = Some c \<and>
         c < length (class_cells ci) \<and> map_of (m_fields_c (class_cells ci ! c)) i = Some f)) \<and>
    (map_of (TheAllocSites ci) i = Some so \<longrightarrow>
      (\<exists>a m. so = Some a \<and> m_id (site_cells ci ! a) = i \<and> m_method_s (site_cells ci ! a) = Some (Method_Ptr m) \<and>
         m < length (method_cells ci) \<and> map_of (m_allocsites (method_cells ci ! m)) i = Some a))"
proof -
  have "names_ok ci"
    using assms
    by (auto simp: read_names_file_def impl_read_names_file_et1_def split: option.splits
        intro: names_lines.lines_keep [OF names_ok_init])
  then show ?thesis
    unfolding names_ok_def methods_ok_def fields_ok_def sites_ok_def by blast
qed

definition demo_names :: string where
  "demo_names = ''C 1 A 0'' @ [CHR 0x0A] @ ''N 5 1 A run ()V S'' @ [CHR 0x0A] @ ''S 5 1 9 A 0'' @ [CHR 0x0A]"

theorem names_file_links_witness:
  "\<exists>ci a m. read_names_file (Some demo_names) ''A'' ''run'' ClassInfo_init = Inr ci \<and>
     map_of (TheAllocSites ci) 9 = Some (Some a) \<and> m_method_s (site_cells ci ! a) = Some (Method_Ptr m) \<and>
     map_of (m_allocsites (method_cells ci ! m)) 9 = Some a"
proof -
  let ?r = "read_names_file (Some demo_names) ''A'' ''run'' ClassInfo_init"
  have "\<not> isl ?r" by code_simp
  then have r: "?r = Inr (projr ?r)" by (simp add: sum.collapse(2))
  have "map_of (TheAllocSites (projr ?r)) 9 = Some (Some 0)" by code_simp
  then show ?thesis using names_file_links [OF r, of 9 None None "Some 0"] r by blast
qed

end
