(* ===== verification/Names_File.thy ===== *)
theory Names_File
  imports Class_Info
begin

text \<open>
  What the names file of version 1 means: the declarations of classes, methods, fields and allocation sites,
  printed one on a line, and the tables that \<open>impl_read_names_file_et1\<close> (\<open>classinfo.cpp\<close>) makes of them.
\<close>

section \<open>Declarations\<close>

text \<open>
  A class or interface (which of the two, identifier, name, super class if given), a method (identifier,
  class, name of the class, name, descriptor, flags), a field (static or not, identifier, name, class,
  name of the class, descriptor), an allocation site (method, class, identifier, type, dimensions). An
  entry \<open>E\<close> ends a class and says nothing.
\<close>

datatype names_entry =
    Class_Decl bool u32 string "u32 option"
  | Method_Decl u32 u32 string string string string
  | Field_Decl bool u32 string u32 string string
  | Site_Decl u32 u32 u32 string u32
  | End_Decl

fun print_declaration :: "names_entry \<Rightarrow> string list" where
  "print_declaration (Class_Decl b i n s) =
     [if b then ''I'' else ''C'', show_dec i, n] @ (case s of None \<Rightarrow> [] | Some k \<Rightarrow> [show_dec k])"
| "print_declaration (Method_Decl i c cn n d f) = [''N'', show_dec i, show_dec c, cn, n, d, f]"
| "print_declaration (Field_Decl s i n c cn d) = [''F'', if s then ''S'' else ''I'', show_dec i, n, show_dec c, cn, d]"
| "print_declaration (Site_Decl m c i t k) = [''S'', show_dec m, show_dec c, show_dec i, t, show_dec k]"
| "print_declaration End_Decl = [''E'']"

fun declaration_fits :: "names_entry \<Rightarrow> bool" where
  "declaration_fits (Class_Decl b i n s) = (fits i \<and> (\<forall>k \<in> set_option s. fits k))"
| "declaration_fits (Method_Decl i c cn n d f) = (fits i \<and> fits c)"
| "declaration_fits (Field_Decl s i n c cn d) = (fits i \<and> fits c)"
| "declaration_fits (Site_Decl m c i t k) = (fits m \<and> fits i \<and> fits k)"
| "declaration_fits End_Decl = True"

definition names_text :: "names_entry list \<Rightarrow> string" where
  "names_text ds = print_file (map print_declaration ds)"

section \<open>Their meaning\<close>

text \<open>
  Classes have a name, the kind and the super class (0 when none was given); methods the identifier of
  their class, a name, a descriptor and flags; fields whether they are static, the class, a name and a
  descriptor; sites the identifier of their method, a type and dimensions. The main method comes with
  its identifier.
\<close>

record Names =
  classes_of :: "u32 \<Rightarrow> (string \<times> bool \<times> u32) option"
  methods_of :: "u32 \<Rightarrow> (u32 \<times> string \<times> string \<times> string) option"
  fields_of_names :: "u32 \<Rightarrow> (bool \<times> u32 \<times> string \<times> string) option"
  sites_of :: "u32 \<Rightarrow> (u32 \<times> string \<times> u32) option"
  main_of :: "(u32 \<times> u32 \<times> string \<times> string \<times> string) option"

definition no_names :: Names where
  "no_names = \<lparr>classes_of = (\<lambda>_. None), methods_of = (\<lambda>_. None), fields_of_names = (\<lambda>_. None), sites_of = (\<lambda>_. None), main_of = None\<rparr>"

text \<open>
  A class declared again keeps its name and kind, and gets another super class when one is given. A
  method, field or site declared again is replaced. What refers to an unknown class or method has no
  meaning.
\<close>

fun declare_name :: "(string \<times> string) option \<Rightarrow> Names \<Rightarrow> names_entry \<Rightarrow> Names option" where
  "declare_name mn ns (Class_Decl b i n s) =
     Some (ns\<lparr>classes_of := (classes_of ns)(i \<mapsto>
       (case classes_of ns i of
          None \<Rightarrow> (n, b, case s of None \<Rightarrow> 0 | Some k \<Rightarrow> k)
        | Some (n', b', k') \<Rightarrow> (n', b', case s of None \<Rightarrow> k' | Some k \<Rightarrow> k)))\<rparr>)"
| "declare_name mn ns (Method_Decl i c cn n d f) =
     (if classes_of ns c = None then None
      else Some (ns\<lparr>methods_of := (methods_of ns)(i \<mapsto> (c, n, d, f)),
                    main_of := (if mn = Some (cn, n) then Some (i, c, n, d, f) else main_of ns)\<rparr>))"
| "declare_name mn ns (Field_Decl s i n c cn d) =
     (if classes_of ns c = None then None
      else Some (ns\<lparr>fields_of_names := (fields_of_names ns)(i \<mapsto> (s, c, n, d))\<rparr>))"
| "declare_name mn ns (Site_Decl m c i t k) =
     (if methods_of ns m = None then None
      else Some (ns\<lparr>sites_of := (sites_of ns)(i \<mapsto> (m, t, k))\<rparr>))"
| "declare_name mn ns End_Decl = Some ns"

fun declare_all :: "(string \<times> string) option \<Rightarrow> Names \<Rightarrow> names_entry list \<Rightarrow> Names option" where
  "declare_all mn ns [] = Some ns"
| "declare_all mn ns (d # ds) = Option.bind (declare_name mn ns d) (\<lambda>ns. declare_all mn ns ds)"

section \<open>What the tables say\<close>

definition class_id_at :: "ClassInfo \<Rightarrow> class_ptr option \<Rightarrow> u32" where
  "class_id_at ci po = m_id (class_cells ci ! the po)"

definition class_says :: "ClassInfo \<Rightarrow> class_ptr \<Rightarrow> string \<times> bool \<times> u32" where
  "class_says ci p = (let c = class_cells ci ! p in (m_name c, m_is_interface c, m_superclassId c))"

definition method_says :: "ClassInfo \<Rightarrow> method_ptr \<Rightarrow> u32 \<times> string \<times> string \<times> string" where
  "method_says ci p =
     (let m = method_cells ci ! cell_of p in (class_id_at ci (m_class_m m), m_name m, m_descriptor_m m, m_flags m))"

definition field_says :: "ClassInfo \<Rightarrow> field_ptr \<Rightarrow> bool \<times> u32 \<times> string \<times> string" where
  "field_says ci p =
     (let f = field_cells ci ! p in (m_isStatic f, class_id_at ci (m_class_f f), m_name f, m_descriptor_f f))"

definition site_says :: "ClassInfo \<Rightarrow> site_ptr \<Rightarrow> u32 \<times> string \<times> u32" where
  "site_says ci p =
     (let a = site_cells ci ! p in
      (m_id (method_cells ci ! cell_of (the (m_method_s a))), m_descriptor_s a, m_dimensions a))"

definition entries :: "('p \<Rightarrow> 'v) \<Rightarrow> (u32, 'p option) omap \<Rightarrow> u32 \<Rightarrow> 'v option" where
  "entries says m i = Option.bind (map_of m i) (map_option says)"

definition names_in :: "ClassInfo \<Rightarrow> Names" where
  "names_in ci =
     \<lparr>classes_of = entries (class_says ci) (TheClasses ci),
      methods_of = entries (method_says ci) (TheMethods ci),
      fields_of_names = entries (field_says ci) (TheFields ci),
      sites_of = entries (site_says ci) (TheAllocSites ci),
      main_of = map_option (\<lambda>p. (m_id (method_cells ci ! cell_of p), method_says ci p)) (main_method ci)\<rparr>"

section \<open>The reader on a declaration\<close>

definition enter_declaration :: "string \<Rightarrow> string \<Rightarrow> ClassInfo \<Rightarrow> names_entry \<Rightarrow> ClassInfo result" where
  "enter_declaration mc mf ci d =
     (case d of
        Class_Decl b i n s \<Rightarrow>
          (let (cls, ci) = (case map_of (TheClasses ci) i of
               None \<Rightarrow> (Some (length (class_cells ci)),
                  ci\<lparr>class_cells := class_cells ci @ [Class_new i n b],
                     TheClasses := om_put i (Some (length (class_cells ci))) (TheClasses ci)\<rparr>)
             | Some po \<Rightarrow> (po, ci))
           in case s of None \<Rightarrow> Inr ci | Some k \<Rightarrow> upd_class cls (setSuperclassId k) ci)
      | Method_Decl i c cn n de f \<Rightarrow>
          (let (cls, cs) = om_index c (TheClasses ci); m = Method_Ptr (length (method_cells ci))
           in upd_class cls (addMethod i m)
                (ci\<lparr>TheClasses := cs, method_cells := method_cells ci @ [Method_new i cls n de f],
                    main_method := (if main_flag ci \<and> cn = mc \<and> n = mf then Some m else main_method ci),
                    TheMethods := om_put i (Some m) (TheMethods ci)\<rparr>))
      | Field_Decl s i n c cn de \<Rightarrow>
          (let (cls, cs) = om_index c (TheClasses ci); f = length (field_cells ci)
           in upd_class cls (addField i f)
                (ci\<lparr>TheClasses := cs, field_cells := field_cells ci @ [Field_new i cls n de s],
                    TheFields := om_put i (Some f) (TheFields ci)\<rparr>))
      | Site_Decl m c i t k \<Rightarrow>
          (let (meth, ms) = om_index m (TheMethods ci); a = length (site_cells ci)
           in upd_method meth (addAllocSite i a)
                (ci\<lparr>TheMethods := ms, site_cells := site_cells ci @ [AllocSite_new i meth (show_dec i) t k],
                    TheAllocSites := om_put i (Some a) (TheAllocSites ci)\<rparr>))
      | End_Decl \<Rightarrow> Inr ci)"

lemma names_line_enters:
  assumes ok: "tokenizer_ok u" and toks: "tokens u = print_declaration d" and fit: "declaration_fits d"
  shows "names_line_et1 mc mf ci u = enter_declaration mc mf ci d"
proof -
  note num = numTokens_tokens [OF ok, unfolded toks]
  note int = getInt_printed [OF ok, unfolded toks]
  note char = getChar_token [OF ok, unfolded toks]
  have str: "getString u (int k) = (if k < length (print_declaration d) then Some (print_declaration d ! k) else None)"
    if "k < 2 ^ 31" for k
    using getString_token [OF that ok] by (simp add: toks)
  show ?thesis
  proof (cases d)
    case (Class_Decl b i n s)
    have "getString u 2 = Some n" using str [of 2] by (simp add: Class_Decl)
    moreover have "getInt u 1 = Inr i" "getChar u 0 = (if b then CHR ''I'' else CHR ''C'')"
      using fit int [of 1 i 1] char [of 0 "if b then CHR ''I'' else CHR ''C''" "[]" 0] by (simp_all add: Class_Decl)
    moreover have "numTokens u = (if s = None then 3 else 4)" using num by (cases s) (simp_all add: Class_Decl)
    moreover have "s = Some k \<Longrightarrow> getInt u 3 = Inr k" for k using fit int [of 3 k 3] by (simp add: Class_Decl)
    ultimately show ?thesis
      by (cases s; cases b; simp add: Class_Decl names_line_et1_def names_class_def enter_declaration_def to_string_def Let_def
          split: option.split)
  next
    case (Method_Decl i c cn n de f)
    have "getString u 3 = Some cn" "getString u 4 = Some n" "getString u 5 = Some de" "getString u 6 = Some f"
      using str [of 3] str [of 4] str [of 5] str [of 6] by (simp_all add: Method_Decl)
    moreover have "getInt u 1 = Inr i" "getInt u 2 = Inr c" "getChar u 0 = CHR ''N''"
      using fit int [of 1 i 1] int [of 2 c 2] char [of 0 "CHR ''N''" "[]" 0] by (simp_all add: Method_Decl)
    ultimately show ?thesis
      by (simp add: Method_Decl names_line_et1_def names_method_def enter_declaration_def to_string_def Let_def)
  next
    case (Field_Decl s i n c cn de)
    have "getString u 3 = Some n" "getString u 6 = Some de"
      using str [of 3] str [of 6] by (simp_all add: Field_Decl)
    moreover have "getInt u 2 = Inr i" "getInt u 4 = Inr c" "getChar u 0 = CHR ''F''" "getChar u 1 = (if s then CHR ''S'' else CHR ''I'')"
      using fit int [of 2 i 2] int [of 4 c 4] char [of 0 "CHR ''F''" "[]" 0] char [of 1 "if s then CHR ''S'' else CHR ''I''" "[]" 1]
      by (simp_all add: Field_Decl)
    ultimately show ?thesis
      by (cases s; simp add: Field_Decl names_line_et1_def names_field_def enter_declaration_def to_string_def Let_def)
  next
    case (Site_Decl m c i t k)
    have "getString u 3 = Some (show_dec i)" "getString u 4 = Some t"
      using str [of 3] str [of 4] by (simp_all add: Site_Decl)
    moreover have "getInt u 1 = Inr m" "getInt u 3 = Inr i" "getInt u 5 = Inr k" "getChar u 0 = CHR ''S''"
      using fit int [of 1 m 1] int [of 3 i 3] int [of 5 k 5] char [of 0 "CHR ''S''" "[]" 0] by (simp_all add: Site_Decl)
    ultimately show ?thesis
      by (simp add: Site_Decl names_line_et1_def names_site_def enter_declaration_def to_string_def Let_def)
  next
    case End_Decl
    have "getChar u 0 = CHR ''E''" using char [of 0 "CHR ''E''" "[]" 0] by (simp add: End_Decl)
    then show ?thesis by (simp add: End_Decl names_line_et1_def enter_declaration_def)
  qed
qed

lemma read_names_text:
  assumes "\<forall>d \<in> set ds. declaration_fits d \<and> printable (print_declaration d)"
  shows "impl_read_names_file_et1 (Some (names_text ds)) mc mf ci = foldR (enter_declaration mc mf) ds ci"
proof -
  have "read_lines (names_line_et1 mc mf) (Tokenizer_new (names_text ds) E_SPACE) ci = foldR (enter_declaration mc mf) ds ci"
    by (rule read_print_file [where f = print_declaration])
      (use assms names_line_enters in \<open>auto simp: Tokenizer_new_def names_text_def\<close>)
  then show ?thesis by (simp add: impl_read_names_file_et1_def)
qed

section \<open>The tables follow the meaning\<close>

text \<open>Every entry of a table and every pointer to an owner is valid, and entities have the identifiers they are filed under.\<close>

definition points :: "nat \<Rightarrow> nat option \<Rightarrow> bool" where
  "points n po \<longleftrightarrow> (case po of None \<Rightarrow> False | Some p \<Rightarrow> p < n)"

lemma points_simps [simp]: "points n (Some p) \<longleftrightarrow> p < n" "\<not> points n None"
  by (simp_all add: points_def)

lemma points_iff: "points n po \<longleftrightarrow> (\<exists>p < n. po = Some p)"
  "points n (map_option cell_of mo) \<longleftrightarrow> (\<exists>m < n. mo = Some (Method_Ptr m))"
  by (auto simp: points_def split: option.splits)

definition tables_valid :: "ClassInfo \<Rightarrow> bool" where
  "tables_valid ci \<longleftrightarrow>
     (\<forall>i po. map_of (TheClasses ci) i = Some po \<longrightarrow> points (length (class_cells ci)) po \<and> m_id (class_cells ci ! the po) = i) \<and>
     (\<forall>i po. map_of (TheMethods ci) i = Some po \<longrightarrow>
        points (length (method_cells ci)) (map_option cell_of po) \<and> m_id (method_cells ci ! cell_of (the po)) = i) \<and>
     (\<forall>i po. map_of (TheFields ci) i = Some po \<longrightarrow> points (length (field_cells ci)) po) \<and>
     (\<forall>i po. map_of (TheAllocSites ci) i = Some po \<longrightarrow> points (length (site_cells ci)) po) \<and>
     (\<forall>m. main_method ci = Some m \<longrightarrow> cell_of m < length (method_cells ci)) \<and>
     (\<forall>m < length (method_cells ci). points (length (class_cells ci)) (m_class_m (method_cells ci ! m))) \<and>
     (\<forall>f < length (field_cells ci). points (length (class_cells ci)) (m_class_f (field_cells ci ! f))) \<and>
     (\<forall>a < length (site_cells ci). points (length (method_cells ci)) (map_option cell_of (m_method_s (site_cells ci ! a))))"

lemma tables_validD:
  assumes "tables_valid ci"
  shows "map_of (TheClasses ci) i = Some po \<Longrightarrow> \<exists>p < length (class_cells ci). po = Some p \<and> m_id (class_cells ci ! p) = i"
    and "map_of (TheMethods ci) i = Some mo \<Longrightarrow> \<exists>m < length (method_cells ci). mo = Some (Method_Ptr m) \<and> m_id (method_cells ci ! m) = i"
    and "map_of (TheFields ci) i = Some fo \<Longrightarrow> \<exists>f < length (field_cells ci). fo = Some f"
    and "map_of (TheAllocSites ci) i = Some ao \<Longrightarrow> \<exists>a < length (site_cells ci). ao = Some a"
    and "main_method ci = Some mp \<Longrightarrow> cell_of mp < length (method_cells ci)"
    and "m < length (method_cells ci) \<Longrightarrow> \<exists>c < length (class_cells ci). m_class_m (method_cells ci ! m) = Some c"
    and "f < length (field_cells ci) \<Longrightarrow> \<exists>c < length (class_cells ci). m_class_f (field_cells ci ! f) = Some c"
    and "a < length (site_cells ci) \<Longrightarrow> \<exists>m < length (method_cells ci). m_method_s (site_cells ci ! a) = Some (Method_Ptr m)"
  using assms unfolding tables_valid_def points_iff by fastforce+

lemma tables_valid_start: "tables_valid (set_main_flag ClassInfo_init)" "tables_valid (unset_main_flag ClassInfo_init)"
  by (simp_all add: tables_valid_def set_main_flag_def unset_main_flag_def ClassInfo_init_def)

lemma names_in_start: "names_in (set_main_flag ClassInfo_init) = no_names" "names_in (unset_main_flag ClassInfo_init) = no_names"
  by (simp_all add: names_in_def no_names_def entries_def set_main_flag_def unset_main_flag_def ClassInfo_init_def fun_eq_iff)

lemma class_unknown:
  assumes "tables_valid ci"
  shows "classes_of (names_in ci) c = None \<longleftrightarrow> map_of (TheClasses ci) c = None"
  using tables_validD(1) [OF assms, of c] by (cases "map_of (TheClasses ci) c") (auto simp: names_in_def entries_def)

lemma method_unknown:
  assumes "tables_valid ci"
  shows "methods_of (names_in ci) m = None \<longleftrightarrow> map_of (TheMethods ci) m = None"
  using tables_validD(2) [OF assms, of m] by (cases "map_of (TheMethods ci) m") (auto simp: names_in_def entries_def)

text \<open>Two states whose tables agree, on cells that say the same.\<close>

lemma entries_cong:
  "map_of m i = map_of m' i \<Longrightarrow> (\<And>p. map_of m i = Some (Some p) \<Longrightarrow> f p = g p) \<Longrightarrow> entries f m i = entries g m' i"
  by (auto simp: entries_def split: option.split bind_splits) (metis (mono_tags, lifting) option.map_cong0 option.set_cases)

text \<open>What earlier cells say is kept when cells are added and when owners list what they own.\<close>

definition cells_kept :: "ClassInfo \<Rightarrow> ClassInfo \<Rightarrow> bool" where
  "cells_kept ci ci' \<longleftrightarrow>
     length (class_cells ci) \<le> length (class_cells ci') \<and> length (method_cells ci) \<le> length (method_cells ci') \<and>
     length (field_cells ci) \<le> length (field_cells ci') \<and> length (site_cells ci) \<le> length (site_cells ci') \<and>
     (\<forall>p < length (class_cells ci). m_id (class_cells ci' ! p) = m_id (class_cells ci ! p)) \<and>
     (\<forall>m < length (method_cells ci). m_id (method_cells ci' ! m) = m_id (method_cells ci ! m) \<and>
        m_class_m (method_cells ci' ! m) = m_class_m (method_cells ci ! m) \<and> m_name (method_cells ci' ! m) = m_name (method_cells ci ! m) \<and>
        m_descriptor_m (method_cells ci' ! m) = m_descriptor_m (method_cells ci ! m) \<and> m_flags (method_cells ci' ! m) = m_flags (method_cells ci ! m)) \<and>
     (\<forall>f < length (field_cells ci). field_cells ci' ! f = field_cells ci ! f) \<and>
     (\<forall>a < length (site_cells ci). site_cells ci' ! a = site_cells ci ! a)"

lemma kept_says:
  assumes "tables_valid ci" and "cells_kept ci ci'"
  shows "cell_of m < length (method_cells ci) \<Longrightarrow> method_says ci' m = method_says ci m"
    and "f < length (field_cells ci) \<Longrightarrow> field_says ci' f = field_says ci f"
    and "a < length (site_cells ci) \<Longrightarrow> site_says ci' a = site_says ci a"
proof -
  note kept = assms(2) [unfolded cells_kept_def]
  show "method_says ci' m = method_says ci m" if m: "cell_of m < length (method_cells ci)"
  proof -
    obtain c where "c < length (class_cells ci)" "m_class_m (method_cells ci ! cell_of m) = Some c"
      using tables_validD(6) [OF assms(1) m] by blast
    then show ?thesis using kept m by (simp add: method_says_def class_id_at_def Let_def)
  qed
  show "field_says ci' f = field_says ci f" if f: "f < length (field_cells ci)"
  proof -
    obtain c where "c < length (class_cells ci)" "m_class_f (field_cells ci ! f) = Some c"
      using tables_validD(7) [OF assms(1) f] by blast
    then show ?thesis using kept f by (simp add: field_says_def class_id_at_def Let_def)
  qed
  show "site_says ci' a = site_says ci a" if a: "a < length (site_cells ci)"
  proof -
    obtain m where "m < length (method_cells ci)" "m_method_s (site_cells ci ! a) = Some (Method_Ptr m)"
      using tables_validD(8) [OF assms(1) a] by blast
    then show ?thesis using kept a by (simp add: site_says_def Let_def)
  qed
qed

lemma kept_entries:
  assumes "tables_valid ci" and "cells_kept ci ci'"
  shows "entries (method_says ci') (TheMethods ci) = entries (method_says ci) (TheMethods ci)"
    and "entries (field_says ci') (TheFields ci) = entries (field_says ci) (TheFields ci)"
    and "entries (site_says ci') (TheAllocSites ci) = entries (site_says ci) (TheAllocSites ci)"
    and "map_option (\<lambda>p. (m_id (method_cells ci' ! cell_of p), method_says ci' p)) (main_method ci) =
      map_option (\<lambda>p. (m_id (method_cells ci ! cell_of p), method_says ci p)) (main_method ci)"
proof -
  note says = kept_says [OF assms] and valid = tables_validD [OF assms(1)]
  show "entries (method_says ci') (TheMethods ci) = entries (method_says ci) (TheMethods ci)"
    using says(1) valid(2) by (intro ext entries_cong) fastforce+
  show "entries (field_says ci') (TheFields ci) = entries (field_says ci) (TheFields ci)"
    using says(2) valid(3) by (intro ext entries_cong) fastforce+
  show "entries (site_says ci') (TheAllocSites ci) = entries (site_says ci) (TheAllocSites ci)"
    using says(3) valid(4) by (intro ext entries_cong) fastforce+
  show "map_option (\<lambda>p. (m_id (method_cells ci' ! cell_of p), method_says ci' p)) (main_method ci) =
      map_option (\<lambda>p. (m_id (method_cells ci ! cell_of p), method_says ci p)) (main_method ci)"
    using says(1) valid(5) assms(2) by (cases "main_method ci") (simp_all add: cells_kept_def)
qed

lemma entries_put [simp]: "entries f (om_put i (Some p) m) = (entries f m)(i \<mapsto> f p)"
  by (simp add: entries_def fun_eq_iff)

text \<open>Validity after a step that keeps cells: only what is new has to be looked at.\<close>

lemma tables_valid_kept:
  assumes "tables_valid ci" and "cells_kept ci ci'"
    and "\<And>i po. map_of (TheClasses ci') i = Some po \<Longrightarrow> map_of (TheClasses ci) i = Some po \<or>
      (points (length (class_cells ci')) po \<and> m_id (class_cells ci' ! the po) = i)"
    and "\<And>i po. map_of (TheMethods ci') i = Some po \<Longrightarrow> map_of (TheMethods ci) i = Some po \<or>
      (points (length (method_cells ci')) (map_option cell_of po) \<and> m_id (method_cells ci' ! cell_of (the po)) = i)"
    and "\<And>i po. map_of (TheFields ci') i = Some po \<Longrightarrow> map_of (TheFields ci) i = Some po \<or> points (length (field_cells ci')) po"
    and "\<And>i po. map_of (TheAllocSites ci') i = Some po \<Longrightarrow> map_of (TheAllocSites ci) i = Some po \<or> points (length (site_cells ci')) po"
    and "\<And>m. main_method ci' = Some m \<Longrightarrow> main_method ci = Some m \<or> cell_of m < length (method_cells ci')"
    and "\<And>m. m < length (method_cells ci') \<Longrightarrow> m < length (method_cells ci) \<or> points (length (class_cells ci')) (m_class_m (method_cells ci' ! m))"
    and "\<And>f. f < length (field_cells ci') \<Longrightarrow> f < length (field_cells ci) \<or> points (length (class_cells ci')) (m_class_f (field_cells ci' ! f))"
    and "\<And>a. a < length (site_cells ci') \<Longrightarrow> a < length (site_cells ci) \<or> points (length (method_cells ci')) (map_option cell_of (m_method_s (site_cells ci' ! a)))"
  shows "tables_valid ci'"
  unfolding tables_valid_def
proof (intro conjI allI impI)
  note valid = tables_validD [OF assms(1)]
  have more: "p < length (class_cells ci) \<Longrightarrow> p < length (class_cells ci')" "m < length (method_cells ci) \<Longrightarrow> m < length (method_cells ci')"
    "f < length (field_cells ci) \<Longrightarrow> f < length (field_cells ci')" "a < length (site_cells ci) \<Longrightarrow> a < length (site_cells ci')" for p m f a
    using assms(2) by (simp_all add: cells_kept_def)
  have same: "p < length (class_cells ci) \<Longrightarrow> m_id (class_cells ci' ! p) = m_id (class_cells ci ! p)"
    "m < length (method_cells ci) \<Longrightarrow> m_id (method_cells ci' ! m) = m_id (method_cells ci ! m)"
    "m < length (method_cells ci) \<Longrightarrow> m_class_m (method_cells ci' ! m) = m_class_m (method_cells ci ! m)"
    "f < length (field_cells ci) \<Longrightarrow> field_cells ci' ! f = field_cells ci ! f"
    "a < length (site_cells ci) \<Longrightarrow> site_cells ci' ! a = site_cells ci ! a" for p m f a
    using assms(2) by (simp_all add: cells_kept_def)
  have cls: "points (length (class_cells ci')) po \<and> m_id (class_cells ci' ! the po) = i" if "map_of (TheClasses ci') i = Some po" for i po
    using assms(3) [OF that] valid(1) [of i po] more(1) same(1) by (auto simp: points_def)
  have mth: "points (length (method_cells ci')) (map_option cell_of po) \<and> m_id (method_cells ci' ! cell_of (the po)) = i"
    if "map_of (TheMethods ci') i = Some po" for i po
    using assms(4) [OF that] valid(2) [of i po] more(2) same(2) by (auto simp: points_def)
  show "points (length (class_cells ci')) po" "m_id (class_cells ci' ! the po) = i" if "map_of (TheClasses ci') i = Some po" for i po
    using cls [OF that] by simp_all
  show "points (length (method_cells ci')) (map_option cell_of po)" "m_id (method_cells ci' ! cell_of (the po)) = i"
    if "map_of (TheMethods ci') i = Some po" for i po
    using mth [OF that] by simp_all
  show "points (length (field_cells ci')) po" if "map_of (TheFields ci') i = Some po" for i po
    using assms(5) [OF that] valid(3) [of i po] more(3) by (auto simp: points_def)
  show "points (length (site_cells ci')) po" if "map_of (TheAllocSites ci') i = Some po" for i po
    using assms(6) [OF that] valid(4) [of i po] more(4) by (auto simp: points_def)
  show "cell_of m < length (method_cells ci')" if "main_method ci' = Some m" for m
    using assms(7) [OF that] valid(5) [of m] more(2) by blast
  show "points (length (class_cells ci')) (m_class_m (method_cells ci' ! m))" if "m < length (method_cells ci')" for m
    using assms(8) [OF that]
  proof
    assume "m < length (method_cells ci)"
    then show ?thesis using valid(6) [of m] more(1) same(3) by (auto simp: points_def)
  qed
  show "points (length (class_cells ci')) (m_class_f (field_cells ci' ! f))" if "f < length (field_cells ci')" for f
    using assms(9) [OF that]
  proof
    assume "f < length (field_cells ci)"
    then show ?thesis using valid(7) [of f] more(1) same(4) by (auto simp: points_def)
  qed
  show "points (length (method_cells ci')) (map_option cell_of (m_method_s (site_cells ci' ! a)))" if "a < length (site_cells ci')" for a
    using assms(10) [OF that]
  proof
    assume "a < length (site_cells ci)"
    then show ?thesis using valid(8) [of a] more(2) same(5) by (auto simp: points_def)
  qed
qed

lemma entries_class_kept:
  assumes "tables_valid ci" and "\<And>p. p < length (class_cells ci) \<Longrightarrow> class_says ci' p = class_says ci p"
  shows "entries (class_says ci') (TheClasses ci) = entries (class_says ci) (TheClasses ci)"
  using assms(2) tables_validD(1) [OF assms(1)] by (intro ext entries_cong) fastforce+

text \<open>One step: the reader faults on a NULL pointer exactly when the declaration has no meaning.\<close>

definition the_main :: "string \<Rightarrow> string \<Rightarrow> ClassInfo \<Rightarrow> (string \<times> string) option" where
  "the_main mc mf ci = (if main_flag ci then Some (mc, mf) else None)"

definition step_follows :: "string \<Rightarrow> string \<Rightarrow> ClassInfo \<Rightarrow> names_entry \<Rightarrow> bool" where
  "step_follows mc mf ci d \<longleftrightarrow>
     (case enter_declaration mc mf ci d of
        Inl e \<Rightarrow> e = Null_Pointer \<and> declare_name (the_main mc mf ci) (names_in ci) d = None
      | Inr ci' \<Rightarrow> tables_valid ci' \<and> main_flag ci' = main_flag ci \<and>
          declare_name (the_main mc mf ci) (names_in ci) d = Some (names_in ci'))"

lemma enter_class_follows:
  assumes "tables_valid ci"
  shows "step_follows mc mf ci (Class_Decl b i n s)"
proof (cases "map_of (TheClasses ci) i")
  case None
  define k where "k = (case s of None \<Rightarrow> 0 | Some k \<Rightarrow> k)"
  define ci' where "ci' = ci\<lparr>class_cells := class_cells ci @ [(Class_new i n b)\<lparr>m_superclassId := k\<rparr>],
      TheClasses := om_put i (Some (length (class_cells ci))) (TheClasses ci)\<rparr>"
  have run: "enter_declaration mc mf ci (Class_Decl b i n s) = Inr ci'"
    using None by (cases s) (simp_all add: enter_declaration_def ci'_def k_def upd_class_def deref_valid setSuperclassId_def Class_new_def)
  have kept: "cells_kept ci ci'" by (simp add: cells_kept_def ci'_def nth_append)
  have "classes_of (names_in ci') = (classes_of (names_in ci))(i \<mapsto> (n, b, k))"
    using entries_class_kept [OF assms, of ci'] by (simp add: names_in_def ci'_def class_says_def nth_append Class_new_def)
  moreover have "classes_of (names_in ci) i = None" using None by (simp add: names_in_def entries_def)
  ultimately have "declare_name (the_main mc mf ci) (names_in ci) (Class_Decl b i n s) = Some (names_in ci')"
    using kept_entries [OF assms kept] by (simp add: names_in_def k_def) (simp add: ci'_def)
  moreover have "tables_valid ci'"
    by (rule tables_valid_kept [OF assms kept]) (auto simp: ci'_def nth_append Class_new_def split: if_splits)
  ultimately show ?thesis using run by (simp add: step_follows_def ci'_def)
next
  case (Some po)
  then obtain p where p: "po = Some p" "p < length (class_cells ci)" "m_id (class_cells ci ! p) = i"
    using tables_validD(1) [OF assms] by blast
  define k where "k = (case s of None \<Rightarrow> m_superclassId (class_cells ci ! p) | Some k \<Rightarrow> k)"
  define ci' where "ci' = ci\<lparr>class_cells := (class_cells ci)[p := setSuperclassId k (class_cells ci ! p)]\<rparr>"
  have "enter_declaration mc mf ci (Class_Decl b i n s) = Inr ci'"
    using Some p by (cases s) (simp_all add: enter_declaration_def ci'_def k_def upd_class_def deref_valid setSuperclassId_def)
  moreover have kept: "cells_kept ci ci'" using p(2) by (auto simp: cells_kept_def ci'_def nth_list_update)
  moreover have "classes_of (names_in ci') j =
      ((classes_of (names_in ci))(i \<mapsto> (m_name (class_cells ci ! p), m_is_interface (class_cells ci ! p), k))) j" for j
  proof (cases "j \<noteq> i \<and> map_of (TheClasses ci) j \<noteq> None")
    case True
    then obtain q where "map_of (TheClasses ci) j = Some (Some q)" "q < length (class_cells ci)" "m_id (class_cells ci ! q) = j"
      using tables_validD(1) [OF assms, of j] by blast
    moreover then have "q \<noteq> p" using True p(3) by blast
    ultimately show ?thesis using True by (simp add: names_in_def entries_def class_says_def ci'_def)
  next
    case False
    then show ?thesis
      using p Some by (auto simp: names_in_def entries_def class_says_def ci'_def setSuperclassId_def)
  qed
  then have "classes_of (names_in ci') = (classes_of (names_in ci))(i \<mapsto> (m_name (class_cells ci ! p), m_is_interface (class_cells ci ! p), k))" ..
  moreover have "classes_of (names_in ci) i = Some (class_says ci p)" using Some p by (simp add: names_in_def entries_def)
  moreover have "tables_valid ci'"
    by (rule tables_valid_kept [OF assms kept]) (simp_all add: ci'_def)
  ultimately show ?thesis using kept_entries [OF assms kept] 
    by (simp add: step_follows_def names_in_def k_def class_says_def Let_def) (simp add: ci'_def)
qed

lemma enter_method_follows:
  assumes "tables_valid ci"
  shows "step_follows mc mf ci (Method_Decl i c cn n de f)"
proof (cases "map_of (TheClasses ci) c")
  case None
  then have "classes_of (names_in ci) c = None" using class_unknown [OF assms, of c] by simp
  then show ?thesis using None by (simp add: step_follows_def enter_declaration_def om_index_absent upd_class_def Let_def)
next
  case (Some po)
  then obtain p where p: "po = Some p" "p < length (class_cells ci)" "m_id (class_cells ci ! p) = c"
    using tables_validD(1) [OF assms] by blast
  let ?m = "Method_Ptr (length (method_cells ci))"
  define ci' where "ci' = ci\<lparr>class_cells := (class_cells ci)[p := addMethod i ?m (class_cells ci ! p)],
      method_cells := method_cells ci @ [Method_new i (Some p) n de f],
      main_method := (if main_flag ci \<and> cn = mc \<and> n = mf then Some ?m else main_method ci),
      TheMethods := om_put i (Some ?m) (TheMethods ci)\<rparr>"
  have run: "enter_declaration mc mf ci (Method_Decl i c cn n de f) = Inr ci'"
    using Some p by (simp add: enter_declaration_def om_index_present upd_class_def deref_valid Let_def ci'_def)
  have kept: "cells_kept ci ci'" using p(2) by (auto simp: cells_kept_def ci'_def nth_list_update nth_append)
  have says: "method_says ci' ?m = (c, n, de, f)" "m_id (method_cells ci' ! length (method_cells ci)) = i"
    using p by (simp_all add: method_says_def class_id_at_def ci'_def Method_new_def)
  have cls: "entries (class_says ci') (TheClasses ci) = entries (class_says ci) (TheClasses ci)"
    using p(2) by (intro entries_class_kept [OF assms]) (auto simp: class_says_def ci'_def nth_list_update Let_def addMethod_def)
  have known: "classes_of (names_in ci) c \<noteq> None" using Some class_unknown [OF assms, of c] by simp
  have "tables_valid ci'"
    by (rule tables_valid_kept [OF assms kept])
      (use p(2) in \<open>auto simp: ci'_def nth_append Method_new_def split: if_splits\<close>)
  moreover have "declare_name (the_main mc mf ci) (names_in ci) (Method_Decl i c cn n de f) = Some (names_in ci')"
    using known kept_entries [OF assms kept] cls says
    by (simp add: names_in_def) (auto simp: ci'_def the_main_def)
  moreover have "main_flag ci' = main_flag ci" by (simp add: ci'_def)
  ultimately show ?thesis using run by (simp add: step_follows_def)
qed

lemma enter_field_follows:
  assumes "tables_valid ci"
  shows "step_follows mc mf ci (Field_Decl s i n c cn de)"
proof (cases "map_of (TheClasses ci) c")
  case None
  then have "classes_of (names_in ci) c = None" using class_unknown [OF assms, of c] by simp
  then show ?thesis using None by (simp add: step_follows_def enter_declaration_def om_index_absent upd_class_def Let_def)
next
  case (Some po)
  then obtain p where p: "po = Some p" "p < length (class_cells ci)" "m_id (class_cells ci ! p) = c"
    using tables_validD(1) [OF assms] by blast
  let ?f = "length (field_cells ci)"
  define ci' where "ci' = ci\<lparr>class_cells := (class_cells ci)[p := addField i ?f (class_cells ci ! p)],
      field_cells := field_cells ci @ [Field_new i (Some p) n de s], TheFields := om_put i (Some ?f) (TheFields ci)\<rparr>"
  have run: "enter_declaration mc mf ci (Field_Decl s i n c cn de) = Inr ci'"
    using Some p by (simp add: enter_declaration_def om_index_present upd_class_def deref_valid Let_def ci'_def)
  have kept: "cells_kept ci ci'" using p(2) by (auto simp: cells_kept_def ci'_def nth_list_update nth_append)
  have says: "field_says ci' ?f = (s, c, n, de)"
    using p by (simp add: field_says_def class_id_at_def ci'_def Field_new_def)
  have cls: "entries (class_says ci') (TheClasses ci) = entries (class_says ci) (TheClasses ci)"
    using p(2) by (intro entries_class_kept [OF assms]) (auto simp: class_says_def ci'_def nth_list_update Let_def addField_def)
  have known: "classes_of (names_in ci) c \<noteq> None" using Some class_unknown [OF assms, of c] by simp
  have "tables_valid ci'"
    by (rule tables_valid_kept [OF assms kept])
      (use p(2) in \<open>auto simp: ci'_def nth_append Field_new_def split: if_splits\<close>)
  moreover have "declare_name (the_main mc mf ci) (names_in ci) (Field_Decl s i n c cn de) = Some (names_in ci')"
    using known kept_entries [OF assms kept] cls says
    by (simp add: names_in_def) (auto simp: ci'_def the_main_def)
  moreover have "main_flag ci' = main_flag ci" by (simp add: ci'_def)
  ultimately show ?thesis using run by (simp add: step_follows_def)
qed

lemma enter_site_follows:
  assumes "tables_valid ci"
  shows "step_follows mc mf ci (Site_Decl m c i t k)"
proof (cases "map_of (TheMethods ci) m")
  case None
  then have "methods_of (names_in ci) m = None" using method_unknown [OF assms, of m] by simp
  then show ?thesis using None by (simp add: step_follows_def enter_declaration_def om_index_absent upd_method_def Let_def)
next
  case (Some po)
  then obtain p where p: "po = Some (Method_Ptr p)" "p < length (method_cells ci)" "m_id (method_cells ci ! p) = m"
    using tables_validD(2) [OF assms] by blast
  let ?a = "length (site_cells ci)"
  define ci' where "ci' = ci\<lparr>method_cells := (method_cells ci)[p := addAllocSite i ?a (method_cells ci ! p)],
      site_cells := site_cells ci @ [AllocSite_new i (Some (Method_Ptr p)) (show_dec i) t k],
      TheAllocSites := om_put i (Some ?a) (TheAllocSites ci)\<rparr>"
  have run: "enter_declaration mc mf ci (Site_Decl m c i t k) = Inr ci'"
    using Some p by (simp add: enter_declaration_def om_index_present upd_method_def deref_valid Let_def ci'_def)
  have kept: "cells_kept ci ci'" using p(2) by (auto simp: cells_kept_def ci'_def nth_list_update nth_append addAllocSite_def)
  have says: "site_says ci' ?a = (m, t, k)"
    using p by (simp add: site_says_def ci'_def AllocSite_new_def)
  have cls: "entries (class_says ci') (TheClasses ci) = entries (class_says ci) (TheClasses ci)"
    by (intro entries_class_kept [OF assms]) (simp add: class_says_def ci'_def)
  have known: "methods_of (names_in ci) m \<noteq> None" using Some method_unknown [OF assms, of m] by simp
  have "tables_valid ci'"
    by (rule tables_valid_kept [OF assms kept])
      (use p(2) in \<open>auto simp: ci'_def nth_append AllocSite_new_def split: if_splits\<close>)
  moreover have "declare_name (the_main mc mf ci) (names_in ci) (Site_Decl m c i t k) = Some (names_in ci')"
    using known kept_entries [OF assms kept] cls says
    by (simp add: names_in_def) (auto simp: ci'_def the_main_def)
  moreover have "main_flag ci' = main_flag ci" by (simp add: ci'_def)
  ultimately show ?thesis using run by (simp add: step_follows_def)
qed

lemma enter_follows: "tables_valid ci \<Longrightarrow> step_follows mc mf ci d"
  by (cases d) (simp_all add: enter_class_follows enter_method_follows enter_field_follows enter_site_follows,
    simp add: step_follows_def enter_declaration_def)

lemma enter_all_follow:
  "tables_valid ci \<Longrightarrow> (case foldR (enter_declaration mc mf) ds ci of
      Inl e \<Rightarrow> e = Null_Pointer \<and> declare_all (the_main mc mf ci) (names_in ci) ds = None
    | Inr ci' \<Rightarrow> tables_valid ci' \<and> declare_all (the_main mc mf ci) (names_in ci) ds = Some (names_in ci'))"
proof (induction ds arbitrary: ci)
  case (Cons d ds)
  note step = enter_follows [OF Cons.prems, of mc mf d, unfolded step_follows_def]
  show ?case
  proof (cases "enter_declaration mc mf ci d")
    case (Inl e) then show ?thesis using step by simp
  next
    case (Inr ci')
    then have "the_main mc mf ci' = the_main mc mf ci" using step by (simp add: the_main_def)
    then show ?thesis using Inr step Cons.IH [of ci'] by (simp split: sum.splits)
  qed
qed simp

section \<open>Property\<close>

text \<open>
  C11: A names file of version 1 is read as written. On printed declarations, with or without a
  main method to look for, the reader stops (on a NULL pointer) exactly when a method or field names a
  class, or a site a method, that no earlier line declares. Otherwise classes, methods, fields, sites and
  the main method are those of the meaning: a class keeps its first name and its last super class, and
  of everything else the last declaration counts.
\<close>
theorem names_file_read_as_written:
  assumes "\<forall>d \<in> set ds. declaration_fits d \<and> printable (print_declaration d)"
  shows "(case read_names_file (Some (names_text ds)) mc mf ClassInfo_init of
      Inl e \<Rightarrow> e = Null_Pointer \<and> declare_all (Some (mc, mf)) no_names ds = None
    | Inr ci \<Rightarrow> declare_all (Some (mc, mf)) no_names ds = Some (names_in ci)) \<and>
    (case read_names_file_no_mainfunc (Some (names_text ds)) ClassInfo_init of
      Inl e \<Rightarrow> e = Null_Pointer \<and> declare_all None no_names ds = None
    | Inr ci \<Rightarrow> declare_all None no_names ds = Some (names_in ci))"
proof -
  have flags: "main_flag (set_main_flag ClassInfo_init)" "\<not> main_flag (unset_main_flag ClassInfo_init)"
    by (simp_all add: set_main_flag_def unset_main_flag_def)
  show ?thesis
    using enter_all_follow [OF tables_valid_start(1), of mc mf ds] enter_all_follow [OF tables_valid_start(2), of "''--NOMAIN--''" "''--NOMAIN--''" ds]
    by (simp add: read_names_file_def read_names_file_no_mainfunc_def read_names_text [OF assms] names_in_start the_main_def flags split: sum.splits)
qed

text \<open>An interface that becomes a sub class, a method that is the main one, a site, and a field declared twice.\<close>

definition demo_declarations :: "names_entry list" where
  "demo_declarations = [Class_Decl True 1 ''A'' None, Class_Decl False 1 ''X'' (Some 4), Method_Decl 5 1 ''A'' ''run'' ''()V'' ''S'',
     Site_Decl 5 1 9 ''B'' 0, Field_Decl False 7 ''f'' 1 ''A'' ''I'', Field_Decl True 7 ''g'' 1 ''A'' ''I'', End_Decl]"

lemma names_file_read_as_written_witness:
  "\<exists>ci. read_names_file (Some (names_text demo_declarations)) ''A'' ''run'' ClassInfo_init = Inr ci \<and>
     classes_of (names_in ci) 1 = Some (''A'', True, 4) \<and> main_of (names_in ci) = Some (5, 1, ''run'', ''()V'', ''S'') \<and>
     fields_of_names (names_in ci) 7 = Some (True, 1, ''g'', ''I'') \<and> sites_of (names_in ci) 9 = Some (5, ''B'', 0) \<and>
     sites_of (names_in ci) 5 = None"
proof -
  have "\<forall>d \<in> set demo_declarations. declaration_fits d" by (simp add: demo_declarations_def fits_def)
  moreover have "\<forall>d \<in> set demo_declarations. printable (print_declaration d)" by code_simp
  ultimately have ok: "\<forall>d \<in> set demo_declarations. declaration_fits d \<and> printable (print_declaration d)" by blast
  obtain ns where ns: "declare_all (Some (''A'', ''run'')) no_names demo_declarations = Some ns"
    "classes_of ns 1 = Some (''A'', True, 4)" "main_of ns = Some (5, 1, ''run'', ''()V'', ''S'')"
    "fields_of_names ns 7 = Some (True, 1, ''g'', ''I'')" "sites_of ns 9 = Some (5, ''B'', 0)" "sites_of ns 5 = None"
    by (simp add: demo_declarations_def no_names_def)
  show ?thesis
    using names_file_read_as_written [OF ok, of "''A''" "''run''"] ns by (auto split: sum.splits)
qed


end
