(* ===== verification/Heap_Model.thy ===== *)
theory Heap_Model
  imports Class_Info
begin

text \<open>
  The simulated heap (\<open>simulator/heap.hpp\<close>, \<open>heap.cpp\<close>): objects, their fields and edges, the
  death bookkeeping of an object, and \<open>HeapState\<close> with the object map, the live set, the live
  size and the death counters. Objects are cells of a store and are never freed; edges are cells
  that \<open>updateField\<close> frees, so a freed edge is an empty cell. The pointer from an object back to
  the heap and the text written under \<open>debug\<close> and \<open>m_obj_debug_flag\<close> are left out.
\<close>

section \<open>Enumerations\<close>

datatype Reason = STACK | HEAP | GLOBAL | END_OF_PROGRAM_REASON | UNKNOWN_REASON

datatype LastEvent =
    NEWOBJECT
  | ROOT
  | DECRC
  | UPDATE_UNKNOWN
  | UPDATE_AWAY_TO_NULL
  | UPDATE_AWAY_TO_VALID
  | OBJECT_DEATH_AFTER_ROOT
  | OBJECT_DEATH_AFTER_UPDATE
  | OBJECT_DEATH_AFTER_ROOT_DECRC
  | OBJECT_DEATH_AFTER_UPDATE_DECRC
  | OBJECT_DEATH_AFTER_UNKNOWN
  | END_OF_PROGRAM_EVENT
  | UNKNOWN_EVENT

text \<open>Why a reference count went down, and the states of an edge: the code passes a state to
  \<open>makeDead_nosave\<close>, which ignores it, and uses no other value of the two types.\<close>

datatype DecRCReason = UPDATE_DEC | DEC_TO_ZERO | END_OF_PROGRAM_DEC | UNKNOWN_DEC_EVENT

datatype EdgeState =
    NONE
  | LIVE
  | DEAD_BY_UPDATE
  | DEAD_BY_OBJECT_DEATH
  | DEAD_BY_PROGRAM_END
  | DEAD_BY_OBJECT_DEATH_NOT_SAVED
  | DEAD_BY_PROGRAM_END_NOT_SAVED

datatype KeyType = DAG | DAGKEY | CYCLE | CYCLEKEY | UNKNOWN_KEYTYPE

datatype ObjectRefType = SINGLY_OWNED | MULTI_OWNED | UNKNOWN_REFTYPE

text \<open>\<open>boost::logic::tribool\<close>: in a condition only true counts as true.\<close>

datatype tribool = Tri_True | Tri_False | Indeterminate

text \<open>The order for a priority queue of identifiers with a number: the larger number comes first.\<close>

definition compclass :: "u32 \<times> u32 \<Rightarrow> u32 \<times> u32 \<Rightarrow> bool" where
  "compclass lhs rhs \<longleftrightarrow> snd lhs > snd rhs"

text \<open>It is a strict weak order, as \<open>std\<close> containers and algorithms require of a comparison.\<close>

lemma compclass_strict_weak_order:
  "\<not> compclass x x"
  "compclass x y \<Longrightarrow> compclass y z \<Longrightarrow> compclass x z"
  "compclass x z \<Longrightarrow> compclass x y \<or> compclass y z"
  by (auto simp: compclass_def)

fun keytype2str :: "KeyType \<Rightarrow> string" where
  "keytype2str DAG = ''DAG''"
| "keytype2str DAGKEY = ''DAGKEY''"
| "keytype2str CYCLE = ''CYCLE''"
| "keytype2str CYCLEKEY = ''CYCLEKEY''"
| "keytype2str UNKNOWN_KEYTYPE = ''UNKNOWN_KEYTYPE''"

fun lastevent2str :: "LastEvent \<Rightarrow> string" where
  "lastevent2str NEWOBJECT = ''NEWOBJECT''"
| "lastevent2str ROOT = ''ROOT''"
| "lastevent2str DECRC = ''DECRC''"
| "lastevent2str UPDATE_UNKNOWN = ''UPDATE_UNKNOWN''"
| "lastevent2str UPDATE_AWAY_TO_NULL = ''UPDATE_AWAY_TO_NULL''"
| "lastevent2str UPDATE_AWAY_TO_VALID = ''UPDATE_AWAY_TO_VALID''"
| "lastevent2str OBJECT_DEATH_AFTER_ROOT = ''OBJECT_DEATH_AFTER_ROOT''"
| "lastevent2str OBJECT_DEATH_AFTER_UPDATE = ''OBJECT_DEATH_AFTER_UPDATE''"
| "lastevent2str OBJECT_DEATH_AFTER_ROOT_DECRC = ''OBJECT_DEATH_AFTER_ROOT_DECRC''"
| "lastevent2str OBJECT_DEATH_AFTER_UPDATE_DECRC = ''OBJECT_DEATH_AFTER_UPDATE_DECRC''"
| "lastevent2str OBJECT_DEATH_AFTER_UNKNOWN = ''OBJECT_DEATH_AFTER_UNKNOWN''"
| "lastevent2str END_OF_PROGRAM_EVENT = ''END_OF_PROGRAM_EVENT''"
| "lastevent2str UNKNOWN_EVENT = ''UNKNOWN_EVENT''"

definition is_object_death :: "LastEvent \<Rightarrow> bool" where
  "is_object_death le =
     (le = OBJECT_DEATH_AFTER_ROOT \<or> le = OBJECT_DEATH_AFTER_UPDATE \<or>
      le = OBJECT_DEATH_AFTER_ROOT_DECRC \<or> le = OBJECT_DEATH_AFTER_UPDATE_DECRC \<or>
      le = OBJECT_DEATH_AFTER_UNKNOWN)"

section \<open>Objects and edges\<close>

type_synonym obj_ptr = nat
type_synonym edge_ptr = nat
type_synonym thread_ptr = nat

text \<open>The fields of \<open>Object\<close>, in the order of the class.\<close>

record Object =
  m_id_o :: u32
  m_size :: u32
  m_kind :: char
  m_type :: string
  m_site :: "site_ptr option"
  m_allocsite_name :: string
  m_nonjavalib_allocsite_name :: string
  m_elements :: u32
  m_thread :: "thread_ptr option"
  m_createTime :: u32
  m_deathTime :: u32
  m_createTime_alloc :: u32
  m_deathTime_alloc :: u32
  m_fields :: "(u32, edge_ptr option) omap"
  m_newFlag :: bool
  m_deadFlag :: bool
  m_last_timestamp :: u32
  m_pointed_by_heap :: bool
  m_last_update_null :: tribool
  m_last_update_away_from_static :: bool
  m_diedByHeap :: bool
  m_diedByStack :: bool
  m_diedAtEnd :: bool
  m_diedByGlobal :: bool
  m_diedFlagSet :: bool
  m_reason :: Reason
  m_last_action_time :: u32
  m_last_action_method :: "method_ptr option"
  m_methodDeathSite :: "method_ptr option"
  m_methodDeathSite_l2 :: "method_ptr option"
  m_last_event :: LastEvent
  m_last_object :: "obj_ptr option"
  m_deathsite_name :: string
  m_deathsite_name_l2 :: string
  m_nonjavalib_death_context :: string
  m_nonjavalib_last_action_context :: string
  m_alloc_context :: "u32 list"
  m_death_context :: "u32 list"
  m_death_root :: "obj_ptr option"
  m_key_type :: KeyType
  m_reftarget_type :: ObjectRefType

record Edge =
  m_source :: "obj_ptr option"
  m_sourceField :: u32
  m_target :: "obj_ptr option"
  m_createTime_e :: u32
  m_endTime :: u32
  m_died_with_source :: tribool
  m_output_done :: bool

definition UINT_MAX :: u32 where "UINT_MAX = - 1"

definition ULONG_MAX :: u64 where "ULONG_MAX = - 1"

definition Edge_new :: "obj_ptr option \<Rightarrow> u32 \<Rightarrow> obj_ptr option \<Rightarrow> u32 \<Rightarrow> Edge" where
  "Edge_new source field_id target cur_time =
     \<lparr>m_source = source, m_sourceField = field_id, m_target = target, m_createTime_e = cur_time,
      m_endTime = 0, m_died_with_source = Indeterminate, m_output_done = False\<rparr>"

definition setEndTime :: "u32 \<Rightarrow> Edge \<Rightarrow> Edge" where
  "setEndTime e d = d\<lparr>m_endTime := e\<rparr>"

text \<open>The name of the allocation site: the name of its method, or a constant.\<close>

definition allocsite_name :: "ClassInfo \<Rightarrow> site_ptr option \<Rightarrow> string result" where
  "allocsite_name ci site =
     (case site of
        None \<Rightarrow> Inr ''NONAME''
      | Some s \<Rightarrow>
          bindR (deref (site_cells ci) s) (\<lambda>a.
          case m_method_s a of None \<Rightarrow> Inr ''NONAME'' | Some m \<Rightarrow> Method_getName ci (Some m)))"

text \<open>The constructor; \<open>alloc_time\<close> is what it reads from the heap.\<close>

definition Object_new ::
  "u32 \<Rightarrow> u32 \<Rightarrow> char \<Rightarrow> string \<Rightarrow> site_ptr option \<Rightarrow> string \<Rightarrow> string \<Rightarrow> u32 \<Rightarrow> thread_ptr option \<Rightarrow>
   u32 \<Rightarrow> bool \<Rightarrow> u32 \<Rightarrow> Object" where
  "Object_new oid sz kind type site site_name nonjava_site_name els thread create_time new_flag alloc_time =
     \<lparr>m_id_o = oid, m_size = sz, m_kind = kind, m_type = type, m_site = site,
      m_allocsite_name = site_name, m_nonjavalib_allocsite_name = nonjava_site_name,
      m_elements = els, m_thread = thread, m_createTime = create_time, m_deathTime = UINT_MAX,
      m_createTime_alloc = alloc_time, m_deathTime_alloc = UINT_MAX, m_fields = [],
      m_newFlag = new_flag, m_deadFlag = False, m_last_timestamp = 0, m_pointed_by_heap = False,
      m_last_update_null = Indeterminate, m_last_update_away_from_static = False,
      m_diedByHeap = False, m_diedByStack = False, m_diedAtEnd = False, m_diedByGlobal = False,
      m_diedFlagSet = False, m_reason = UNKNOWN_REASON, m_last_action_time = 0,
      m_last_action_method = None, m_methodDeathSite = None, m_methodDeathSite_l2 = None,
      m_last_event = UNKNOWN_EVENT, m_last_object = None, m_deathsite_name = ''NONE'',
      m_deathsite_name_l2 = ''NONE'', m_nonjavalib_death_context = ''NONE'',
      m_nonjavalib_last_action_context = ''NONE'', m_alloc_context = [], m_death_context = [],
      m_death_root = None, m_key_type = UNKNOWN_KEYTYPE, m_reftarget_type = UNKNOWN_REFTYPE\<rparr>"

section \<open>Reading objects and edges\<close>

text \<open>The accessors of one member; proofs see through them.\<close>

definition Object_getId :: "Object \<Rightarrow> u32" where [simp]: "Object_getId = m_id_o"

definition Object_getSize :: "Object \<Rightarrow> u32" where [simp]: "Object_getSize = m_size"

definition Object_getType :: "Object \<Rightarrow> string" where [simp]: "Object_getType = m_type"

definition Object_getKind :: "Object \<Rightarrow> char" where [simp]: "Object_getKind = m_kind"

definition Object_getAllocSite :: "Object \<Rightarrow> site_ptr option" where [simp]: "Object_getAllocSite = m_site"

definition Object_getAllocSiteName :: "Object \<Rightarrow> string" where [simp]: "Object_getAllocSiteName = m_allocsite_name"

definition Object_getNonJavaLibAllocSiteName :: "Object \<Rightarrow> string" where [simp]: "Object_getNonJavaLibAllocSiteName = m_nonjavalib_allocsite_name"

definition Object_getThread :: "Object \<Rightarrow> thread_ptr option" where [simp]: "Object_getThread = m_thread"

definition Object_getCreateTime :: "Object \<Rightarrow> u32" where [simp]: "Object_getCreateTime = m_createTime"

definition Object_getDeathTime :: "Object \<Rightarrow> u32" where [simp]: "Object_getDeathTime = m_deathTime"

definition Object_getCreateTimeAlloc :: "Object \<Rightarrow> u32" where [simp]: "Object_getCreateTimeAlloc = m_createTime_alloc"

definition Object_getDeathTimeAlloc :: "Object \<Rightarrow> u32" where [simp]: "Object_getDeathTimeAlloc = m_deathTime_alloc"

definition Object_isDead :: "Object \<Rightarrow> bool" where [simp]: "Object_isDead = m_deadFlag"

definition Object_isNewedObject :: "Object \<Rightarrow> bool" where [simp]: "Object_isNewedObject = m_newFlag"

definition Object_wasPointedAtByHeap :: "Object \<Rightarrow> bool" where [simp]: "Object_wasPointedAtByHeap = m_pointed_by_heap"

definition Object_getDiedByStackFlag :: "Object \<Rightarrow> bool" where [simp]: "Object_getDiedByStackFlag = m_diedByStack"

definition Object_getDiedByHeapFlag :: "Object \<Rightarrow> bool" where [simp]: "Object_getDiedByHeapFlag = m_diedByHeap"

definition Object_getDiedByGlobalFlag :: "Object \<Rightarrow> bool" where [simp]: "Object_getDiedByGlobalFlag = m_diedByGlobal"

definition Object_getDiedAtEndFlag :: "Object \<Rightarrow> bool" where [simp]: "Object_getDiedAtEndFlag = m_diedAtEnd"

definition Object_isDiedFlagSet :: "Object \<Rightarrow> bool" where [simp]: "Object_isDiedFlagSet = m_diedFlagSet"

definition Object_getReason :: "Object \<Rightarrow> Reason" where [simp]: "Object_getReason = m_reason"

definition Object_getLastActionTime :: "Object \<Rightarrow> u32" where [simp]: "Object_getLastActionTime = m_last_action_time"

definition Object_getLastActionSite :: "Object \<Rightarrow> method_ptr option" where [simp]: "Object_getLastActionSite = m_last_action_method"

definition Object_getLastTimestamp :: "Object \<Rightarrow> u32" where [simp]: "Object_getLastTimestamp = m_last_timestamp"

definition Object_wasLastUpdateFromStatic :: "Object \<Rightarrow> bool" where [simp]: "Object_wasLastUpdateFromStatic = m_last_update_away_from_static"

definition Object_getDeathSite :: "Object \<Rightarrow> method_ptr option" where [simp]: "Object_getDeathSite = m_methodDeathSite"

definition Object_getL1DeathSite :: "Object \<Rightarrow> method_ptr option" where [simp]: "Object_getL1DeathSite = m_methodDeathSite"

definition Object_getL2DeathSite :: "Object \<Rightarrow> method_ptr option" where [simp]: "Object_getL2DeathSite = m_methodDeathSite_l2"

definition Object_getLastEvent :: "Object \<Rightarrow> LastEvent" where [simp]: "Object_getLastEvent = m_last_event"

definition Object_getLastObject :: "Object \<Rightarrow> obj_ptr option" where [simp]: "Object_getLastObject = m_last_object"

definition Object_getDeathRoot :: "Object \<Rightarrow> obj_ptr option" where [simp]: "Object_getDeathRoot = m_death_root"

definition Object_getKeyType :: "Object \<Rightarrow> KeyType" where [simp]: "Object_getKeyType = m_key_type"

definition Object_getRefTargetType :: "Object \<Rightarrow> ObjectRefType" where [simp]: "Object_getRefTargetType = m_reftarget_type"

definition Object_get_nonJavaLib_death_context :: "Object \<Rightarrow> string" where [simp]: "Object_get_nonJavaLib_death_context = m_nonjavalib_death_context"

definition Object_get_nonJavaLib_last_action_context :: "Object \<Rightarrow> string" where [simp]: "Object_get_nonJavaLib_last_action_context = m_nonjavalib_last_action_context"

definition Object_getAllocContextList :: "Object \<Rightarrow> u32 list" where [simp]: "Object_getAllocContextList = m_alloc_context"

definition Object_getFields :: "Object \<Rightarrow> (u32, edge_ptr option) omap" where [simp]: "Object_getFields = m_fields"

definition Edge_getSource :: "Edge \<Rightarrow> obj_ptr option" where [simp]: "Edge_getSource = m_source"

definition Edge_getTarget :: "Edge \<Rightarrow> obj_ptr option" where [simp]: "Edge_getTarget = m_target"

definition Edge_getSourceField :: "Edge \<Rightarrow> u32" where [simp]: "Edge_getSourceField = m_sourceField"

definition Edge_getCreateTime :: "Edge \<Rightarrow> u32" where [simp]: "Edge_getCreateTime = m_createTime_e"

definition Edge_getEndTime :: "Edge \<Rightarrow> u32" where [simp]: "Edge_getEndTime = m_endTime"

definition Edge_getOutputFlag :: "Edge \<Rightarrow> bool" where [simp]: "Edge_getOutputFlag = m_output_done"

section \<open>Methods of Object\<close>

definition setDiedByStackFlag :: "Object \<Rightarrow> Object" where
  "setDiedByStackFlag obj = obj\<lparr>m_diedByStack := True, m_reason := STACK, m_diedFlagSet := True\<rparr>"

definition setDiedByHeapFlag :: "Object \<Rightarrow> Object" where
  "setDiedByHeapFlag obj = obj\<lparr>m_diedByHeap := True, m_reason := HEAP, m_diedFlagSet := True\<rparr>"

definition setDiedByGlobalFlag :: "Object \<Rightarrow> Object" where
  "setDiedByGlobalFlag obj = obj\<lparr>m_diedByGlobal := True, m_reason := GLOBAL, m_diedFlagSet := True\<rparr>"

definition setDiedAtEndFlag :: "Object \<Rightarrow> Object" where
  "setDiedAtEndFlag obj =
     (if m_diedFlagSet obj then obj
      else obj\<lparr>m_diedAtEnd := True, m_reason := END_OF_PROGRAM_REASON, m_diedFlagSet := True\<rparr>)"

definition unsetDiedByStackFlag :: "Object \<Rightarrow> Object" where
  "unsetDiedByStackFlag obj = obj\<lparr>m_diedByStack := False\<rparr>"

definition unsetDiedByHeapFlag :: "Object \<Rightarrow> Object" where
  "unsetDiedByHeapFlag obj = obj\<lparr>m_diedByHeap := False\<rparr>"

definition flagName :: "Object \<Rightarrow> string" where
  "flagName obj =
     (if m_diedByHeap obj then ''HEAP''
      else if m_diedByStack obj then ''STACK''
      else if m_diedAtEnd obj then ''END'' else ''OTHER'')"

definition setReason :: "Reason \<Rightarrow> u32 \<Rightarrow> Object \<Rightarrow> Object" where
  "setReason r t obj = obj\<lparr>m_reason := r, m_last_action_time := t\<rparr>"

definition setStackReason :: "u32 \<Rightarrow> Object \<Rightarrow> Object" where
  "setStackReason t = setReason STACK t"

definition setHeapReason :: "u32 \<Rightarrow> Object \<Rightarrow> Object" where
  "setHeapReason t = setReason HEAP t"

definition setLastTimestamp :: "u32 \<Rightarrow> Object \<Rightarrow> Object" where
  "setLastTimestamp new_ts obj = obj\<lparr>m_last_timestamp := new_ts\<rparr>"

definition setDeathTime :: "u32 \<Rightarrow> Object \<Rightarrow> Object" where
  "setDeathTime new_deathtime obj = obj\<lparr>m_deathTime := new_deathtime\<rparr>"

definition setLastEvent :: "LastEvent \<Rightarrow> Object \<Rightarrow> Object" where
  "setLastEvent le obj = obj\<lparr>m_last_event := le\<rparr>"

definition wasLastUpdateNull :: "Object \<Rightarrow> bool" where
  "wasLastUpdateNull obj \<longleftrightarrow> m_last_update_null obj = Tri_True"

definition isLive :: "u32 \<Rightarrow> Object \<Rightarrow> bool" where
  "isLive tm obj \<longleftrightarrow> tm \<le> m_deathTime obj"

definition setKeyTypeIfNotKnown :: "KeyType \<Rightarrow> Object \<Rightarrow> Object" where
  "setKeyTypeIfNotKnown newtype obj =
     (if m_key_type obj = UNKNOWN_KEYTYPE then obj\<lparr>m_key_type := newtype\<rparr> else obj)"

text \<open>The two levels of a death site; any other level fails an assertion.\<close>

definition setDeathSite :: "method_ptr option \<Rightarrow> nat \<Rightarrow> Object \<Rightarrow> Object result" where
  "setDeathSite meth level obj =
     (if level = 1 then Inr (obj\<lparr>m_methodDeathSite := meth\<rparr>)
      else if level = 2 then Inr (obj\<lparr>m_methodDeathSite_l2 := meth\<rparr>)
      else Inl Assertion_Failed)"

definition getDeathContextSiteName :: "nat \<Rightarrow> Object \<Rightarrow> string result" where
  "getDeathContextSiteName level obj =
     (if level = 1 then Inr (m_deathsite_name obj)
      else if level = 2 then Inr (m_deathsite_name_l2 obj)
      else Inl Assertion_Failed)"

definition setDeathContextSiteName :: "string \<Rightarrow> nat \<Rightarrow> Object \<Rightarrow> Object result" where
  "setDeathContextSiteName new_dsite level obj =
     (if level = 1 then Inr (obj\<lparr>m_deathsite_name := new_dsite\<rparr>)
      else if level = 2 then Inr (obj\<lparr>m_deathsite_name_l2 := new_dsite\<rparr>)
      else Inl Assertion_Failed)"

text \<open>As in the source, the setter of the death context list writes the allocation context list.\<close>

definition setAllocContextList :: "u32 list \<Rightarrow> Object \<Rightarrow> Object" where
  "setAllocContextList l obj = obj\<lparr>m_alloc_context := l\<rparr>"

definition setDeathContextList :: "u32 list \<Rightarrow> Object \<Rightarrow> Object" where
  "setDeathContextList l obj = obj\<lparr>m_alloc_context := l\<rparr>"

definition getDeathContextList :: "Object \<Rightarrow> u32 list" where
  "getDeathContextList obj = m_death_context obj"

text \<open>The setters of one member.\<close>

definition setNonJavaLibAllocSiteName :: "string \<Rightarrow> Object \<Rightarrow> Object" where
  "setNonJavaLibAllocSiteName newname obj = obj\<lparr>m_nonjavalib_allocsite_name := newname\<rparr>"

definition setNewedObject :: "bool \<Rightarrow> Object \<Rightarrow> Object" where
  "setNewedObject flag obj = obj\<lparr>m_newFlag := flag\<rparr>"

definition setPointedAtByHeap :: "Object \<Rightarrow> Object" where
  "setPointedAtByHeap obj = obj\<lparr>m_pointed_by_heap := True\<rparr>"

definition unsetDiedByGlobalFlag :: "Object \<Rightarrow> Object" where
  "unsetDiedByGlobalFlag obj = obj\<lparr>m_diedByGlobal := False\<rparr>"

definition unsetDiedAtEndFlag :: "Object \<Rightarrow> Object" where
  "unsetDiedAtEndFlag obj = obj\<lparr>m_diedAtEnd := False\<rparr>"

definition setLastActionSite :: "method_ptr option \<Rightarrow> Object \<Rightarrow> Object" where
  "setLastActionSite newsite obj = obj\<lparr>m_last_action_method := newsite\<rparr>"

definition setLastUpdateNull :: "Object \<Rightarrow> Object" where
  "setLastUpdateNull obj = obj\<lparr>m_last_update_null := Tri_True\<rparr>"

definition unsetLastUpdateNull :: "Object \<Rightarrow> Object" where
  "unsetLastUpdateNull obj = obj\<lparr>m_last_update_null := Tri_False\<rparr>"

definition setLastUpdateFromStatic :: "Object \<Rightarrow> Object" where
  "setLastUpdateFromStatic obj = obj\<lparr>m_last_update_away_from_static := True\<rparr>"

definition unsetLastUpdateFromStatic :: "Object \<Rightarrow> Object" where
  "unsetLastUpdateFromStatic obj = obj\<lparr>m_last_update_away_from_static := False\<rparr>"

definition setDeathSite_first :: "method_ptr option \<Rightarrow> Object \<Rightarrow> Object" where
  "setDeathSite_first meth obj = obj\<lparr>m_methodDeathSite := meth\<rparr>"

definition setLastObject :: "obj_ptr option \<Rightarrow> Object \<Rightarrow> Object" where
  "setLastObject p obj = obj\<lparr>m_last_object := p\<rparr>"

definition setDeathRoot :: "obj_ptr option \<Rightarrow> Object \<Rightarrow> Object" where
  "setDeathRoot newroot obj = obj\<lparr>m_death_root := newroot\<rparr>"

definition setKeyType :: "KeyType \<Rightarrow> Object \<Rightarrow> Object" where
  "setKeyType newtype obj = obj\<lparr>m_key_type := newtype\<rparr>"

definition setRefTargetType :: "ObjectRefType \<Rightarrow> Object \<Rightarrow> Object" where
  "setRefTargetType newtype obj = obj\<lparr>m_reftarget_type := newtype\<rparr>"

definition set_nonJavaLib_last_action_context :: "string \<Rightarrow> Object \<Rightarrow> Object" where
  "set_nonJavaLib_last_action_context new_dcontext obj = obj\<lparr>m_nonjavalib_last_action_context := new_dcontext\<rparr>"

definition setOutputFlag :: "bool \<Rightarrow> Edge \<Rightarrow> Edge" where
  "setOutputFlag flag d = d\<lparr>m_output_done := flag\<rparr>"

definition Object_makeDead :: "u32 \<Rightarrow> u32 \<Rightarrow> Reason \<Rightarrow> Object \<Rightarrow> Object" where
  "Object_makeDead death_time death_time_alloc newreason obj =
     (let obj = obj\<lparr>m_deathTime := death_time, m_deathTime_alloc := death_time_alloc\<rparr>;
          obj = setReason newreason death_time obj;
          obj = obj\<lparr>m_deadFlag := True\<rparr>
      in case newreason of
           STACK \<Rightarrow> setDiedByStackFlag obj
         | HEAP \<Rightarrow> setDiedByHeapFlag obj
         | GLOBAL \<Rightarrow> setDiedByGlobalFlag obj
         | END_OF_PROGRAM_REASON \<Rightarrow> setDiedAtEndFlag obj
         | UNKNOWN_REASON \<Rightarrow> setDiedByHeapFlag obj)"

text \<open>What \<open>info\<close> and \<open>info2\<close> print of an object.\<close>

definition Object_info :: "ClassInfo \<Rightarrow> Object \<Rightarrow> string result" where
  "Object_info ci obj =
     bindR (case m_site obj of None \<Rightarrow> Inr ''<NONE>'' | Some s \<Rightarrow> AllocSite_info ci (Some s)) (\<lambda>site.
     Inr (''OBJ 0x'' @ show_hex (m_id_o obj) @ ''('' @ m_type obj @ '' '' @ site @ '' @'' @
          show_dec (m_createTime obj) @ '')''))"

definition Object_info2 :: "ClassInfo \<Rightarrow> Object \<Rightarrow> string result" where
  "Object_info2 ci obj =
     bindR (Object_info ci obj) (\<lambda>s. Inr (s @ '' : '' @ show_dec (m_deathTime obj - m_createTime obj)))"

section \<open>The heap\<close>

text \<open>
  \<open>HeapState\<close>: the cells of objects and edges, then the members of the class. The heap of the
  program is a static object, so members without an initialiser start at 0.
\<close>

record HeapState =
  obj_cells :: "Object list"
  edge_cells :: "Edge option list"
  m_objects :: "(u32, obj_ptr) omap"
  m_liveset :: "obj_ptr set"
  m_liveSize :: u64
  m_maxLiveSize :: u64
  m_alloc_time :: u32
  m_totalDiedByHeap_ver2 :: u32
  m_totalDiedByStack_ver2 :: u32
  m_totalDiedByGlobal :: u32
  m_totalDiedAtEnd :: u32
  m_totalDiedUnknown_ver2 :: u32
  m_sizeDiedByHeap :: u32
  m_sizeDiedByGlobal :: u32
  m_sizeDiedByStack :: u32
  m_sizeDiedAtEnd :: u32
  m_totalUpdateNull :: u32
  m_totalUpdateNullHeap :: u32
  m_totalUpdateNullStack :: u32
  m_totalUpdateNull_size :: u32
  m_totalUpdateNullHeap_size :: u32
  m_totalUpdateNullStack_size :: u32
  m_diedByStackAfterHeap :: u32
  m_diedByStackOnly :: u32
  m_diedByStackAfterHeap_size :: u32
  m_diedByStackOnly_size :: u32
  m_no_dsites_count :: u32
  m_vm_refcount_0 :: u32
  m_vm_refcount_positive :: u32
  m_death_sites_map :: "(method_ptr, string set) omap"
  m_whereis :: "(obj_ptr, obj_ptr) omap"
  m_keyset :: "(obj_ptr, obj_ptr set) omap"
  m_obj_debug_flag :: bool

definition HeapState_init :: HeapState where
  "HeapState_init =
     \<lparr>obj_cells = [], edge_cells = [], m_objects = [], m_liveset = {}, m_liveSize = 0,
      m_maxLiveSize = 0, m_alloc_time = 0, m_totalDiedByHeap_ver2 = 0, m_totalDiedByStack_ver2 = 0,
      m_totalDiedByGlobal = 0, m_totalDiedAtEnd = 0, m_totalDiedUnknown_ver2 = 0,
      m_sizeDiedByHeap = 0, m_sizeDiedByGlobal = 0, m_sizeDiedByStack = 0, m_sizeDiedAtEnd = 0,
      m_totalUpdateNull = 0, m_totalUpdateNullHeap = 0, m_totalUpdateNullStack = 0,
      m_totalUpdateNull_size = 0, m_totalUpdateNullHeap_size = 0, m_totalUpdateNullStack_size = 0,
      m_diedByStackAfterHeap = 0, m_diedByStackOnly = 0, m_diedByStackAfterHeap_size = 0,
      m_diedByStackOnly_size = 0, m_no_dsites_count = 0, m_vm_refcount_0 = 0,
      m_vm_refcount_positive = 0, m_death_sites_map = [], m_whereis = [], m_keyset = [],
      m_obj_debug_flag = False\<rparr>"

text \<open>What the heap tells of its members.\<close>

definition HeapState_liveSize :: "HeapState \<Rightarrow> u64" where [simp]: "HeapState_liveSize = m_liveSize"

definition HeapState_maxLiveSize :: "HeapState \<Rightarrow> u64" where [simp]: "HeapState_maxLiveSize = m_maxLiveSize"

definition HeapState_getAllocTime :: "HeapState \<Rightarrow> u32" where [simp]: "HeapState_getAllocTime = m_alloc_time"

definition HeapState_getTotalDiedByStack2 :: "HeapState \<Rightarrow> u32" where [simp]: "HeapState_getTotalDiedByStack2 = m_totalDiedByStack_ver2"

definition HeapState_getTotalDiedByHeap2 :: "HeapState \<Rightarrow> u32" where [simp]: "HeapState_getTotalDiedByHeap2 = m_totalDiedByHeap_ver2"

definition HeapState_getTotalDiedByGlobal :: "HeapState \<Rightarrow> u32" where [simp]: "HeapState_getTotalDiedByGlobal = m_totalDiedByGlobal"

definition HeapState_getTotalDiedAtEnd :: "HeapState \<Rightarrow> u32" where [simp]: "HeapState_getTotalDiedAtEnd = m_totalDiedAtEnd"

definition HeapState_getTotalDiedUnknown :: "HeapState \<Rightarrow> u32" where [simp]: "HeapState_getTotalDiedUnknown = m_totalDiedUnknown_ver2"

definition HeapState_getSizeDiedByHeap :: "HeapState \<Rightarrow> u32" where [simp]: "HeapState_getSizeDiedByHeap = m_sizeDiedByHeap"

definition HeapState_getSizeDiedByStack :: "HeapState \<Rightarrow> u32" where [simp]: "HeapState_getSizeDiedByStack = m_sizeDiedByStack"

definition HeapState_getSizeDiedAtEnd :: "HeapState \<Rightarrow> u32" where [simp]: "HeapState_getSizeDiedAtEnd = m_sizeDiedAtEnd"

definition HeapState_getTotalLastUpdateNull :: "HeapState \<Rightarrow> u32" where [simp]: "HeapState_getTotalLastUpdateNull = m_totalUpdateNull"

definition HeapState_getTotalLastUpdateNullHeap :: "HeapState \<Rightarrow> u32" where [simp]: "HeapState_getTotalLastUpdateNullHeap = m_totalUpdateNullHeap"

definition HeapState_getTotalLastUpdateNullStack :: "HeapState \<Rightarrow> u32" where [simp]: "HeapState_getTotalLastUpdateNullStack = m_totalUpdateNullStack"

definition HeapState_getSizeLastUpdateNull :: "HeapState \<Rightarrow> u32" where [simp]: "HeapState_getSizeLastUpdateNull = m_totalUpdateNull_size"

definition HeapState_getSizeLastUpdateNullHeap :: "HeapState \<Rightarrow> u32" where [simp]: "HeapState_getSizeLastUpdateNullHeap = m_totalUpdateNullHeap_size"

definition HeapState_getSizeLastUpdateNullStack :: "HeapState \<Rightarrow> u32" where [simp]: "HeapState_getSizeLastUpdateNullStack = m_totalUpdateNullStack_size"

definition HeapState_getDiedByStackAfterHeap :: "HeapState \<Rightarrow> u32" where [simp]: "HeapState_getDiedByStackAfterHeap = m_diedByStackAfterHeap"

definition HeapState_getDiedByStackOnly :: "HeapState \<Rightarrow> u32" where [simp]: "HeapState_getDiedByStackOnly = m_diedByStackOnly"

definition HeapState_getSizeDiedByStackAfterHeap :: "HeapState \<Rightarrow> u32" where [simp]: "HeapState_getSizeDiedByStackAfterHeap = m_diedByStackAfterHeap_size"

definition HeapState_getSizeDiedByStackOnly :: "HeapState \<Rightarrow> u32" where [simp]: "HeapState_getSizeDiedByStackOnly = m_diedByStackOnly_size"

definition HeapState_getNumberNoDeathSites :: "HeapState \<Rightarrow> u32" where [simp]: "HeapState_getNumberNoDeathSites = m_no_dsites_count"

definition HeapState_getVMObjectsRefCountZero :: "HeapState \<Rightarrow> u32" where [simp]: "HeapState_getVMObjectsRefCountZero = m_vm_refcount_0"

definition HeapState_getVMObjectsRefCountPositive :: "HeapState \<Rightarrow> u32" where [simp]: "HeapState_getVMObjectsRefCountPositive = m_vm_refcount_positive"

definition HeapState_get_whereis :: "HeapState \<Rightarrow> (obj_ptr, obj_ptr) omap" where [simp]: "HeapState_get_whereis = m_whereis"

definition HeapState_get_keyset :: "HeapState \<Rightarrow> (obj_ptr, obj_ptr set) omap" where [simp]: "HeapState_get_keyset = m_keyset"

definition HeapState_size :: "HeapState \<Rightarrow> u32" where
  "HeapState_size h = of_nat (length (m_objects h))"

definition enableObjectDebug :: "HeapState \<Rightarrow> HeapState" where
  "enableObjectDebug h = h\<lparr>m_obj_debug_flag := True\<rparr>"

definition disableObjectDebug :: "HeapState \<Rightarrow> HeapState" where
  "disableObjectDebug h = h\<lparr>m_obj_debug_flag := False\<rparr>"

definition incAllocTime :: "u32 \<Rightarrow> HeapState \<Rightarrow> HeapState" where
  "incAllocTime n h = h\<lparr>m_alloc_time := m_alloc_time h + n\<rparr>"

text \<open>The live size saturates at \<open>ULONG_MAX\<close> and at 0; the maximum follows it.\<close>

definition live_add :: "u64 \<Rightarrow> u32 \<Rightarrow> u64" where
  "live_add live sz = (let temp = live + ucast sz in if temp < live then ULONG_MAX else temp)"

definition live_sub :: "u64 \<Rightarrow> u32 \<Rightarrow> u64" where
  "live_sub live sz = (let temp = live - ucast sz in if live < temp then 0 else temp)"

definition note_live :: "u64 \<Rightarrow> HeapState \<Rightarrow> HeapState" where
  "note_live live h =
     h\<lparr>m_liveSize := live, m_maxLiveSize := (if m_maxLiveSize h < live then live else m_maxLiveSize h)\<rparr>"

definition allocate ::
  "ClassInfo \<Rightarrow> u32 \<Rightarrow> u32 \<Rightarrow> char \<Rightarrow> string \<Rightarrow> site_ptr option \<Rightarrow> string \<Rightarrow> u32 \<Rightarrow> thread_ptr option \<Rightarrow>
   bool \<Rightarrow> u32 \<Rightarrow> HeapState \<Rightarrow> (obj_ptr \<times> HeapState) result" where
  "allocate ci oid sz kind type site nonjavalib_site_name els thread new_flag create_time h =
     (let h = h\<lparr>m_alloc_time := m_alloc_time h + sz\<rparr> in
      bindR (allocsite_name ci site) (\<lambda>name.
      let p = length (obj_cells h);
          obj = Object_new oid sz kind type site name nonjavalib_site_name els thread create_time
                  new_flag (m_alloc_time h);
          h = h\<lparr>obj_cells := obj_cells h @ [obj], m_objects := om_put oid p (m_objects h),
                m_liveset := insert p (m_liveset h)\<rparr>
      in Inr (p, note_live (live_add (m_liveSize h) sz) h)))"

text \<open>The overload for an object that already exists.\<close>

definition allocate_object :: "obj_ptr \<Rightarrow> HeapState \<Rightarrow> (obj_ptr \<times> HeapState) result" where
  "allocate_object p h =
     bindR (deref (obj_cells h) p) (\<lambda>obj.
     let h = h\<lparr>m_alloc_time := m_alloc_time h + m_size obj,
               m_objects := om_put (m_id_o obj) p (m_objects h), m_liveset := insert p (m_liveset h)\<rparr>
     in Inr (p, note_live (live_add (m_liveSize h) (m_size obj)) h))"

definition getObject :: "HeapState \<Rightarrow> u32 \<Rightarrow> obj_ptr option" where
  "getObject h oid = map_of (m_objects h) oid"

definition make_edge :: "obj_ptr option \<Rightarrow> u32 \<Rightarrow> obj_ptr option \<Rightarrow> u32 \<Rightarrow> HeapState \<Rightarrow> edge_ptr \<times> HeapState" where
  "make_edge source field_id target cur_time h =
     (length (edge_cells h), h\<lparr>edge_cells := edge_cells h @ [Some (Edge_new source field_id target cur_time)]\<rparr>)"

text \<open>A freed edge is an empty cell: to follow a pointer to it is a fault.\<close>

definition deref_edge :: "HeapState \<Rightarrow> edge_ptr \<Rightarrow> Edge result" where
  "deref_edge h e =
     bindR (deref (edge_cells h) e) (\<lambda>c. case c of None \<Rightarrow> Inl Bad_Pointer | Some d \<Rightarrow> Inr d)"

text \<open>The overload that only checks the edge's target.\<close>

definition make_edge_ptr :: "edge_ptr \<Rightarrow> HeapState \<Rightarrow> edge_ptr result" where
  "make_edge_ptr e h =
     bindR (deref_edge h e) (\<lambda>d. bindR (assertR (m_target d \<noteq> None)) (\<lambda>_. Inr e))"

definition upd_edge :: "edge_ptr \<Rightarrow> (Edge \<Rightarrow> Edge) \<Rightarrow> HeapState \<Rightarrow> HeapState result" where
  "upd_edge e f h =
     bindR (deref_edge h e) (\<lambda>d. Inr (h\<lparr>edge_cells := (edge_cells h)[e := Some (f d)]\<rparr>))"

definition upd_object :: "obj_ptr \<Rightarrow> (Object \<Rightarrow> Object) \<Rightarrow> HeapState \<Rightarrow> HeapState result" where
  "upd_object p f h =
     bindR (deref (obj_cells h) p) (\<lambda>obj. Inr (h\<lparr>obj_cells := (obj_cells h)[p := f obj]\<rparr>))"

definition getEdge :: "HeapState \<Rightarrow> obj_ptr \<Rightarrow> u32 \<Rightarrow> edge_ptr option result" where
  "getEdge h p field_id =
     bindR (deref (obj_cells h) p) (\<lambda>obj.
     Inr (case map_of (m_fields obj) field_id of None \<Rightarrow> None | Some e \<Rightarrow> e))"

text \<open>\<open>updateField\<close> frees the edge the field had and stores the new one.\<close>

definition updateField :: "obj_ptr \<Rightarrow> edge_ptr option \<Rightarrow> u32 \<Rightarrow> HeapState \<Rightarrow> HeapState result" where
  "updateField p edge field_id h =
     bindR (deref (obj_cells h) p) (\<lambda>obj.
     bindR (case fst (om_index field_id (m_fields obj)) of
              None \<Rightarrow> Inr h
            | Some old_edge \<Rightarrow>
                bindR (deref_edge h old_edge) (\<lambda>_. Inr (h\<lparr>edge_cells := (edge_cells h)[old_edge := None]\<rparr>))) (\<lambda>h.
     upd_object p (\<lambda>obj. obj\<lparr>m_fields := om_put field_id edge (m_fields obj)\<rparr>) h))"

section \<open>Deaths\<close>

text \<open>\<open>makeDead\<close> and \<open>makeDead_nosave\<close> of the heap both call this; the object stays in the live set.\<close>

definition HeapState_makeDead :: "obj_ptr \<Rightarrow> u32 \<Rightarrow> HeapState \<Rightarrow> HeapState result" where
  "HeapState_makeDead p death_time h =
     bindR (deref (obj_cells h) p) (\<lambda>obj.
     if m_deadFlag obj then Inr h
     else
       let h = (if p \<in> m_liveset h then h\<lparr>m_liveSize := live_sub (m_liveSize h) (m_size obj)\<rparr> else h)
       in upd_object p (Object_makeDead death_time (m_alloc_time h) (m_reason obj)) h)"

text \<open>How a death is counted: at the end, by the stack, by the heap, or (no evidence) by the stack.\<close>

definition count_at_end :: "Object \<Rightarrow> HeapState \<Rightarrow> HeapState" where
  "count_at_end obj h =
     h\<lparr>m_totalDiedAtEnd := m_totalDiedAtEnd h + 1, m_sizeDiedAtEnd := m_sizeDiedAtEnd h + m_size obj\<rparr>"

definition count_stack_null :: "Object \<Rightarrow> HeapState \<Rightarrow> HeapState" where
  "count_stack_null obj h =
     (if wasLastUpdateNull obj
      then h\<lparr>m_totalUpdateNullStack := m_totalUpdateNullStack h + 1,
             m_totalUpdateNullStack_size := m_totalUpdateNullStack_size h + m_size obj\<rparr>
      else h)"

definition count_stack :: "bool \<Rightarrow> Object \<Rightarrow> HeapState \<Rightarrow> HeapState" where
  "count_stack after_heap obj h =
     (let h = h\<lparr>m_totalDiedByStack_ver2 := m_totalDiedByStack_ver2 h + 1,
               m_sizeDiedByStack := m_sizeDiedByStack h + m_size obj\<rparr>;
          h = (if after_heap
               then h\<lparr>m_diedByStackAfterHeap := m_diedByStackAfterHeap h + 1,
                      m_diedByStackAfterHeap_size := m_diedByStackAfterHeap_size h + m_size obj\<rparr>
               else h\<lparr>m_diedByStackOnly := m_diedByStackOnly h + 1,
                      m_diedByStackOnly_size := m_diedByStackOnly_size h + m_size obj\<rparr>)
      in count_stack_null obj h)"

definition count_heap :: "Object \<Rightarrow> HeapState \<Rightarrow> HeapState" where
  "count_heap obj h =
     (let h = h\<lparr>m_totalDiedByHeap_ver2 := m_totalDiedByHeap_ver2 h + 1,
               m_sizeDiedByHeap := m_sizeDiedByHeap h + m_size obj\<rparr>;
          h = (if wasLastUpdateNull obj
               then h\<lparr>m_totalUpdateNullHeap := m_totalUpdateNullHeap h + 1,
                      m_totalUpdateNullHeap_size := m_totalUpdateNullHeap_size h + m_size obj\<rparr>
               else h)
      in if m_diedByGlobal obj
         then h\<lparr>m_totalDiedByGlobal := m_totalDiedByGlobal h + 1,
                m_sizeDiedByGlobal := m_sizeDiedByGlobal h + m_size obj\<rparr>
         else h)"

definition update_death_counters :: "obj_ptr \<Rightarrow> HeapState \<Rightarrow> HeapState result" where
  "update_death_counters p h =
     bindR (deref (obj_cells h) p) (\<lambda>obj.
     bindR
       (if m_reason obj = END_OF_PROGRAM_REASON \<or> m_diedAtEnd obj then Inr (count_at_end obj h)
        else if m_diedByStack obj \<or>
                ((m_reason obj = STACK \<or> m_last_event obj = ROOT) \<and> \<not> m_diedByHeap obj)
        then Inr (count_stack (m_pointed_by_heap obj) obj h)
        else if m_diedByHeap obj \<or> m_reason obj = HEAP \<or> m_last_event obj = UPDATE_AWAY_TO_NULL \<or>
                m_last_event obj = UPDATE_AWAY_TO_VALID \<or> m_pointed_by_heap obj \<or> m_diedByGlobal obj
        then upd_object p setDiedByHeapFlag (count_heap obj h)
        else Inr (count_stack False obj h)) (\<lambda>h.
     Inr (if wasLastUpdateNull obj
          then h\<lparr>m_totalUpdateNull := m_totalUpdateNull h + 1,
                 m_totalUpdateNull_size := m_totalUpdateNull_size h + m_size obj\<rparr>
          else h)))"

definition get_method_death_site :: "Object \<Rightarrow> method_ptr option" where
  "get_method_death_site obj = m_methodDeathSite obj"

text \<open>What the end of the program does to an object that is live then (or died exactly then).\<close>

definition mark_prog_end :: "u32 \<Rightarrow> Object \<Rightarrow> Object" where
  "mark_prog_end cur_time obj =
     (setLastEvent END_OF_PROGRAM_EVENT (setReason END_OF_PROGRAM_REASON cur_time
        (setDiedAtEndFlag (unsetDiedByHeapFlag (unsetDiedByStackFlag obj)))))
       \<lparr>m_deathsite_name := ''PROG_END'', m_deathsite_name_l2 := ''PROG_END''\<rparr>"

definition end_object :: "u32 \<Rightarrow> u32 \<Rightarrow> Object \<Rightarrow> Object" where
  "end_object cur_time alloc_time obj =
     (if isLive cur_time obj then
        mark_prog_end cur_time
          (if m_deadFlag obj then obj
           else setLastTimestamp cur_time (Object_makeDead cur_time alloc_time END_OF_PROGRAM_REASON obj))
      else if m_deathTime obj = cur_time then mark_prog_end cur_time obj
      else obj)"

definition note_death_site :: "Object \<Rightarrow> HeapState \<Rightarrow> HeapState" where
  "note_death_site obj h =
     (case get_method_death_site obj of
        Some dsite \<Rightarrow>
          h\<lparr>m_death_sites_map :=
             om_put dsite (insert (m_type obj) (case map_of (m_death_sites_map h) dsite of None \<Rightarrow> {} | Some s \<Rightarrow> s))
               (m_death_sites_map h)\<rparr>
      | None \<Rightarrow> h\<lparr>m_no_dsites_count := m_no_dsites_count h + 1\<rparr>)"

text \<open>
  One round of the loop of \<open>__end_of_program\<close>. \<open>eifile\<close> tells whether a file was passed: the call
  of \<open>makeDead\<close> dereferences the pointer to it.
\<close>

definition end_of_program_step :: "u32 \<Rightarrow> bool \<Rightarrow> HeapState \<Rightarrow> u32 \<times> obj_ptr \<Rightarrow> HeapState result" where
  "end_of_program_step cur_time eifile h entry =
     (let p = snd entry in
      bindR (deref (obj_cells h) p) (\<lambda>obj.
      if isLive cur_time obj \<and> \<not> m_deadFlag obj \<and> \<not> eifile then Inl Null_Pointer
      else
        bindR (upd_object p (end_object cur_time (m_alloc_time h)) h) (\<lambda>h.
        bindR (update_death_counters p h) (\<lambda>h.
        bindR (deref (obj_cells h) p) (\<lambda>obj.
        Inr (note_death_site obj h))))))"

definition end_of_program_impl :: "u32 \<Rightarrow> bool \<Rightarrow> bool \<Rightarrow> HeapState \<Rightarrow> HeapState result" where
  "end_of_program_impl cur_time eifile save_edge_flag h =
     bindR (assertR (save_edge_flag \<longrightarrow> eifile)) (\<lambda>_.
     foldR (end_of_program_step cur_time eifile) (m_objects h) h)"

definition end_of_program :: "u32 \<Rightarrow> HeapState \<Rightarrow> HeapState result" where
  "end_of_program cur_time h = end_of_program_impl cur_time True True h"

definition end_of_program_nosave :: "u32 \<Rightarrow> HeapState \<Rightarrow> HeapState result" where
  "end_of_program_nosave cur_time h = end_of_program_impl cur_time False False h"

section \<open>Cycles and node identifiers\<close>

text \<open>The last action of a cycle: the identifiers are \<open>int\<close>s converted to \<open>unsigned int\<close>.\<close>

definition cycle_object :: "HeapState \<Rightarrow> int \<Rightarrow> (obj_ptr \<times> Object) result" where
  "cycle_object h i =
     (case getObject h (word_of_int i) of
        None \<Rightarrow> Inl Null_Pointer
      | Some p \<Rightarrow> bindR (deref (obj_cells h) p) (\<lambda>obj. Inr (p, obj)))"

definition cycle_last :: "HeapState \<Rightarrow> Reason \<times> u32 \<Rightarrow> int \<Rightarrow> (Reason \<times> u32) result" where
  "cycle_last h rt i =
     bindR (cycle_object h i) (\<lambda>(p, obj).
     Inr (if snd rt < m_last_action_time obj then (m_reason obj, m_last_action_time obj) else rt))"

definition cycle_set :: "Reason \<times> u32 \<Rightarrow> HeapState \<Rightarrow> int \<Rightarrow> HeapState result" where
  "cycle_set rt h i =
     bindR (cycle_object h i) (\<lambda>(p, obj). upd_object p (setReason (fst rt) (snd rt)) h)"

definition cycle_reason :: "HeapState \<Rightarrow> int list \<Rightarrow> HeapState result" where
  "cycle_reason h cyc =
     bindR (foldR (cycle_last h) cyc (UNKNOWN_REASON, 0)) (\<lambda>rt. foldR (cycle_set rt) cyc h)"

definition set_reason_for_cycles :: "int list list \<Rightarrow> HeapState \<Rightarrow> HeapState result" where
  "set_reason_for_cycles cycles h = foldR cycle_reason cycles h"

text \<open>
  \<open>getNodeId\<close> on a \<open>boost::bimap\<close>: a list of pairs whose \<open>insert\<close> refuses a pair with a left or
  right value that is already there.
\<close>

definition bimap_insert :: "u32 \<times> u32 \<Rightarrow> (u32 \<times> u32) list \<Rightarrow> (u32 \<times> u32) list" where
  "bimap_insert e m = (if fst e \<in> fst ` set m \<or> snd e \<in> snd ` set m then m else m @ [e])"

definition getNodeId :: "u32 \<Rightarrow> (u32 \<times> u32) list \<Rightarrow> u32 \<times> (u32 \<times> u32) list" where
  "getNodeId objId bmap =
     (case map_of bmap objId of
        None \<Rightarrow> (let nodeId = of_nat (length bmap) in (nodeId, bimap_insert (objId, nodeId) bmap))
      | Some n \<Rightarrow> (n, bmap))"

section \<open>The heap stays well formed\<close>

text \<open>The map sends an identifier to an object that carries it, and every object created is in the live set.\<close>

definition heap_ok :: "HeapState \<Rightarrow> bool" where
  "heap_ok h \<longleftrightarrow> om_wf (m_objects h) \<and> m_liveset h = {..<length (obj_cells h)} \<and>
     (\<forall>i p. map_of (m_objects h) i = Some p \<longrightarrow>
        p < length (obj_cells h) \<and> m_id_o (obj_cells h ! p) = i)"

named_theorems heap_simps \<open>how the operations of the heap return\<close>

lemma heap_okD:
  assumes "heap_ok h" and "map_of (m_objects h) i = Some p"
  shows "p < length (obj_cells h)" "m_id_o (obj_cells h ! p) = i"
  using assms by (auto simp: heap_ok_def)

lemma heap_ok_init [simp]: "heap_ok HeapState_init"
  by (simp add: heap_ok_def HeapState_init_def)

lemma upd_object_Inr [heap_simps]:
  "upd_object p f h = Inr h' \<longleftrightarrow>
     p < length (obj_cells h) \<and> h' = h\<lparr>obj_cells := (obj_cells h)[p := f (obj_cells h ! p)]\<rparr>"
  by (auto simp: upd_object_def fault_simps)

lemma deref_edge_Inr [heap_simps]:
  "deref_edge h e = Inr d \<longleftrightarrow> e < length (edge_cells h) \<and> edge_cells h ! e = Some d"
  by (auto simp: deref_edge_def fault_simps split: option.splits)

lemma upd_edge_Inr [heap_simps]:
  "upd_edge e f h = Inr h' \<longleftrightarrow>
     (\<exists>d. e < length (edge_cells h) \<and> edge_cells h ! e = Some d \<and>
        h' = h\<lparr>edge_cells := (edge_cells h)[e := Some (f d)]\<rparr>)"
  by (auto simp: upd_edge_def fault_simps heap_simps)

lemma getEdge_Inr [heap_simps]:
  "getEdge h p k = Inr eo \<longleftrightarrow> p < length (obj_cells h) \<and>
     eo = (case map_of (m_fields (obj_cells h ! p)) k of None \<Rightarrow> None | Some e \<Rightarrow> e)"
  by (auto simp: getEdge_def fault_simps)

lemma Object_new_fields [simp]:
  "m_id_o (Object_new oid sz kind type site name nj els th t nf a) = oid"
  "m_size (Object_new oid sz kind type site name nj els th t nf a) = sz"
  "\<not> m_deadFlag (Object_new oid sz kind type site name nj els th t nf a)"
  "m_fields (Object_new oid sz kind type site name nj els th t nf a) = []"
  "m_createTime (Object_new oid sz kind type site name nj els th t nf a) = t"
  "m_deathTime (Object_new oid sz kind type site name nj els th t nf a) = UINT_MAX"
  "m_last_timestamp (Object_new oid sz kind type site name nj els th t nf a) = 0"
  by (simp_all add: Object_new_def)

lemma allocate_Inr [heap_simps]:
  "allocate ci oid sz kind type site nj els th nf t h = Inr (p, h') \<longleftrightarrow>
     (\<exists>name. allocsite_name ci site = Inr name \<and> p = length (obj_cells h) \<and>
        h' = note_live (live_add (m_liveSize h) sz)
          (h\<lparr>m_alloc_time := m_alloc_time h + sz,
             obj_cells := obj_cells h @ [Object_new oid sz kind type site name nj els th t nf (m_alloc_time h + sz)],
             m_objects := om_put oid p (m_objects h), m_liveset := insert p (m_liveset h)\<rparr>))"
  by (auto simp: allocate_def fault_simps Let_def)

lemma updateField_cases:
  assumes "updateField p eo k h = Inr h'"
  obtains cs where "p < length (obj_cells h)"
    and "h' = h\<lparr>edge_cells := cs,
           obj_cells := (obj_cells h)[p := (obj_cells h ! p)\<lparr>m_fields := om_put k eo (m_fields (obj_cells h ! p))\<rparr>]\<rparr>"
    and "case map_of (m_fields (obj_cells h ! p)) k of
           Some (Some old) \<Rightarrow> (\<exists>d. old < length (edge_cells h) \<and> edge_cells h ! old = Some d) \<and>
                              cs = (edge_cells h)[old := None]
         | _ \<Rightarrow> cs = edge_cells h"
  using assms
  by (fastforce simp: updateField_def fault_simps heap_simps om_index_def split: option.splits)

lemma makeDead_Inr [heap_simps]:
  "HeapState_makeDead p t h = Inr h' \<longleftrightarrow> p < length (obj_cells h) \<and>
     (let obj = obj_cells h ! p in
      if m_deadFlag obj then h' = h
      else h' = h\<lparr>m_liveSize := (if p \<in> m_liveset h then live_sub (m_liveSize h) (m_size obj) else m_liveSize h),
                  obj_cells := (obj_cells h)[p := Object_makeDead t (m_alloc_time h) (m_reason obj) obj]\<rparr>)"
  by (auto simp: HeapState_makeDead_def fault_simps Let_def heap_simps)

lemmas setter_defs =
  setDiedByStackFlag_def setDiedByHeapFlag_def setDiedByGlobalFlag_def setDiedAtEndFlag_def
  unsetDiedByStackFlag_def unsetDiedByHeapFlag_def setReason_def setLastTimestamp_def
  setDeathTime_def setLastEvent_def

lemma Object_makeDead_fields [simp]:
  "m_id_o (Object_makeDead t a r obj) = m_id_o obj" "m_size (Object_makeDead t a r obj) = m_size obj"
  "m_deadFlag (Object_makeDead t a r obj)" "m_deathTime (Object_makeDead t a r obj) = t"
  "m_fields (Object_makeDead t a r obj) = m_fields obj"
  "m_last_timestamp (Object_makeDead t a r obj) = m_last_timestamp obj"
  by (cases r; simp add: Object_makeDead_def Let_def setter_defs)+

text \<open>What the simulator does with the heap while it reads a trace.\<close>

inductive heap_step :: "HeapState \<Rightarrow> HeapState \<Rightarrow> bool" where
  step_allocate: "allocate ci oid sz kind type site nj els th nf t h = Inr (p, h') \<Longrightarrow> heap_step h h'"
| step_dead: "HeapState_makeDead p t h = Inr h' \<Longrightarrow> heap_step h h'"
| step_edge: "make_edge s k tg t h = (e, h') \<Longrightarrow> heap_step h h'"
| step_end_edge: "upd_edge e (setEndTime t) h = Inr h' \<Longrightarrow> heap_step h h'"
| step_field: "updateField p eo k h = Inr h' \<Longrightarrow> heap_step h h'"
| step_object: "upd_object p f h = Inr h' \<Longrightarrow>
     (\<And>obj. m_id_o (f obj) = m_id_o obj \<and> m_size (f obj) = m_size obj \<and> m_deadFlag (f obj) = m_deadFlag obj) \<Longrightarrow>
     heap_step h h'"
| step_debug: "h' = enableObjectDebug h \<or> h' = disableObjectDebug h \<Longrightarrow> heap_step h h'"

declare enableObjectDebug_def [heap_simps] disableObjectDebug_def [heap_simps]

inductive_cases heap_stepE: "heap_step h h'"

text \<open>Every setter that leaves identifier, size and the dead flag alone is a step.\<close>

lemmas object_setters = setNonJavaLibAllocSiteName_def setNewedObject_def setPointedAtByHeap_def unsetDiedByGlobalFlag_def
  unsetDiedAtEndFlag_def setLastActionSite_def setLastUpdateNull_def unsetLastUpdateNull_def setLastUpdateFromStatic_def
  unsetLastUpdateFromStatic_def setDeathSite_first_def setLastObject_def setDeathRoot_def setKeyType_def setRefTargetType_def
  set_nonJavaLib_last_action_context_def setDiedByStackFlag_def setDiedByHeapFlag_def setDiedByGlobalFlag_def setDiedAtEndFlag_def
  unsetDiedByStackFlag_def unsetDiedByHeapFlag_def setReason_def setStackReason_def setHeapReason_def setLastTimestamp_def
  setDeathTime_def setLastEvent_def setKeyTypeIfNotKnown_def setAllocContextList_def setDeathContextList_def

definition object_setter_list :: "(Object \<Rightarrow> Object) list" where
  "object_setter_list =
     [setPointedAtByHeap, unsetDiedByGlobalFlag, unsetDiedAtEndFlag, setLastUpdateNull, unsetLastUpdateNull,
      setLastUpdateFromStatic, unsetLastUpdateFromStatic, setDiedByStackFlag, setDiedByHeapFlag, setDiedByGlobalFlag,
      setDiedAtEndFlag, unsetDiedByStackFlag, unsetDiedByHeapFlag]"

lemma setter_step:
  "f \<in> set object_setter_list \<Longrightarrow> upd_object p f h = Inr h' \<Longrightarrow> heap_step h h'"
  by (rule step_object, assumption) (auto simp: object_setter_list_def object_setters split: if_splits)

lemma heap_ok_same_ids:
  assumes "heap_ok h" and "length (obj_cells h') = length (obj_cells h)"
    and "\<And>p. p < length (obj_cells h) \<Longrightarrow> m_id_o (obj_cells h' ! p) = m_id_o (obj_cells h ! p)"
    and "m_objects h' = m_objects h" and "m_liveset h' = m_liveset h"
  shows "heap_ok h'"
  using assms by (auto simp: heap_ok_def)

lemma heap_step_ok:
  assumes "heap_step h h'" and "heap_ok h"
  shows "heap_ok h' \<and> length (obj_cells h) \<le> length (obj_cells h')"
  using assms(1)
proof cases
  case step_allocate
  then show ?thesis
    using assms(2)
    by (auto simp: heap_simps heap_ok_def note_live_def nth_append less_Suc_eq split: if_splits)
next
  case step_field
  then show ?thesis
    by (elim updateField_cases) (auto intro!: heap_ok_same_ids [OF assms(2)] simp: nth_list_update)
qed (auto intro!: heap_ok_same_ids [OF assms(2)] simp: heap_simps make_edge_def nth_list_update Let_def
      split: if_splits)

section \<open>The live size\<close>

text \<open>The bytes of the objects that are not dead.\<close>

definition live_bytes :: "HeapState \<Rightarrow> nat" where
  "live_bytes h = sum_list (map (\<lambda>obj. if m_deadFlag obj then 0 else unat (m_size obj)) (obj_cells h))"

lemma unat_ucast_u32 [simp]: "unat (ucast (w :: u32) :: u64) = unat w"
  by (simp add: unsigned_ucast_eq take_bit_nat_eq_self order_less_trans [OF unsigned_less])

lemma live_add_min: "unat (live_add live sz) = min (2 ^ 64 - 1) (unat live + unat sz)"
proof -
  have s: "unat live < 2 ^ 64" "unat sz < 2 ^ 64"
    using u32_bound [of sz] unsigned_less [of live] by auto
  have sum: "unat (live + ucast sz) = (unat live + unat sz) mod 2 ^ 64"
    by (simp add: unat_word_ariths)
  show ?thesis
  proof (cases "unat live + unat sz < 2 ^ 64")
    case True
    then show ?thesis using sum by (simp add: live_add_def Let_def word_less_nat_alt)
  next
    case False
    then have "(unat live + unat sz) mod 2 ^ 64 = unat live + unat sz - 2 ^ 64"
      using s by (subst mod_if) (auto simp: mod_if)
    then have "live + ucast sz < live"
      using sum s False by (simp add: word_less_nat_alt)
    then show ?thesis
      using False by (simp add: live_add_def ULONG_MAX_def unsigned_minus_1_eq_mask mask_eq_exp_minus_1)
  qed
qed

lemma live_sub_diff: "unat (live_sub live sz) = unat live - unat sz"
proof (cases "unat sz \<le> unat live")
  case True
  then have le: "(ucast sz :: u64) \<le> live" by (simp add: word_le_nat_alt)
  then have "\<not> live < live - ucast sz" by (simp add: word_less_nat_alt unat_sub)
  then show ?thesis using le by (simp add: live_sub_def unat_sub)
next
  case False
  then have "live < (ucast sz :: u64)" by (simp add: word_less_nat_alt)
  moreover have "unat live < unat (live - ucast sz)"
    using False u32_bound [of sz] by (simp add: unat_sub_if')
  ultimately have "live < live - ucast sz"
    by (simp add: word_less_nat_alt)
  then show ?thesis using False by (simp add: live_sub_def)
qed

lemma live_bytes_bound:
  assumes "length (obj_cells h) \<le> 2 ^ 32"
  shows "live_bytes h \<le> (2 ^ 32 - 1) * length (obj_cells h)"
proof -
  have each: "unat (m_size obj) \<le> 2 ^ 32 - 1" for obj :: Object
    using u32_bound [of "m_size obj"] by simp
  have "sum_list (map (\<lambda>obj. if m_deadFlag obj then 0 else unat (m_size obj)) os) \<le> (2 ^ 32 - 1) * length os"
    for os :: "Object list"
    using each by (induction os) (auto intro: add_mono le_SucI trans_le_add2)
  then show ?thesis by (simp add: live_bytes_def)
qed

lemma live_bytes_update:
  assumes "p < length (obj_cells h)"
  shows "live_bytes (h\<lparr>obj_cells := (obj_cells h)[p := obj]\<rparr>) =
    live_bytes h + (if m_deadFlag obj then 0 else unat (m_size obj)) -
      (if m_deadFlag (obj_cells h ! p) then 0 else unat (m_size (obj_cells h ! p)))"
  using assms by (simp add: live_bytes_def map_update sum_list_update)

lemma live_bytes_same:
  assumes "map (\<lambda>obj. (m_deadFlag obj, m_size obj)) (obj_cells h') =
    map (\<lambda>obj. (m_deadFlag obj, m_size obj)) (obj_cells h)"
  shows "live_bytes h' = live_bytes h"
proof -
  have form: "live_bytes g = sum_list (map (\<lambda>(d, s). if d then 0 else unat s) (map (\<lambda>obj. (m_deadFlag obj, m_size obj)) (obj_cells g)))" for g
    by (simp add: live_bytes_def comp_def)
  show ?thesis unfolding form assms ..
qed

lemma live_step:
  assumes "heap_step h h'" and "heap_ok h" and "unat (m_liveSize h) = live_bytes h"
    and "length (obj_cells h') \<le> 2 ^ 32"
  shows "unat (m_liveSize h') = live_bytes h'"
  using assms(1)
proof cases
  case (step_allocate ci oid sz kind type site nj els th nf t p)
  then have live: "m_liveSize h' = live_add (m_liveSize h) sz"
    and bytes: "live_bytes h' = live_bytes h + unat sz"
    by (auto simp: heap_simps note_live_def live_bytes_def)
  have "live_bytes h' \<le> (2 ^ 32 - 1) * 2 ^ 32"
    using live_bytes_bound [OF assms(4)] assms(4) by (elim order_trans) simp
  then show ?thesis using assms(3) live bytes by (simp add: live_add_min)
next
  case (step_dead p t)
  then show ?thesis
    using assms(2,3) live_bytes_update [of p h "Object_makeDead t (m_alloc_time h) (m_reason (obj_cells h ! p)) (obj_cells h ! p)"]
    by (auto simp: heap_simps Let_def heap_ok_def live_sub_diff live_bytes_def split: if_splits)
next
  case (step_field p eo k)
  then have "map (\<lambda>obj. (m_deadFlag obj, m_size obj)) (obj_cells h') = map (\<lambda>obj. (m_deadFlag obj, m_size obj)) (obj_cells h)"
    and "m_liveSize h' = m_liveSize h"
    by (elim updateField_cases; auto simp: map_update list_update_same_conv) +
  then show ?thesis using assms(3) live_bytes_same [of h' h] by simp
next
  case (step_object p f)
  then have "map (\<lambda>obj. (m_deadFlag obj, m_size obj)) (obj_cells h') = map (\<lambda>obj. (m_deadFlag obj, m_size obj)) (obj_cells h)"
    and "m_liveSize h' = m_liveSize h"
    by (auto simp: heap_simps map_update list_update_same_conv)
  then show ?thesis using assms(3) live_bytes_same [of h' h] by simp
qed (use assms(3) in \<open>auto simp: heap_simps make_edge_def live_bytes_def\<close>)

lemma max_live_step:
  assumes "heap_step h h'" and "m_liveSize h \<le> m_maxLiveSize h"
  shows "m_maxLiveSize h' = max (m_maxLiveSize h) (m_liveSize h')"
  using assms(1)
proof cases
  case step_dead
  have "live_sub a b \<le> a" for a b
    by (simp add: word_le_nat_alt live_sub_diff)
  then have "m_liveSize h' \<le> m_liveSize h" "m_maxLiveSize h' = m_maxLiveSize h"
    using step_dead by (auto simp: heap_simps Let_def split: if_splits)
  then show ?thesis
    using assms(2) by (simp add: max_absorb1)
next
  case step_field
  then show ?thesis using assms(2) by (elim updateField_cases) (simp add: max_absorb1)
qed (use assms(2) in \<open>auto simp: heap_simps make_edge_def note_live_def max_def not_less\<close>)

text \<open>A run of the heap, latest state first.\<close>

inductive heap_run :: "HeapState list \<Rightarrow> bool" where
  run_init: "heap_run [HeapState_init]"
| run_step: "heap_run (h # hs) \<Longrightarrow> heap_step h h' \<Longrightarrow> heap_run (h' # h # hs)"

lemma heap_run_facts:
  assumes "heap_run hs"
  shows "heap_ok (hd hs) \<and> m_maxLiveSize (hd hs) = Max (m_liveSize ` set hs) \<and>
    (length (obj_cells (hd hs)) \<le> 2 ^ 32 \<longrightarrow> unat (m_liveSize (hd hs)) = live_bytes (hd hs))"
  using assms
proof induction
  case run_init
  show ?case by (simp add: HeapState_init_def live_bytes_def heap_ok_init [unfolded HeapState_init_def])
next
  case (run_step h hs h')
  have "m_liveSize h \<le> m_maxLiveSize h"
    using run_step.IH by simp
  then show ?case
    using run_step heap_step_ok [OF run_step.hyps(2)] live_step [OF run_step.hyps(2)]
      max_live_step [OF run_step.hyps(2)] by (auto simp: max.commute)
qed

text \<open>The counters of deaths and the loop at the end of the program leave the live size alone.\<close>

lemma update_death_counters_live:
  assumes "update_death_counters p h = Inr h'"
  shows "m_liveSize h' = m_liveSize h" "m_maxLiveSize h' = m_maxLiveSize h"
  using assms
  by (auto simp: update_death_counters_def fault_simps upd_object_def count_at_end_def count_stack_def count_heap_def
      count_stack_null_def Let_def split: if_splits)

interpretation end_rounds: loop_body "end_of_program_step t eifile" "\<lambda>h. m_liveSize h = a \<and> m_maxLiveSize h = b" for t eifile a b
proof
  fix h e h'
  assume old: "m_liveSize h = a \<and> m_maxLiveSize h = b" and step: "end_of_program_step t eifile h e = Inr h'"
  obtain g k where g: "upd_object (snd e) (end_object t (m_alloc_time h)) h = Inr g" "update_death_counters (snd e) g = Inr k"
    and h': "\<exists>obj. h' = note_death_site obj k"
    using step by (auto simp: end_of_program_step_def fault_simps Let_def split: if_splits)
  have "m_liveSize g = m_liveSize h" "m_maxLiveSize g = m_maxLiveSize h" using g(1) by (auto simp: upd_object_def fault_simps)
  then show "m_liveSize h' = a \<and> m_maxLiveSize h' = b"
    using old h' update_death_counters_live [OF g(2)] by (auto simp: note_death_site_def split: option.splits)
qed

lemma end_of_program_live:
  "end_of_program t h = Inr h' \<Longrightarrow> m_liveSize h' = m_liveSize h \<and> m_maxLiveSize h' = m_maxLiveSize h"
  by (auto simp: end_of_program_def end_of_program_impl_def fault_simps dest: end_rounds.loop_keeps [rotated])

text \<open>
  C9: The live size is exact. In any run of the heap that allocates, lets objects die by \<open>makeDead\<close>,
  makes and ends edges, updates fields and sets what is known of an object (\<open>heap_step\<close>), with at
  most \<open>2 ^ 32\<close> objects, the saturating 64-bit counter \<open>m_liveSize\<close> is the sum of the sizes of the
  objects not yet dead (so the two overflow branches are never taken), and \<open>m_maxLiveSize\<close> is the
  largest value it ever had. The end of the program, which marks objects dead by itself, is no such step:
  it leaves both counters at what they were, so they still count those objects.
\<close>
theorem live_size_exact:
  assumes "heap_run (h # hs)" and "length (obj_cells h) \<le> 2 ^ 32"
  shows "unat (m_liveSize h) = live_bytes h \<and> m_maxLiveSize h = Max (m_liveSize ` set (h # hs)) \<and>
    (\<forall>t h'. end_of_program t h = Inr h' \<longrightarrow> unat (m_liveSize h') = live_bytes h \<and> m_maxLiveSize h' = m_maxLiveSize h)"
  using heap_run_facts [OF assms(1)] assms(2) end_of_program_live by simp

definition demo_heap :: "HeapState \<Rightarrow> u32 \<Rightarrow> u32 \<Rightarrow> HeapState" where
  "demo_heap h oid sz =
     snd (projr (allocate ClassInfo_init oid sz CHR ''N'' ''Foo'' None ''NONE'' 0 None False 1 h))"

lemma demo_heap_step: "heap_step h (demo_heap h oid sz)"
  unfolding demo_heap_def
  by (rule step_allocate [of ClassInfo_init oid sz "CHR ''N''" "''Foo''" None "''NONE''" 0 None False 1 h
      "length (obj_cells h)"]) (simp add: allocate_def allocsite_name_def Let_def)

lemma live_size_exact_witness:
  "unat (m_liveSize (demo_heap (demo_heap HeapState_init 7 16) 9 24)) =
     live_bytes (demo_heap (demo_heap HeapState_init 7 16) 9 24) \<and>
   m_maxLiveSize (demo_heap (demo_heap HeapState_init 7 16) 9 24) = 40"
proof -
  have len: "length (obj_cells (demo_heap h oid sz)) = Suc (length (obj_cells h))" for h oid sz
    by (simp add: demo_heap_def allocate_def allocsite_name_def Let_def note_live_def)
  have "m_liveSize (demo_heap (demo_heap HeapState_init 7 16) 9 24) = 40"
    "m_liveSize (demo_heap HeapState_init 7 16) = 16" "m_liveSize HeapState_init = 0"
    by code_simp+
  then show ?thesis
    using live_size_exact [OF run_step [OF run_step [OF run_init demo_heap_step [of _ 7 16]] demo_heap_step [of _ 9 24]]]
    by (simp add: len HeapState_init_def)
qed

section \<open>Deaths\<close>

text \<open>
  C37: An object dies once. \<open>makeDead\<close> on a valid object returns; afterwards the object is dead
  with the death time given, its size is out of the live size exactly once, and every later
  \<open>makeDead\<close> of it changes nothing, whatever its time.
\<close>
theorem makeDead_once:
  assumes "heap_ok h" and "p < length (obj_cells h)" and "\<not> m_deadFlag (obj_cells h ! p)"
  shows "\<exists>h'. HeapState_makeDead p t h = Inr h' \<and> m_deadFlag (obj_cells h' ! p) \<and>
    m_deathTime (obj_cells h' ! p) = t \<and> m_last_action_time (obj_cells h' ! p) = t \<and>
    unat (m_liveSize h') = unat (m_liveSize h) - unat (m_size (obj_cells h ! p)) \<and>
    (\<forall>q. q \<noteq> p \<longrightarrow> obj_cells h' ! q = obj_cells h ! q) \<and>
    (\<forall>t'. HeapState_makeDead p t' h' = Inr h')"
proof -
  define obj where "obj = Object_makeDead t (m_alloc_time h) (m_reason (obj_cells h ! p)) (obj_cells h ! p)"
  define h' where "h' = h\<lparr>m_liveSize := live_sub (m_liveSize h) (m_size (obj_cells h ! p)),
     obj_cells := (obj_cells h)[p := obj]\<rparr>"
  have "m_last_action_time obj = t"
    by (cases "m_reason (obj_cells h ! p)") (simp_all add: obj_def Object_makeDead_def Let_def setter_defs)
  moreover have "HeapState_makeDead p t h = Inr h'"
    using assms by (simp add: heap_simps heap_ok_def h'_def obj_def)
  moreover have "HeapState_makeDead p t' h' = Inr h'" for t'
    using assms(2) by (simp add: heap_simps h'_def obj_def)
  ultimately show ?thesis
    using assms(2) by (intro exI [of _ h']) (simp add: h'_def obj_def live_sub_diff)
qed

lemma makeDead_once_witness:
  "heap_ok (demo_heap HeapState_init 7 16) \<and>
   (\<exists>h'. HeapState_makeDead 0 5 (demo_heap HeapState_init 7 16) = Inr h' \<and> m_deathTime (obj_cells h' ! 0) = 5)"
proof -
  have ok: "heap_ok (demo_heap HeapState_init 7 16)"
    using heap_step_ok [OF demo_heap_step heap_ok_init] by blast
  have "0 < length (obj_cells (demo_heap HeapState_init 7 16))"
    "\<not> m_deadFlag (obj_cells (demo_heap HeapState_init 7 16) ! 0)"
    by (simp_all add: demo_heap_def allocate_def allocsite_name_def Let_def note_live_def HeapState_init_def)
  from makeDead_once [OF ok this, of 5] ok show ?thesis by blast
qed

section \<open>The end of the program\<close>

text \<open>How the counters classify a death, and the counters of each class.\<close>

definition death_class :: "Object \<Rightarrow> Reason" where
  "death_class obj =
     (if m_reason obj = END_OF_PROGRAM_REASON \<or> m_diedAtEnd obj then END_OF_PROGRAM_REASON
      else if m_diedByStack obj \<or> (m_reason obj = STACK \<or> m_last_event obj = ROOT) \<and> \<not> m_diedByHeap obj then STACK
      else if m_diedByHeap obj \<or> m_reason obj = HEAP \<or> m_last_event obj = UPDATE_AWAY_TO_NULL \<or>
              m_last_event obj = UPDATE_AWAY_TO_VALID \<or> m_pointed_by_heap obj \<or> m_diedByGlobal obj then HEAP
      else STACK)"

fun tally :: "Reason \<Rightarrow> HeapState \<Rightarrow> u32" where
  "tally END_OF_PROGRAM_REASON h = m_totalDiedAtEnd h"
| "tally STACK h = m_totalDiedByStack_ver2 h"
| "tally HEAP h = m_totalDiedByHeap_ver2 h"
| "tally GLOBAL h = 0"
| "tally UNKNOWN_REASON h = 0"

fun size_tally :: "Reason \<Rightarrow> HeapState \<Rightarrow> u32" where
  "size_tally END_OF_PROGRAM_REASON h = m_sizeDiedAtEnd h"
| "size_tally STACK h = m_sizeDiedByStack h"
| "size_tally HEAP h = m_sizeDiedByHeap h"
| "size_tally GLOBAL h = 0"
| "size_tally UNKNOWN_REASON h = 0"

definition stack_rest :: "HeapState \<Rightarrow> u32" where
  "stack_rest h = m_diedByStackOnly h + m_diedByStackAfterHeap h - m_totalDiedByStack_ver2 h"

definition counted_object :: "Object \<Rightarrow> Object" where
  "counted_object obj = (if death_class obj = HEAP then setDiedByHeapFlag obj else obj)"

definition counted_in :: "Object \<Rightarrow> HeapState \<Rightarrow> HeapState \<Rightarrow> bool" where
  "counted_in obj h h' \<longleftrightarrow>
     (\<forall>c. tally c h' = tally c h + (if death_class obj = c then 1 else 0) \<and>
          size_tally c h' = size_tally c h + (if death_class obj = c then m_size obj else 0)) \<and>
     stack_rest h' =
     stack_rest h"

lemma all_reasons: "(\<forall>c. P c) \<longleftrightarrow> P STACK \<and> P HEAP \<and> P GLOBAL \<and> P END_OF_PROGRAM_REASON \<and> P UNKNOWN_REASON"
  by (metis Reason.exhaust)

lemma count_frames:
  "obj_cells (count_at_end obj h) = obj_cells h" "obj_cells (count_stack b obj h) = obj_cells h"
  "obj_cells (count_heap obj h) = obj_cells h"
  "m_objects (count_at_end obj h) = m_objects h" "m_objects (count_stack b obj h) = m_objects h"
  "m_objects (count_heap obj h) = m_objects h"
  "m_alloc_time (count_at_end obj h) = m_alloc_time h" "m_alloc_time (count_stack b obj h) = m_alloc_time h"
  "m_alloc_time (count_heap obj h) = m_alloc_time h"
  by (simp_all add: count_at_end_def count_stack_def count_heap_def count_stack_null_def Let_def)

lemma counted_in_counts:
  "death_class obj = END_OF_PROGRAM_REASON \<Longrightarrow> counted_in obj h (count_at_end obj h)"
  "death_class obj = STACK \<Longrightarrow> counted_in obj h (count_stack b obj h)"
  "death_class obj = HEAP \<Longrightarrow> counted_in obj h (count_heap obj h)"
  by (simp_all add: counted_in_def all_reasons count_at_end_def count_stack_def count_heap_def
      count_stack_null_def stack_rest_def Let_def algebra_simps)

definition count_null :: "Object \<Rightarrow> HeapState \<Rightarrow> HeapState" where
  "count_null obj h =
     (if wasLastUpdateNull obj
      then h\<lparr>m_totalUpdateNull := m_totalUpdateNull h + 1,
             m_totalUpdateNull_size := m_totalUpdateNull_size h + m_size obj\<rparr>
      else h)"

lemma tally_frame:
  "tally c (h\<lparr>obj_cells := x\<rparr>) = tally c h" "size_tally c (h\<lparr>obj_cells := x\<rparr>) = size_tally c h"
  "tally c (count_null obj h) = tally c h" "size_tally c (count_null obj h) = size_tally c h"
  "tally c (note_death_site obj h) = tally c h" "size_tally c (note_death_site obj h) = size_tally c h"
  "stack_rest (h\<lparr>obj_cells := x\<rparr>) = stack_rest h" "stack_rest (count_null obj h) = stack_rest h"
  "stack_rest (note_death_site obj h) = stack_rest h"
  by (cases c; simp add: count_null_def note_death_site_def stack_rest_def split: option.splits)+

lemma counted_in_frame:
  "counted_in obj g (count_null obj' h) = counted_in obj g h"
  "counted_in obj g (note_death_site obj' h) = counted_in obj g h"
  "counted_in obj g (h\<lparr>obj_cells := x\<rparr>) = counted_in obj g h"
  "counted_in obj (g\<lparr>obj_cells := x\<rparr>) h = counted_in obj g h"
  by (simp_all only: counted_in_def tally_frame)

lemma update_death_counters_effect:
  assumes "p < length (obj_cells h)" and "obj = obj_cells h ! p"
  shows "\<exists>h'. update_death_counters p h = Inr h' \<and> obj_cells h' = (obj_cells h)[p := counted_object obj] \<and>
    m_objects h' = m_objects h \<and> m_alloc_time h' = m_alloc_time h \<and> counted_in obj h h'"
proof -
  have dc: "death_class obj = END_OF_PROGRAM_REASON \<or> death_class obj = STACK \<or> death_class obj = HEAP"
    by (simp add: death_class_def)
  define g where "g = (if death_class obj = END_OF_PROGRAM_REASON then count_at_end obj h
     else if death_class obj = STACK
     then count_stack ((m_diedByStack obj \<or> (m_reason obj = STACK \<or> m_last_event obj = ROOT) \<and> \<not> m_diedByHeap obj) \<and> m_pointed_by_heap obj) obj h
     else (count_heap obj h)\<lparr>obj_cells := (obj_cells h)[p := setDiedByHeapFlag obj]\<rparr>)"
  have "update_death_counters p h = Inr (count_null obj g)"
    using assms
    by (auto simp: update_death_counters_def g_def death_class_def deref_valid upd_object_def count_frames
        count_null_def)
  moreover have "counted_in obj h g"
    using dc by (auto simp: g_def counted_in_counts counted_in_frame)
  moreover have "obj_cells g = (obj_cells h)[p := counted_object obj] \<and> m_objects g = m_objects h \<and>
      m_alloc_time g = m_alloc_time h"
    using assms dc by (auto simp: g_def counted_object_def count_frames)
  moreover have "obj_cells (count_null obj g) = obj_cells g" "m_objects (count_null obj g) = m_objects g"
    "m_alloc_time (count_null obj g) = m_alloc_time g"
    by (simp_all add: count_null_def)
  ultimately show ?thesis
    by (simp add: counted_in_frame)
qed

definition end_result :: "u32 \<Rightarrow> u32 \<Rightarrow> Object \<Rightarrow> Object" where
  "end_result t a obj = counted_object (end_object t a obj)"

lemma end_object_size [simp]: "m_size (end_object t a obj) = m_size obj"
  by (simp add: end_object_def mark_prog_end_def setter_defs)

lemma end_of_program_step_effect:
  assumes "p < length (obj_cells h)" and "obj = obj_cells h ! p"
  shows "\<exists>h'. end_of_program_step t True h (i, p) = Inr h' \<and>
    obj_cells h' = (obj_cells h)[p := end_result t (m_alloc_time h) obj] \<and>
    m_objects h' = m_objects h \<and> m_alloc_time h' = m_alloc_time h \<and>
    counted_in (end_object t (m_alloc_time h) obj) h h'"
proof -
  define g where "g = h\<lparr>obj_cells := (obj_cells h)[p := end_object t (m_alloc_time h) obj]\<rparr>"
  obtain k where k: "update_death_counters p g = Inr k"
    "obj_cells k = (obj_cells g)[p := end_result t (m_alloc_time h) obj]"
    "m_objects k = m_objects h" "m_alloc_time k = m_alloc_time h"
    "counted_in (end_object t (m_alloc_time h) obj) g k"
    using update_death_counters_effect [of p g "end_object t (m_alloc_time h) obj"] assms
    by (auto simp: g_def end_result_def)
  have "end_of_program_step t True h (i, p) =
      Inr (note_death_site (end_result t (m_alloc_time h) obj) k)"
    using assms k(1,2) by (simp add: end_of_program_step_def deref_valid upd_object_def g_def)
  moreover have "obj_cells (note_death_site o' k) = obj_cells k" "m_objects (note_death_site o' k) = m_objects k"
    "m_alloc_time (note_death_site o' k) = m_alloc_time k" for o'
    by (simp_all add: note_death_site_def split: option.splits)
  ultimately show ?thesis
    using k by (simp add: counted_in_frame g_def)
qed

definition class_members :: "u32 \<Rightarrow> HeapState \<Rightarrow> Reason \<Rightarrow> (u32 \<times> obj_ptr) list \<Rightarrow> Object list" where
  "class_members t h c es =
     filter (\<lambda>obj. death_class (end_object t (m_alloc_time h) obj) = c) (map (\<lambda>e. obj_cells h ! snd e) es)"

definition total_size :: "Object list \<Rightarrow> u32" where
  "total_size os = sum_list (map m_size os)"

lemma end_of_program_fold:
  assumes "\<forall>e \<in> set es. snd e < length (obj_cells h)" and "distinct (map snd es)"
  shows "\<exists>h'. foldR (end_of_program_step t True) es h = Inr h' \<and> m_alloc_time h' = m_alloc_time h \<and>
    m_objects h' = m_objects h \<and> length (obj_cells h') = length (obj_cells h) \<and>
    (\<forall>p < length (obj_cells h). obj_cells h' ! p =
       (if p \<in> snd ` set es then end_result t (m_alloc_time h) (obj_cells h ! p) else obj_cells h ! p)) \<and>
    (\<forall>c. tally c h' = tally c h + of_nat (length (class_members t h c es)) \<and>
         size_tally c h' = size_tally c h + total_size (class_members t h c es)) \<and>
    stack_rest h' =
    stack_rest h"
  using assms
proof (induction es arbitrary: h)
  case Nil
  then show ?case by (simp add: class_members_def total_size_def)
next
  case (Cons e es)
  obtain i p where e: "e = (i, p)" by fastforce
  define obj where "obj = obj_cells h ! p"
  obtain k where k: "end_of_program_step t True h e = Inr k"
    "obj_cells k = (obj_cells h)[p := end_result t (m_alloc_time h) obj]"
    "m_objects k = m_objects h" "m_alloc_time k = m_alloc_time h"
    "counted_in (end_object t (m_alloc_time h) obj) h k"
    using end_of_program_step_effect [of p h obj t i] Cons.prems by (auto simp: e obj_def)
  have same: "class_members t k c es = class_members t h c es" for c
    unfolding class_members_def using Cons.prems k(2,4) e
    by (intro arg_cong2 [where f = filter]) (auto simp: nth_list_update)
  have cons: "class_members t h c (e # es) =
      (if death_class (end_object t (m_alloc_time h) obj) = c then obj # class_members t h c es
       else class_members t h c es)" for c
    by (simp add: class_members_def e obj_def)
  have "\<forall>e \<in> set es. snd e < length (obj_cells k)" "distinct (map snd es)"
    using Cons.prems k(2) by auto
  from Cons.IH [OF this] obtain h' where h': "foldR (end_of_program_step t True) es k = Inr h'"
    "m_alloc_time h' = m_alloc_time h" "m_objects h' = m_objects h" "length (obj_cells h') = length (obj_cells h)"
    "\<forall>q < length (obj_cells h). obj_cells h' ! q =
       (if q \<in> snd ` set es then end_result t (m_alloc_time h) (obj_cells k ! q) else obj_cells k ! q)"
    "\<forall>c. tally c h' = tally c k + of_nat (length (class_members t h c es)) \<and>
         size_tally c h' = size_tally c k + total_size (class_members t h c es)"
    "stack_rest h' =
     stack_rest k"
    unfolding same using k by auto
  have tallies: "\<forall>c. tally c h' = tally c h + of_nat (length (class_members t h c (e # es))) \<and>
         size_tally c h' = size_tally c h + total_size (class_members t h c (e # es))"
    using h'(6) k(5) unfolding counted_in_def cons by (simp add: total_size_def)
  have cells: "obj_cells h' ! q =
      (if q \<in> snd ` set (e # es) then end_result t (m_alloc_time h) (obj_cells h ! q) else obj_cells h ! q)"
    if "q < length (obj_cells h)" for q
    using h'(5) that k(2) Cons.prems by (auto simp: e obj_def nth_list_update)
  show ?case
    using h' k tallies cells unfolding counted_in_def by auto
qed

lemma object_pointers_distinct:
  assumes "heap_ok h"
  shows "distinct (map snd (m_objects h))" "\<forall>e \<in> set (m_objects h). snd e < length (obj_cells h)"
proof -
  have wf: "om_wf (m_objects h)" using assms by (simp add: heap_ok_def)
  have look: "map_of (m_objects h) i = Some p \<longleftrightarrow> (i, p) \<in> set (m_objects h)" for i p
    using om_wf_lookup [OF wf] .
  have "inj_on snd (set (m_objects h))"
    by (rule inj_onI) (metis assms heap_okD(2) look prod.collapse)
  then show "distinct (map snd (m_objects h))"
    using om_wf_distinct [OF wf] by (simp add: distinct_map)
  show "\<forall>e \<in> set (m_objects h). snd e < length (obj_cells h)"
    using heap_okD(1) [OF assms] by (metis look prod.collapse)
qed

lemma class_members_partition:
  "length (class_members t h END_OF_PROGRAM_REASON es) + length (class_members t h STACK es) +
   length (class_members t h HEAP es) = length es"
  by (induction es) (auto simp: class_members_def death_class_def)

text \<open>
  C6: The end of the program counts every object of the map once. On a well-formed heap
  \<open>end_of_program\<close> returns, and each of the three classes (died at the end, by the stack, by the
  heap) grows by exactly the number, and its size by exactly the bytes, of the objects of that
  class; the three counters together grow by the number of objects, and the two kinds of stack
  death still add up to the stack deaths.
\<close>
theorem end_of_program_tallies:
  assumes "heap_ok h"
  shows "\<exists>h'. end_of_program t h = Inr h' \<and>
    (\<forall>c. tally c h' = tally c h + of_nat (length (class_members t h c (m_objects h))) \<and>
         size_tally c h' = size_tally c h + total_size (class_members t h c (m_objects h))) \<and>
    m_totalDiedAtEnd h' + m_totalDiedByStack_ver2 h' + m_totalDiedByHeap_ver2 h' =
    m_totalDiedAtEnd h + m_totalDiedByStack_ver2 h + m_totalDiedByHeap_ver2 h + of_nat (length (m_objects h)) \<and>
    stack_rest h' =
    stack_rest h"
proof -
  obtain h' where h': "end_of_program t h = Inr h'"
    "\<forall>c. tally c h' = tally c h + of_nat (length (class_members t h c (m_objects h))) \<and>
         size_tally c h' = size_tally c h + total_size (class_members t h c (m_objects h))"
    "stack_rest h' =
     stack_rest h"
    using end_of_program_fold [OF object_pointers_distinct(2,1) [OF assms], of t]
    by (auto simp: end_of_program_def end_of_program_impl_def)
  have "tally END_OF_PROGRAM_REASON h' + tally STACK h' + tally HEAP h' =
     tally END_OF_PROGRAM_REASON h + tally STACK h + tally HEAP h + of_nat (length (m_objects h))"
    using h'(2) class_members_partition [of t h "m_objects h"]
    by (simp flip: of_nat_add add: algebra_simps)
  with h' show ?thesis unfolding tally.simps by blast
qed

lemma end_of_program_tallies_witness:
  "heap_ok (demo_heap HeapState_init 7 16) \<and>
   (\<exists>h'. end_of_program 9 (demo_heap HeapState_init 7 16) = Inr h' \<and> m_totalDiedAtEnd h' = 1 \<and>
     m_sizeDiedAtEnd h' = 16)"
proof -
  have ok: "heap_ok (demo_heap HeapState_init 7 16)"
    using heap_step_ok [OF demo_heap_step heap_ok_init] by blast
  have "class_members 9 (demo_heap HeapState_init 7 16) END_OF_PROGRAM_REASON
     (m_objects (demo_heap HeapState_init 7 16)) = obj_cells (demo_heap HeapState_init 7 16)"
    "length (obj_cells (demo_heap HeapState_init 7 16)) = 1"
    "total_size (obj_cells (demo_heap HeapState_init 7 16)) = 16"
    "m_totalDiedAtEnd (demo_heap HeapState_init 7 16) = 0" "m_sizeDiedAtEnd (demo_heap HeapState_init 7 16) = 0"
    by code_simp+
  then show ?thesis
    using end_of_program_tallies [OF ok, of 9] ok by (auto dest!: spec [of _ END_OF_PROGRAM_REASON])
qed

text \<open>
  C21: The end of the program marks what is left. \<open>end_of_program\<close> at time \<open>t\<close> leaves every object
  of the map that is live then with the reason, event and death-site names of the program's end,
  dead, with its death time and timestamp set to \<open>t\<close> unless it was dead already; an object that
  died before keeps everything but the heap flag that the counting may set.
\<close>
theorem end_of_program_marks:
  assumes "heap_ok h" and "map_of (m_objects h) i = Some p" and "end_of_program t h = Inr h'"
    and "obj = obj_cells h ! p" and "obj' = obj_cells h' ! p"
  shows "if isLive t obj
    then m_deadFlag obj' \<and> m_reason obj' = END_OF_PROGRAM_REASON \<and> m_last_action_time obj' = t \<and>
      m_last_event obj' = END_OF_PROGRAM_EVENT \<and> m_deathsite_name obj' = ''PROG_END'' \<and>
      m_deathTime obj' = (if m_deadFlag obj then m_deathTime obj else t) \<and>
      m_last_timestamp obj' = (if m_deadFlag obj then m_last_timestamp obj else t) \<and>
      death_class obj' = END_OF_PROGRAM_REASON
    else obj' = (if death_class obj = HEAP then setDiedByHeapFlag obj else obj)"
proof -
  have p: "p < length (obj_cells h)" "p \<in> snd ` set (m_objects h)"
    using heap_okD(1) [OF assms(1,2)] map_of_SomeD [OF assms(2)] by force+
  then have obj': "obj' = end_result t (m_alloc_time h) obj"
    using end_of_program_fold [OF object_pointers_distinct(2,1) [OF assms(1)], of t] assms(3-5)
    by (auto simp: end_of_program_def end_of_program_impl_def)
  show ?thesis
  proof (cases "isLive t obj")
    case True
    define e where "e = end_object t (m_alloc_time h) obj"
    have e: "e = mark_prog_end t (if m_deadFlag obj then obj
        else setLastTimestamp t (Object_makeDead t (m_alloc_time h) END_OF_PROGRAM_REASON obj))"
      using True by (simp add: e_def end_object_def)
    have "death_class e = END_OF_PROGRAM_REASON"
      by (simp add: death_class_def e mark_prog_end_def setter_defs)
    then show ?thesis
      using True obj' unfolding end_result_def counted_object_def e_def [symmetric]
      by (simp add: e mark_prog_end_def Object_makeDead_def setter_defs Let_def)
  next
    case False
    then have "m_deathTime obj \<noteq> t" by (auto simp: isLive_def)
    then show ?thesis
      using False obj' by (simp add: end_result_def counted_object_def end_object_def)
  qed
qed

lemma end_of_program_marks_witness:
  "\<exists>h'. end_of_program 9 (demo_heap HeapState_init 7 16) = Inr h' \<and>
     m_reason (obj_cells h' ! 0) = END_OF_PROGRAM_REASON \<and> m_deathTime (obj_cells h' ! 0) = 9"
proof -
  let ?h = "demo_heap HeapState_init 7 16"
  have ok: "heap_ok ?h"
    using heap_step_ok [OF demo_heap_step heap_ok_init] by blast
  have "\<not> isl (end_of_program 9 ?h)" by code_simp
  then obtain h' where h': "end_of_program 9 ?h = Inr h'"
    by (metis isl_def sum.exhaust)
  have "map_of (m_objects ?h) 7 = Some 0" "isLive 9 (obj_cells ?h ! 0)" "\<not> m_deadFlag (obj_cells ?h ! 0)"
    by code_simp+
  then show ?thesis
    using end_of_program_marks [OF ok _ h' refl refl, of 7 0] h' by simp
qed

section \<open>Fields\<close>

text \<open>Every edge a field refers to exists and belongs to that field alone.\<close>

definition field_edges :: "HeapState \<Rightarrow> (obj_ptr \<times> u32 \<times> edge_ptr) set" where
  "field_edges h = {(p, k, e). p < length (obj_cells h) \<and> map_of (m_fields (obj_cells h ! p)) k = Some (Some e)}"

definition edges_owned :: "HeapState \<Rightarrow> bool" where
  "edges_owned h \<longleftrightarrow>
     (\<forall>p k e. (p, k, e) \<in> field_edges h \<longrightarrow> e < length (edge_cells h) \<and> edge_cells h ! e \<noteq> None) \<and>
     (\<forall>p k e p' k'. (p, k, e) \<in> field_edges h \<longrightarrow> (p', k', e) \<in> field_edges h \<longrightarrow> p = p' \<and> k = k')"

text \<open>The heap after a field has got a new edge.\<close>

definition field_updated :: "obj_ptr \<Rightarrow> edge_ptr \<Rightarrow> u32 \<Rightarrow> HeapState \<Rightarrow> HeapState" where
  "field_updated p e k h =
     h\<lparr>edge_cells := (case map_of (m_fields (obj_cells h ! p)) k of
         Some (Some old) \<Rightarrow> (edge_cells h)[old := None] | _ \<Rightarrow> edge_cells h),
       obj_cells := (obj_cells h)[p := (obj_cells h ! p)\<lparr>m_fields := om_put k (Some e) (m_fields (obj_cells h ! p))\<rparr>]\<rparr>"

lemma updateField_run:
  assumes "edges_owned h" and "p < length (obj_cells h)"
  shows "updateField p (Some e) k h = Inr (field_updated p e k h)"
proof (cases "fst (om_index k (m_fields (obj_cells h ! p)))")
  case None
  then show ?thesis
    using assms(2)
    by (auto simp: updateField_def deref_valid upd_object_def field_updated_def om_index_def split: option.splits)
next
  case (Some o')
  then have o': "map_of (m_fields (obj_cells h ! p)) k = Some (Some o')"
    by (simp add: om_index_def split: option.splits)
  then have "(p, k, o') \<in> field_edges h" using assms(2) by (simp add: field_edges_def)
  then obtain d where "deref_edge h o' = Inr d"
    using assms(1) by (force simp: deref_edge_Inr edges_owned_def)
  then show ?thesis
    using assms(2) Some o' by (simp add: updateField_def deref_valid upd_object_def field_updated_def)
qed

lemma updateField_effect:
  assumes "edges_owned h" and "p < length (obj_cells h)" and "e < length (edge_cells h)"
    and "edge_cells h ! e \<noteq> None" and "\<forall>q j. (q, j, e) \<notin> field_edges h"
  shows "\<exists>h'. updateField p (Some e) k h = Inr h' \<and> edges_owned h' \<and> getEdge h' p k = Inr (Some e) \<and>
    (\<forall>q j. q < length (obj_cells h) \<longrightarrow> (q, j) \<noteq> (p, k) \<longrightarrow> getEdge h' q j = getEdge h q j) \<and>
    (\<forall>old. getEdge h p k = Inr (Some old) \<longrightarrow> edge_cells h' ! old = None)"
proof -
  define obj where "obj = obj_cells h ! p"
  define cs where "cs = (case map_of (m_fields obj) k of Some (Some old) \<Rightarrow> (edge_cells h)[old := None] | _ \<Rightarrow> edge_cells h)"
  define h' where "h' = h\<lparr>edge_cells := cs, obj_cells := (obj_cells h)[p := obj\<lparr>m_fields := om_put k (Some e) (m_fields obj)\<rparr>]\<rparr>"
  have valid: "d < length (edge_cells h)" "edge_cells h ! d \<noteq> None" if "(q, j, d) \<in> field_edges h" for q j d
    using that assms(1) by (auto simp: edges_owned_def)
  have owned: "q = q' \<and> j = j'" if "(q, j, d) \<in> field_edges h" "(q', j', d) \<in> field_edges h" for q j d q' j'
    using that assms(1) unfolding edges_owned_def by meson
  have old: "o' < length (edge_cells h)" "edge_cells h ! o' \<noteq> None" "o' \<noteq> e"
    if "map_of (m_fields obj) k = Some (Some o')" for o'
    using assms that by (auto simp: edges_owned_def field_edges_def obj_def)
  have run: "updateField p (Some e) k h = Inr h'"
    using updateField_run [OF assms(1,2)] by (simp add: field_updated_def h'_def cs_def obj_def)
  have fe: "field_edges h' = insert (p, k, e) {(q, j, d) \<in> field_edges h. (q, j) \<noteq> (p, k)}"
    using assms(2) by (auto simp: field_edges_def h'_def obj_def nth_list_update split: if_splits)
  have cell: "d < length (edge_cells h') \<and> edge_cells h' ! d \<noteq> None"
    if "(q, j, d) \<in> field_edges h'" for q j d
  proof -
    have "d \<noteq> o'" if o': "map_of (m_fields obj) k = Some (Some o')" for o'
    proof -
      have "(p, k, o') \<in> field_edges h"
        using o' assms(2) by (simp add: field_edges_def obj_def)
      then show ?thesis
        using \<open>(q, j, d) \<in> field_edges h'\<close> old(3) [OF o'] owned unfolding fe by fast
    qed
    moreover have "d < length (edge_cells h) \<and> edge_cells h ! d \<noteq> None"
      using that assms(3,4) valid unfolding fe by auto
    ultimately show ?thesis
      by (auto simp: h'_def cs_def split: option.splits)
  qed
  have "edges_owned h'"
    unfolding edges_owned_def
  proof (intro conjI allI impI)
    show "d < length (edge_cells h')" "edge_cells h' ! d \<noteq> None" if "(q, j, d) \<in> field_edges h'" for q j d
      using cell that by blast+
    show "q = q'" "j = j'" if "(q, j, d) \<in> field_edges h'" "(q', j', d) \<in> field_edges h'" for q j d q' j'
      using that owned assms(5) unfolding fe by auto
  qed
  moreover have "getEdge h' p k = Inr (Some e)"
    using assms(2) by (simp add: getEdge_Inr h'_def)
  moreover have "getEdge h' q j = getEdge h q j" if "q < length (obj_cells h)" "(q, j) \<noteq> (p, k)" for q j
    using that assms(2) by (auto simp: getEdge_def deref_valid h'_def obj_def nth_list_update)
  moreover have "edge_cells h' ! o' = None" if "getEdge h p k = Inr (Some o')" for o'
    using that old(1) by (auto simp: getEdge_Inr h'_def cs_def obj_def split: option.splits)
  ultimately show ?thesis using run by blast
qed

text \<open>
  A field update is safe when the edge is new. In a heap where every field owns its edge,
  \<open>updateField\<close> with an edge that exists and that no field holds returns; the field then yields
  that edge, every other field what it had, the edge the field held before is freed, and
  ownership still holds. (Updating a field with the edge it already holds frees it: the stored
  pointer dangles.)
\<close>
theorem updateField_owned:
  assumes "edges_owned h" and "p < length (obj_cells h)" and "e < length (edge_cells h)"
    and "edge_cells h ! e \<noteq> None" and "\<forall>q j. (q, j, e) \<notin> field_edges h"
  shows "\<exists>h'. updateField p (Some e) k h = Inr h' \<and> edges_owned h' \<and> getEdge h' p k = Inr (Some e) \<and>
    (\<forall>q j. q < length (obj_cells h) \<longrightarrow> (q, j) \<noteq> (p, k) \<longrightarrow> getEdge h' q j = getEdge h q j) \<and>
    (\<forall>old. getEdge h p k = Inr (Some old) \<longrightarrow> edge_cells h' ! old = None)"
  by (rule updateField_effect [OF assms])

lemma updateField_owned_witness:
  "\<exists>h'. updateField 0 (Some 0) 3 (snd (make_edge None 3 (Some 0) 5 (demo_heap HeapState_init 7 16))) = Inr h' \<and>
     getEdge h' 0 3 = Inr (Some 0)"
proof -
  let ?h = "snd (make_edge None 3 (Some 0) 5 (demo_heap HeapState_init 7 16))"
  have "length (obj_cells ?h) = 1" "length (edge_cells ?h) = 1" "m_fields (obj_cells ?h ! 0) = []"
    "edge_cells ?h ! 0 \<noteq> None"
    by code_simp+
  then have "field_edges ?h = {}" "0 < length (obj_cells ?h)" "0 < length (edge_cells ?h)" "edge_cells ?h ! 0 \<noteq> None"
    by (auto simp: field_edges_def)
  then show ?thesis
    using updateField_owned [of ?h 0 0 3] by (auto simp: edges_owned_def)
qed

section \<open>Cycles\<close>

definition later_action :: "Reason \<times> u32 \<Rightarrow> Object \<Rightarrow> Reason \<times> u32" where
  "later_action rt obj = (if snd rt < m_last_action_time obj then (m_reason obj, m_last_action_time obj) else rt)"

definition cycle_ptr :: "HeapState \<Rightarrow> int \<Rightarrow> obj_ptr" where
  "cycle_ptr h i = the (getObject h (word_of_int i))"

definition cycle_found :: "HeapState \<Rightarrow> int list \<Rightarrow> bool" where
  "cycle_found h cyc \<longleftrightarrow>
     (\<forall>i \<in> set cyc. \<exists>p. getObject h (word_of_int i) = Some p \<and> p < length (obj_cells h))"

lemma cycle_last_fold:
  "cycle_found h cyc \<Longrightarrow>
   foldR (cycle_last h) cyc rt = Inr (fold (\<lambda>i rt. later_action rt (obj_cells h ! cycle_ptr h i)) cyc rt)"
  by (induction cyc arbitrary: rt)
    (auto simp: cycle_found_def cycle_last_def cycle_object_def cycle_ptr_def deref_valid later_action_def)

lemma cycle_set_fold:
  assumes "cycle_found h cyc"
  shows "foldR (cycle_set rt) cyc h =
    Inr (fold (\<lambda>i h. h\<lparr>obj_cells := (obj_cells h)[cycle_ptr h i := setReason (fst rt) (snd rt) (obj_cells h ! cycle_ptr h i)]\<rparr>) cyc h)"
  using assms
proof (induction cyc arbitrary: h)
  case (Cons i cyc)
  let ?h = "h\<lparr>obj_cells := (obj_cells h)[cycle_ptr h i := setReason (fst rt) (snd rt) (obj_cells h ! cycle_ptr h i)]\<rparr>"
  have "cycle_set rt h i = Inr ?h"
    using Cons.prems by (auto simp: cycle_found_def cycle_set_def cycle_object_def cycle_ptr_def deref_valid upd_object_def)
  moreover have "cycle_found ?h cyc"
    using Cons.prems by (simp add: cycle_found_def getObject_def)
  ultimately show ?case using Cons.IH by simp
qed simp

lemma cycle_set_cells:
  fixes rt :: "Reason \<times> u32"
  defines "set_one \<equiv> \<lambda>i h. h\<lparr>obj_cells := (obj_cells h)[cycle_ptr h i := setReason (fst rt) (snd rt) (obj_cells h ! cycle_ptr h i)]\<rparr>"
  assumes "cycle_found h cyc" and "q < length (obj_cells h)"
  shows "m_objects (fold set_one cyc h) = m_objects h \<and> length (obj_cells (fold set_one cyc h)) = length (obj_cells h) \<and>
    obj_cells (fold set_one cyc h) ! q =
      (if q \<in> cycle_ptr h ` set cyc then setReason (fst rt) (snd rt) (obj_cells h ! q) else obj_cells h ! q)"
  using assms(2,3)
proof (induction cyc arbitrary: h)
  case (Cons i cyc)
  have "cycle_found (set_one i h) cyc"
    using Cons.prems(1) by (simp add: cycle_found_def getObject_def set_one_def)
  moreover have "q < length (obj_cells (set_one i h))"
    using Cons.prems by (simp add: set_one_def)
  moreover have "cycle_ptr (set_one i h) = cycle_ptr h"
    by (simp add: fun_eq_iff cycle_ptr_def getObject_def set_one_def)
  moreover have "m_objects (set_one i h) = m_objects h" "length (obj_cells (set_one i h)) = length (obj_cells h)"
    by (simp_all add: set_one_def)
  moreover have "obj_cells (set_one i h) ! q =
      (if q = cycle_ptr h i then setReason (fst rt) (snd rt) (obj_cells h ! q) else obj_cells h ! q)"
    using Cons.prems(2) by (auto simp: set_one_def nth_list_update)
  ultimately show ?case
    using Cons.IH [of "set_one i h"] by (auto simp: setReason_def)
qed simp

lemma later_action_fold:
  fixes objs :: "Object list" and rt :: "Reason \<times> u32"
  defines "res \<equiv> fold (\<lambda>obj rt. later_action rt obj) objs rt"
  shows "snd res = Max (insert (snd rt) (m_last_action_time ` set objs)) \<and>
    (res = rt \<or> (\<exists>obj \<in> set objs. res = (m_reason obj, m_last_action_time obj)))"
  unfolding res_def
proof (induction objs arbitrary: rt)
  case (Cons obj objs)
  have "snd (later_action rt obj) = max (snd rt) (m_last_action_time obj)"
    by (auto simp: later_action_def max_def)
  moreover have "Max (insert (max a b) S) = Max (insert a (insert b S))" if "finite S" for a b :: u32 and S
    using that by (cases "S = {}") (auto simp: max.assoc)
  ultimately have "snd (fold (\<lambda>obj rt. later_action rt obj) (obj # objs) rt) =
      Max (insert (snd rt) (m_last_action_time ` set (obj # objs)))"
    using Cons [of "later_action rt obj"] by simp
  moreover have "later_action rt obj = rt \<or> later_action rt obj = (m_reason obj, m_last_action_time obj)"
    by (simp add: later_action_def)
  ultimately show ?case
    using Cons [of "later_action rt obj"] by auto
qed simp

text \<open>
  C22: A cycle dies for the reason of its last action. When all its members are known objects,
  \<open>set_reason_for_cycles\<close> gives every member of the first cycle the largest last-action time among
  them and the reason of a member that had it (unknown if all times are 0), touches no other
  object, and goes on with the other cycles.
\<close>
theorem set_reason_for_first_cycle:
  assumes "cycle_found h cyc"
  shows "\<exists>h' r T. set_reason_for_cycles (cyc # cycles) h = set_reason_for_cycles cycles h' \<and>
    m_objects h' = m_objects h \<and>
    T = Max (insert 0 ((\<lambda>i. m_last_action_time (obj_cells h ! cycle_ptr h i)) ` set cyc)) \<and>
    (T = 0 \<and> r = UNKNOWN_REASON \<or>
     (\<exists>i \<in> set cyc. m_last_action_time (obj_cells h ! cycle_ptr h i) = T \<and> m_reason (obj_cells h ! cycle_ptr h i) = r)) \<and>
    (\<forall>q < length (obj_cells h). obj_cells h' ! q =
       (if q \<in> cycle_ptr h ` set cyc then setReason r T (obj_cells h ! q) else obj_cells h ! q))"
proof -
  define objs where "objs = map (\<lambda>i. obj_cells h ! cycle_ptr h i) cyc"
  define rt where "rt = fold (\<lambda>obj rt. later_action rt obj) objs (UNKNOWN_REASON, 0)"
  have rt_cyc: "rt = fold (\<lambda>i rt. later_action rt (obj_cells h ! cycle_ptr h i)) cyc (UNKNOWN_REASON, 0)"
    by (simp add: rt_def objs_def fold_map comp_def)
  define h' where "h' = fold (\<lambda>i h. h\<lparr>obj_cells := (obj_cells h)[cycle_ptr h i :=
      setReason (fst rt) (snd rt) (obj_cells h ! cycle_ptr h i)]\<rparr>) cyc h"
  have "cycle_reason h cyc = Inr h'"
    by (simp add: cycle_reason_def cycle_last_fold [OF assms] cycle_set_fold [OF assms] h'_def rt_cyc)
  then have "set_reason_for_cycles (cyc # cycles) h = set_reason_for_cycles cycles h'"
    by (simp add: set_reason_for_cycles_def)
  moreover have "snd rt = Max (insert 0 ((\<lambda>i. m_last_action_time (obj_cells h ! cycle_ptr h i)) ` set cyc))"
    "rt = (UNKNOWN_REASON, 0) \<or> (\<exists>i \<in> set cyc. rt = (m_reason (obj_cells h ! cycle_ptr h i), m_last_action_time (obj_cells h ! cycle_ptr h i)))"
    using later_action_fold [of objs "(UNKNOWN_REASON, 0)"] by (auto simp: rt_def objs_def image_image)
  moreover have "m_objects h' = m_objects h"
    unfolding h'_def by (induction cyc arbitrary: h) simp_all
  moreover have "\<forall>q < length (obj_cells h). obj_cells h' ! q =
       (if q \<in> cycle_ptr h ` set cyc then setReason (fst rt) (snd rt) (obj_cells h ! q) else obj_cells h ! q)"
    using cycle_set_cells [OF assms, of _ rt] by (simp add: h'_def)
  ultimately show ?thesis
    by (intro exI [of _ h'] exI [of _ "fst rt"] exI [of _ "snd rt"]) auto
qed

lemma set_reason_for_first_cycle_witness:
  "\<exists>h'. set_reason_for_cycles [[7]] (demo_heap HeapState_init 7 16) = Inr h' \<and>
     m_reason (obj_cells h' ! 0) = UNKNOWN_REASON"
proof -
  let ?h = "demo_heap HeapState_init 7 16"
  have h: "getObject ?h (word_of_int 7) = Some 0" "length (obj_cells ?h) = 1"
    "m_last_action_time (obj_cells ?h ! 0) = 0" "m_reason (obj_cells ?h ! 0) = UNKNOWN_REASON"
    by code_simp+
  then have found: "cycle_found ?h [7]" and ptr: "cycle_ptr ?h 7 = 0"
    by (simp_all add: cycle_found_def cycle_ptr_def)
  from set_reason_for_first_cycle [OF found, of "[]"] show ?thesis
    by (auto simp: ptr h set_reason_for_cycles_def setReason_def)
qed

section \<open>Node identifiers\<close>

text \<open>The map holds the identifiers \<open>0, 1, ...\<close> in the order in which they were given out.\<close>

definition node_map_ok :: "(u32 \<times> u32) list \<Rightarrow> bool" where
  "node_map_ok m \<longleftrightarrow> distinct (map fst m) \<and> map snd m = map of_nat [0..<length m] \<and> length m \<le> 2 ^ 32"

lemma node_map_lookup:
  assumes "node_map_ok m" and "map_of m x = Some n"
  shows "\<exists>k < length m. n = of_nat k \<and> fst (m ! k) = x"
proof -
  obtain k where k: "k < length m" "m ! k = (x, n)"
    using map_of_SomeD [OF assms(2)] by (auto simp: in_set_conv_nth)
  have "n = map snd m ! k" using k by simp
  also have "map snd m = map of_nat [0..<length m]"
    using assms(1) by (simp add: node_map_ok_def)
  finally have "n = of_nat k" using k(1) by simp
  then show ?thesis using k by auto
qed

lemma getNodeId_new:
  assumes "node_map_ok m" and "length m < 2 ^ 32" and "map_of m x = None" and "getNodeId x m = (n, m')"
  shows "m' = m @ [(x, of_nat (length m))]" and "n = of_nat (length m)"
proof -
  have nat: "unat (of_nat k :: u32) = k" if "k \<le> length m" for k
    using that assms(2) by (simp add: unat_of_nat take_bit_nat_eq_self)
  have "set (map snd m) = set (map of_nat [0..<length m])"
    using assms(1) by (simp only: node_map_ok_def)
  then have "snd ` set m = of_nat ` {..<length m}"
    by (simp only: set_map set_upt atLeast0LessThan)
  moreover have "(of_nat (length m) :: u32) \<noteq> of_nat k" if "k < length m" for k
    using nat [of "length m"] nat [of k] that by (metis less_imp_le nat_neq_iff order_refl)
  ultimately have "(of_nat (length m) :: u32) \<notin> snd ` set m"
    by auto
  then show "m' = m @ [(x, of_nat (length m))]" "n = of_nat (length m)"
    using assms(3,4) map_of_eq_None_iff [of m x] by (auto simp: getNodeId_def bimap_insert_def Let_def)
qed

text \<open>
  C39: Node identifiers are dense and unambiguous. From a map with fewer than \<open>2 ^ 32\<close> entries,
  \<open>getNodeId\<close> answers an identifier below the size of the new map, keeps all earlier answers, gives
  two objects the same identifier only if they are the same, and answers the same again.
\<close>
theorem getNodeId_dense:
  assumes "node_map_ok m" and "length m < 2 ^ 32" and "getNodeId x m = (n, m')"
  shows "node_map_ok m' \<and> map_of m' x = Some n \<and> unat n < length m' \<and>
    (\<forall>y k. map_of m y = Some k \<longrightarrow> map_of m' y = Some k) \<and>
    (\<forall>y. map_of m' y = Some n \<longrightarrow> y = x) \<and> getNodeId x m' = (n, m')"
proof -
  have nat: "unat (of_nat k :: u32) = k" if "k \<le> length m" for k
    using that assms(2) by (simp add: unat_of_nat take_bit_nat_eq_self)
  have old: "unat k < length m" if "map_of m y = Some k" for y k
    using node_map_lookup [OF assms(1) that] nat by auto
  have same: "y = x" if "map_of m y = Some k" "map_of m x = Some k" for y k
    using node_map_lookup [OF assms(1) that(1)] node_map_lookup [OF assms(1) that(2)] nat
    by (metis order_less_imp_le)
  show ?thesis
  proof (cases "map_of m x")
    case None
    then have fresh: "x \<notin> fst ` set m" by (simp add: map_of_eq_None_iff)
    note m' = getNodeId_new [OF assms(1,2) None assms(3)]
    have ok: "node_map_ok m'"
      using assms(1,2) fresh m' by (auto simp: node_map_ok_def)
    have look: "map_of m' y = (if y = x then Some n else map_of m y)" for y
      using m' None by (auto simp: map_add_def split: option.splits)
    have fresh_n: "map_of m y \<noteq> Some n" for y
      using old [of y n] m'(2) nat [of "length m"] by auto
    show ?thesis
    proof (intro conjI allI impI)
      show "unat n < length m'" using m' nat [of "length m"] by simp
      show "map_of m' y = Some k" if "map_of m y = Some k" for y k
        using that None by (auto simp: look)
      show "y = x" if "map_of m' y = Some n" for y
        using that fresh_n [of y] by (simp add: look split: if_splits)
    qed (simp_all add: ok look getNodeId_def)
  next
    case (Some k)
    then have m': "m' = m" "n = k" using assms(3) by (simp_all add: getNodeId_def)
    show ?thesis
      unfolding m'
    proof (intro conjI allI impI)
      show "y = x" if "map_of m y = Some k" for y using same [OF that Some] .
    qed (simp_all add: Some assms(1) old [OF Some] getNodeId_def)
  qed
qed

lemma getNodeId_dense_witness:
  "getNodeId 42 [(7, 0)] = (1, [(7, 0), (42, 1)]) \<and> map_of [(7, 0), (42, 1)] (42 :: u32) = Some (1 :: u32)"
proof -
  have eval: "getNodeId 42 [(7, 0)] = (1, [(7, 0), (42, 1)])"
    by (simp add: getNodeId_def bimap_insert_def)
  have "node_map_ok [(7, 0)]"
    by (simp add: node_map_ok_def)
  then show ?thesis
    using getNodeId_dense [OF _ _ eval] eval by simp
qed

end
