(* ===== verification/Execution.thy ===== *)
theory Execution
  imports Heap_Model
begin

text \<open>
  The execution state (\<open>simulator/execution.hpp\<close>, \<open>execution.cpp\<close>): the calling context tree, the
  threads with their method stacks, the clocks and the context counters. Nodes of the tree and
  threads are cells of stores inside \<open>ExecState\<close>; a deque of pointers to sets that nobody else
  holds is a list of sets. The back of a deque is the end of the list. Two members are read before
  anything has been stored in them: \<open>CCNode::m_done\<close> of a node made by a call, and
  \<open>Thread::m_curcc\<close>; what the memory holds there is an argument (\<open>uninit_done\<close>, \<open>uninit_cc\<close>) of the
  operations that make such an object. Messages to \<open>cout\<close> are left out (those about context pairs
  apart), not the pointers they dereference.
\<close>

section \<open>Types\<close>

datatype ExecMode = Full | StackOnly

datatype EventKind = Allocation | Death

datatype CPairType = CP_Call | CP_Return | CP_Both | CP_None

fun show_mode :: "ExecMode \<Rightarrow> string" where
  "show_mode Full = ''Full''"
| "show_mode StackOnly = ''StackOnly''"

type_synonym cc_ptr = nat
type_synonym ContextPair = "method_ptr option \<times> method_ptr option"

record CCNode =
  m_method :: "method_ptr option"
  m_parent :: "cc_ptr option"
  m_callees :: "(u32, cc_ptr) omap"
  m_done_cc :: bool
  m_simptrace :: "method_ptr list"
  m_node_id :: u32

record Thread =
  m_id_t :: u32
  m_kind_t :: ExecMode
  m_curcc :: "cc_ptr option"
  m_methods :: "method_ptr option list"
  m_locals :: "obj_ptr set list"
  m_deadlocals :: "obj_ptr set list"
  m_context :: ContextPair
  m_cptype :: CPairType
  m_rootcc :: cc_ptr

record ExecState =
  cc_cells :: "CCNode list"
  m_ccnode_nextid :: u32
  thread_cells :: "Thread list"
  m_kind_x :: ExecMode
  m_threads :: "(u32, thread_ptr) omap"
  m_meth_time :: u32
  m_methexit_time :: u32
  m_uptime :: u32
  m_alloc_time_x :: u32
  m_objAlloc2cmap :: "(obj_ptr, string) omap"
  m_objDeath2cmap :: "(obj_ptr, string) omap"
  m_thread_stack :: "thread_ptr list"
  main_func_uptime :: u32
  main_func_alloctime :: u32
  m_allocCountmap :: "(string, u32) omap"
  m_deathPairCountMap :: "(ContextPair, u32) omap"
  m_execPairCountMap :: "(ContextPair, u32) omap"

definition ExecState_new :: "ExecMode \<Rightarrow> ExecState" where
  "ExecState_new kind =
     \<lparr>cc_cells = [], m_ccnode_nextid = 1, thread_cells = [], m_kind_x = kind, m_threads = [],
      m_meth_time = 0, m_methexit_time = 0, m_uptime = 0, m_alloc_time_x = 0, m_objAlloc2cmap = [],
      m_objDeath2cmap = [], m_thread_stack = [], main_func_uptime = 0, main_func_alloctime = 0,
      m_allocCountmap = [], m_deathPairCountMap = [], m_execPairCountMap = []\<rparr>"

section \<open>Reading contexts, threads and clocks\<close>

definition CCNode_getMethod :: "CCNode \<Rightarrow> method_ptr option" where [simp]: "CCNode_getMethod = m_method"

definition CCNode_getParent :: "CCNode \<Rightarrow> cc_ptr option" where [simp]: "CCNode_getParent = m_parent"

definition CCNode_isDone :: "CCNode \<Rightarrow> bool" where [simp]: "CCNode_isDone = m_done_cc"

definition CCNode_get_node_id :: "CCNode \<Rightarrow> u32" where [simp]: "CCNode_get_node_id = m_node_id"

definition Thread_getId :: "Thread \<Rightarrow> u32" where [simp]: "Thread_getId = m_id_t"

definition Thread_getRootCCNode :: "Thread \<Rightarrow> cc_ptr" where [simp]: "Thread_getRootCCNode = m_rootcc"

definition Thread_getContextPair :: "Thread \<Rightarrow> ContextPair" where [simp]: "Thread_getContextPair = m_context"

definition Thread_getContextPairType :: "Thread \<Rightarrow> CPairType" where [simp]: "Thread_getContextPairType = m_cptype"

definition ExecState_MethNow :: "ExecState \<Rightarrow> u32" where [simp]: "ExecState_MethNow = m_meth_time"

definition ExecState_MethExitNow :: "ExecState \<Rightarrow> u32" where [simp]: "ExecState_MethExitNow = m_methexit_time"

definition ExecState_NowAlloc :: "ExecState \<Rightarrow> u32" where [simp]: "ExecState_NowAlloc = m_alloc_time_x"

definition ExecState_get_kind :: "ExecState \<Rightarrow> ExecMode" where [simp]: "ExecState_get_kind = m_kind_x"

definition ExecState_get_main_func_uptime :: "ExecState \<Rightarrow> u32" where [simp]: "ExecState_get_main_func_uptime = main_func_uptime"

definition ExecState_get_main_func_alloctime :: "ExecState \<Rightarrow> u32" where [simp]: "ExecState_get_main_func_alloctime = main_func_alloctime"

definition CCNode_setDone :: "CCNode \<Rightarrow> bool \<times> CCNode" where
  "CCNode_setDone node = (True, node\<lparr>m_done_cc := True\<rparr>)"

text \<open>The identifier of the next node; the counter is shared by all nodes.\<close>

definition get_next_node_id :: "ExecState \<Rightarrow> u32 \<times> ExecState" where [simp]:
  "get_next_node_id x = (m_ccnode_nextid x, x\<lparr>m_ccnode_nextid := m_ccnode_nextid x + 1\<rparr>)"

text \<open>The two lines of debugging output about a context pair.\<close>

definition cpair_names :: "ClassInfo \<Rightarrow> ContextPair \<Rightarrow> string result" where
  "cpair_names ci cpair =
     (let (m1, m2) = cpair
      in bindR (if m1 = None then Inr ''NONAME1'' else Method_getName ci m1) (\<lambda>method1.
         bindR (if m2 = None then Inr ''NONAME2'' else Method_getName ci m2) (\<lambda>method2.
         Inr (''[ '' @ method1 @ '', '' @ method2 @ '']''))))"

definition Thread_debug_cpair :: "ClassInfo \<Rightarrow> ContextPair \<Rightarrow> string \<Rightarrow> string result" where
  "Thread_debug_cpair ci cpair ptype =
     bindR (cpair_names ci cpair) (\<lambda>names. Inr (''CPAIR-dbg< '' @ ptype @ '' >'' @ names @ [CHR 0x0A]))"

definition ExecState_debug_cpair :: "ClassInfo \<Rightarrow> ContextPair \<Rightarrow> Object \<Rightarrow> string result" where
  "ExecState_debug_cpair ci cpair obj =
     bindR (cpair_names ci cpair) (\<lambda>names.
     Inr (''CPAIR-update< '' @ Object_getType obj @ '' >'' @ names @ [CHR 0x0A]))"

section \<open>Clocks\<close>

definition NowUp :: "ExecState \<Rightarrow> u32" where
  "NowUp x = m_uptime x + m_methexit_time x + m_meth_time x"

definition SetAllocTime :: "u32 \<Rightarrow> ExecState \<Rightarrow> ExecState" where
  "SetAllocTime newtime x = x\<lparr>m_alloc_time_x := newtime\<rparr>"

definition SetUpdateTime :: "u32 \<Rightarrow> ExecState \<Rightarrow> ExecState" where
  "SetUpdateTime newutime x = x\<lparr>m_uptime := newutime\<rparr>"

definition IncUpdateTime :: "ExecState \<Rightarrow> ExecState" where
  "IncUpdateTime x = x\<lparr>m_uptime := m_uptime x + 1\<rparr>"

definition IncMethodTime :: "ExecState \<Rightarrow> ExecState" where
  "IncMethodTime x = x\<lparr>m_meth_time := m_meth_time x + 1\<rparr>"

definition IncMethodExitTime :: "ExecState \<Rightarrow> ExecState" where
  "IncMethodExitTime x = x\<lparr>m_methexit_time := m_methexit_time x + 1\<rparr>"

definition set_main_func_uptime :: "u32 \<Rightarrow> ExecState \<Rightarrow> ExecState" where
  "set_main_func_uptime new_uptime x = x\<lparr>main_func_uptime := new_uptime\<rparr>"

definition set_main_func_alloctime :: "u32 \<Rightarrow> ExecState \<Rightarrow> ExecState" where
  "set_main_func_alloctime new_alloctime x = x\<lparr>main_func_alloctime := new_alloctime\<rparr>"

definition setContextPairType :: "CPairType \<Rightarrow> Thread \<Rightarrow> Thread" where
  "setContextPairType cptype th = th\<lparr>m_cptype := cptype\<rparr>"

definition UpdateObj2AllocContext :: "obj_ptr \<Rightarrow> string \<Rightarrow> ExecState \<Rightarrow> ExecState" where
  "UpdateObj2AllocContext p alloc_site x = x\<lparr>m_objAlloc2cmap := om_put p alloc_site (m_objAlloc2cmap x)\<rparr>"

text \<open>\<open>m[k]++\<close> on a map of counters.\<close>

definition bump :: "'k::linorder \<Rightarrow> ('k, u32) omap \<Rightarrow> ('k, u32) omap" where
  "bump k m = om_put k ((case map_of m k of None \<Rightarrow> 0 | Some n \<Rightarrow> n) + 1) m"

definition deque_at :: "'a list \<Rightarrow> nat \<Rightarrow> 'a result" where
  "deque_at d i = (if i < length d then Inr (d ! i) else Inl Out_Of_Bounds)"

definition IncCallContext :: "method_ptr option list \<Rightarrow> ExecState \<Rightarrow> ExecState result" where
  "IncCallContext top_2_methods x =
     bindR (deque_at top_2_methods 0) (\<lambda>a.
     bindR (deque_at top_2_methods 1) (\<lambda>b.
     Inr (x\<lparr>m_execPairCountMap := bump (a, b) (m_execPairCountMap x)\<rparr>)))"

section \<open>The calling context tree\<close>

text \<open>The constructors: the root node, and the node of a callee.\<close>

definition CCNode_root :: "ExecState \<Rightarrow> cc_ptr \<times> ExecState" where
  "CCNode_root x =
     (let (node_id, x) = get_next_node_id x
      in (length (cc_cells x),
          x\<lparr>cc_cells := cc_cells x @ [\<lparr>m_method = None, m_parent = None, m_callees = [], m_done_cc = False,
                                       m_simptrace = [], m_node_id = node_id\<rparr>]\<rparr>))"

definition CCNode_new :: "bool \<Rightarrow> cc_ptr \<Rightarrow> method_ptr option \<Rightarrow> ExecState \<Rightarrow> cc_ptr \<times> ExecState" where
  "CCNode_new uninit_done parent m x =
     (let (node_id, x) = get_next_node_id x
      in (length (cc_cells x),
          x\<lparr>cc_cells := cc_cells x @ [\<lparr>m_method = m, m_parent = Some parent, m_callees = [],
                                       m_done_cc = uninit_done, m_simptrace = [], m_node_id = node_id\<rparr>]\<rparr>))"

definition CCNode_Call ::
  "ClassInfo \<Rightarrow> bool \<Rightarrow> cc_ptr \<Rightarrow> method_ptr option \<Rightarrow> ExecState \<Rightarrow> (cc_ptr \<times> ExecState) result" where
  "CCNode_Call ci uninit_done p m x =
     bindR (deref (cc_cells x) p) (\<lambda>node.
     bindR (method_at ci m) (\<lambda>meth.
     case map_of (m_callees node) (m_id meth) of
       Some q \<Rightarrow> Inr (q, x)
     | None \<Rightarrow>
         (let (q, x) = CCNode_new uninit_done p m x in
          Inr (q, x\<lparr>cc_cells := (cc_cells x)[p := node\<lparr>m_callees := om_put (m_id meth) q (m_callees node)\<rparr>]\<rparr>))))"

text \<open>A return from another method than the node's is reported, with the names of both.\<close>

definition CCNode_Return ::
  "ClassInfo \<Rightarrow> cc_ptr \<Rightarrow> method_ptr option \<Rightarrow> ExecState \<Rightarrow> cc_ptr option result" where
  "CCNode_Return ci p m x =
     bindR (deref (cc_cells x) p) (\<lambda>node.
     bindR (if m_method node \<noteq> m
            then bindR (Method_info ci m) (\<lambda>_. bindR (Method_info ci (m_method node)) (\<lambda>_. Inr ()))
            else Inr ()) (\<lambda>_.
     Inr (m_parent node)))"

definition getMethodId :: "ClassInfo \<Rightarrow> CCNode \<Rightarrow> u32 result" where
  "getMethodId ci node =
     (case CCNode_getMethod node of
        None \<Rightarrow> Inr 0
      | Some m \<Rightarrow> bindR (method_at ci (Some m)) (\<lambda>meth. Inr (m_id meth)))"

definition CCNode_info :: "ClassInfo \<Rightarrow> CCNode \<Rightarrow> string result" where
  "CCNode_info ci node =
     (case m_method node of None \<Rightarrow> Inr ''ROOT'' | Some m \<Rightarrow> Method_info ci (Some m))"

text \<open>
  The loops that climb to the root. They follow parent pointers, which nothing in the types keeps
  from running in a circle: None is a loop that does not end. \<open>climb_up\<close> runs the body of the loop
  on every node from \<open>cur\<close> up.
\<close>

partial_function (option) climb_up ::
  "CCNode list \<Rightarrow> ('s \<Rightarrow> CCNode \<Rightarrow> 's result) \<Rightarrow> cc_ptr option \<Rightarrow> 's \<Rightarrow> 's result option" where
  "climb_up cells body cur s =
     (case cur of
        None \<Rightarrow> Some (Inr s)
      | Some p \<Rightarrow>
          (case deref cells p of
             Inl e \<Rightarrow> Some (Inl e)
           | Inr node \<Rightarrow>
               (case body s node of
                  Inl e \<Rightarrow> Some (Inl e)
                | Inr s' \<Rightarrow> climb_up cells body (m_parent node) s')))"

declare climb_up.simps [code]

definition CCNode_stacktrace :: "ClassInfo \<Rightarrow> cc_ptr \<Rightarrow> ExecState \<Rightarrow> string result option" where
  "CCNode_stacktrace ci p x =
     climb_up (cc_cells x)
       (\<lambda>s node. bindR (CCNode_info ci node) (\<lambda>i. Inr (s @ i @ [CHR 0x0A]))) (Some p) []"

text \<open>As in the source, every round pushes the identifier of the node the trace is asked of.\<close>

definition CCNode_stacktrace_using_id :: "ClassInfo \<Rightarrow> cc_ptr \<Rightarrow> ExecState \<Rightarrow> u32 list result option" where
  "CCNode_stacktrace_using_id ci p x =
     (case deref (cc_cells x) p of
        Inl e \<Rightarrow> Some (Inl e)
      | Inr this \<Rightarrow>
          climb_up (cc_cells x) (\<lambda>ids node. bindR (getMethodId ci this) (\<lambda>i. Inr (i # ids))) (Some p) [])"

partial_function (option) simple_stacktrace ::
  "cc_ptr \<Rightarrow> CCNode list \<Rightarrow> (method_ptr list \<times> CCNode list) result option" where
  "simple_stacktrace p cells =
     (case deref cells p of
        Inl e \<Rightarrow> Some (Inl e)
      | Inr this \<Rightarrow>
          (if m_done_cc this then Some (Inr (m_simptrace this, cells))
           else
             (case m_method this of
                None \<Rightarrow> Some (Inl Assertion_Failed)
              | Some mptr \<Rightarrow>
                  Option.bind
                    (case m_parent this of
                       None \<Rightarrow> Some (Inr ([], cells))
                     | Some parent \<Rightarrow> simple_stacktrace parent cells)
                    (\<lambda>r. Some (case r of
                        Inl e \<Rightarrow> Inl e
                      | Inr (rest, cells) \<Rightarrow>
                          Inr (mptr # rest,
                            cells[p := (cells ! p)\<lparr>m_done_cc := True, m_simptrace := mptr # rest\<rparr>]))))))"

declare simple_stacktrace.simps [code]

partial_function (option) simple_cc_equal :: "CCNode list \<Rightarrow> cc_ptr \<Rightarrow> cc_ptr \<Rightarrow> bool result option" where
  "simple_cc_equal cells p q =
     (case deref cells p of
        Inl e \<Rightarrow> Some (Inl e)
      | Inr this \<Rightarrow>
          (case deref cells q of
             Inl e \<Rightarrow> Some (Inl e)
           | Inr other \<Rightarrow>
               (if m_method this \<noteq> m_method other then Some (Inr False)
                else
                  (case m_parent this of
                     None \<Rightarrow> Some (Inr (m_parent other = None))
                   | Some p' \<Rightarrow>
                       (case m_parent other of
                          None \<Rightarrow> Some (Inr False)
                        | Some q' \<Rightarrow> simple_cc_equal cells p' q')))))"

declare simple_cc_equal.simps [code]

section \<open>Threads\<close>

text \<open>\<open>ExecState::getThread\<close> makes the thread, with its root node, the first time it is asked for.\<close>

definition Thread_new :: "u32 \<Rightarrow> ExecMode \<Rightarrow> cc_ptr option \<Rightarrow> cc_ptr \<Rightarrow> Thread" where
  "Thread_new i kind uninit_cc root =
     \<lparr>m_id_t = i, m_kind_t = kind, m_curcc = uninit_cc, m_methods = [], m_locals = [{}],
      m_deadlocals = [{}], m_context = (None, None), m_cptype = CP_None, m_rootcc = root\<rparr>"

definition getThread :: "cc_ptr option \<Rightarrow> u32 \<Rightarrow> ExecState \<Rightarrow> thread_ptr \<times> ExecState" where
  "getThread uninit_cc threadid x =
     (case map_of (m_threads x) threadid of
        Some tp \<Rightarrow> (tp, x)
      | None \<Rightarrow>
          (let (root, x) = CCNode_root x; tp = length (thread_cells x) in
           (tp, x\<lparr>thread_cells := thread_cells x @ [Thread_new threadid (m_kind_x x) uninit_cc root],
                  m_threads := om_put threadid tp (m_threads x)\<rparr>)))"

definition setContextPair :: "ContextPair \<Rightarrow> CPairType \<Rightarrow> Thread \<Rightarrow> Thread" where
  "setContextPair cpair cptype th = th\<lparr>m_context := cpair, m_cptype := cptype\<rparr>"

text \<open>\<open>TopCC\<close> answers NULL when the mode is not \<open>Full\<close>.\<close>

definition Thread_TopCC :: "Thread \<Rightarrow> cc_ptr option result" where
  "Thread_TopCC th =
     (case m_kind_t th of
        Full \<Rightarrow> bindR (assertR (m_curcc th \<noteq> None)) (\<lambda>_. Inr (m_curcc th))
      | StackOnly \<Rightarrow> Inr None)"

definition Thread_TopMethod :: "CCNode list \<Rightarrow> Thread \<Rightarrow> method_ptr option result" where
  "Thread_TopMethod cells th =
     (case m_kind_t th of
        Full \<Rightarrow> bindR (Thread_TopCC th) (\<lambda>cc. bindR (derefN cells cc) (\<lambda>node. Inr (m_method node)))
      | StackOnly \<Rightarrow> Inr (if m_methods th \<noteq> [] then last (m_methods th) else None))"

definition Thread_TopMethod_num :: "nat \<Rightarrow> Thread \<Rightarrow> method_ptr option result" where
  "Thread_TopMethod_num num th =
     (case m_kind_t th of
        Full \<Rightarrow> Inl Assertion_Failed
      | StackOnly \<Rightarrow>
          (let mysize = length (m_methods th) in
           Inr (if num < mysize then m_methods th ! (mysize - num - 1) else None)))"

text \<open>\<open>while (count < bound) result.push_back(TopMethod(count++))\<close>\<close>

function push_methods :: "Thread \<Rightarrow> nat \<Rightarrow> nat \<Rightarrow> method_ptr option list \<Rightarrow> method_ptr option list result" where
  "push_methods th bound cnt result =
     (if cnt < bound
      then bindR (Thread_TopMethod_num cnt th) (\<lambda>m. push_methods th bound (cnt + 1) (result @ [m]))
      else Inr result)"
  by pat_completeness auto
termination
  by (relation "measure (\<lambda>(th, bound, cnt, result). bound - cnt)") auto

declare push_methods.simps [simp del]

definition top_N_methods :: "nat \<Rightarrow> Thread \<Rightarrow> method_ptr option list result" where
  "top_N_methods N th =
     bindR (assertR (1 < N)) (\<lambda>_.
     case m_kind_t th of
       Full \<Rightarrow> Inl Assertion_Failed
     | StackOnly \<Rightarrow>
         bindR (push_methods th (min N (length (m_methods th))) 0 []) (\<lambda>result.
         Inr (result @ replicate (N - min N (length (m_methods th))) None)))"

definition full_method_stack :: "Thread \<Rightarrow> method_ptr option list result" where
  "full_method_stack th =
     (case m_kind_t th of
        Full \<Rightarrow> Inl Assertion_Failed
      | StackOnly \<Rightarrow> push_methods th (length (m_methods th)) 0 [])"

definition is_javalib_method :: "string \<Rightarrow> bool" where
  "is_javalib_method methname =
     (take 5 methname = ''java/'' \<or> take 4 methname = ''sun/'' \<or>
      take 8 methname = ''com/sun/'' \<or> take 8 methname = ''com/ibm/'')"

definition name_or :: "string \<Rightarrow> ClassInfo \<Rightarrow> method_ptr option \<Rightarrow> string result" where
  "name_or nothing ci m = (case m of None \<Rightarrow> Inr nothing | Some p \<Rightarrow> Method_getName ci (Some p))"

function javalib_loop :: "ClassInfo \<Rightarrow> Thread \<Rightarrow> nat \<Rightarrow> method_ptr option list \<Rightarrow> method_ptr option list result" where
  "javalib_loop ci th cnt result =
     (if cnt < length (m_methods th) then
        bindR (Thread_TopMethod_num cnt th) (\<lambda>mptr.
        bindR (name_or ''NULL_METHOD'' ci mptr) (\<lambda>mname.
        if \<not> is_javalib_method mname then Inr (result @ [mptr])
        else javalib_loop ci th (cnt + 1) (result @ [mptr])))
      else Inr result)"
  by pat_completeness auto
termination
  by (relation "measure (\<lambda>(ci, th, cnt, result). length (m_methods th) - cnt)") auto

declare javalib_loop.simps [simp del]

definition top_javalib_methods :: "ClassInfo \<Rightarrow> Thread \<Rightarrow> method_ptr option list result" where
  "top_javalib_methods ci th =
     (case m_kind_t th of
        Full \<Rightarrow> Inl Assertion_Failed
      | StackOnly \<Rightarrow>
          bindR (javalib_loop ci th 0 []) (\<lambda>result. Inr (if result = [] then [None] else result)))"

definition TopLocalVarSet :: "Thread \<Rightarrow> obj_ptr set option" where
  "TopLocalVarSet th =
     (case m_kind_t th of
        Full \<Rightarrow> None
      | StackOnly \<Rightarrow> if m_deadlocals th \<noteq> [] then Some (last (m_deadlocals th)) else None)"

definition Thread_stacktrace :: "ClassInfo \<Rightarrow> ExecState \<Rightarrow> Thread \<Rightarrow> string result option" where
  "Thread_stacktrace ci x th =
     (case m_kind_t th of
        Full \<Rightarrow>
          (case Thread_TopCC th of
             Inl e \<Rightarrow> Some (Inl e)
           | Inr None \<Rightarrow> Some (Inl Null_Pointer)
           | Inr (Some p) \<Rightarrow> CCNode_stacktrace ci p x)
      | StackOnly \<Rightarrow>
          Some (if m_methods th \<noteq> []
                then foldR (\<lambda>s m. bindR (Method_info ci m) (\<lambda>i. Inr (s @ i @ [CHR 0x0A]))) (m_methods th) []
                else Inr ''<empty>''))"

definition Thread_stacktrace_using_id :: "ClassInfo \<Rightarrow> ExecState \<Rightarrow> Thread \<Rightarrow> u32 list result option" where
  "Thread_stacktrace_using_id ci x th =
     (case m_kind_t th of
        Full \<Rightarrow>
          (case Thread_TopCC th of
             Inl e \<Rightarrow> Some (Inl e)
           | Inr None \<Rightarrow> Some (Inl Null_Pointer)
           | Inr (Some p) \<Rightarrow> CCNode_stacktrace_using_id ci p x)
      | StackOnly \<Rightarrow> Some (Inl Assertion_Failed))"

definition objectRoot :: "obj_ptr \<Rightarrow> Thread \<Rightarrow> Thread" where
  "objectRoot p th =
     (if m_locals th \<noteq> []
      then th\<lparr>m_locals := butlast (m_locals th) @ [insert p (last (m_locals th))]\<rparr>
      else th)"

definition isLocalVariable :: "obj_ptr \<Rightarrow> Thread \<Rightarrow> bool" where
  "isLocalVariable p th = (m_locals th \<noteq> [] \<and> p \<in> last (m_locals th))"

section \<open>Calls and returns\<close>

text \<open>What a call and a return do to the stacks of a thread in the mode \<open>StackOnly\<close>.\<close>

definition push_method :: "method_ptr option \<Rightarrow> Thread \<Rightarrow> Thread" where
  "push_method m th =
     (let cpair = (if m_methods th \<noteq> [] then (last (m_methods th), m) else (None, m));
          th = setContextPair cpair CP_Call th
      in th\<lparr>m_methods := m_methods th @ [m], m_locals := m_locals th @ [{}],
            m_deadlocals := m_deadlocals th @ [{}]\<rparr>)"

definition pop_method :: "Thread \<Rightarrow> Thread result" where
  "pop_method th =
     (let cur = last (m_methods th);
          th = th\<lparr>m_methods := butlast (m_methods th)\<rparr>;
          cpair = (if m_methods th \<noteq> [] then (cur, last (m_methods th)) else (cur, None));
          th = setContextPair cpair CP_Return th
      in bindR (deque_at (m_locals th) 0) (\<lambda>_.
         bindR (deque_at (m_deadlocals th) 0) (\<lambda>_.
         Inr (th\<lparr>m_locals := butlast (m_locals th), m_deadlocals := butlast (m_deadlocals th)\<rparr>))))"

definition set_thread :: "thread_ptr \<Rightarrow> Thread \<Rightarrow> ExecState \<Rightarrow> ExecState" where
  "set_thread tp th x = x\<lparr>thread_cells := (thread_cells x)[tp := th]\<rparr>"

definition Thread_Call ::
  "ClassInfo \<Rightarrow> bool \<Rightarrow> method_ptr option \<Rightarrow> thread_ptr \<Rightarrow> ExecState \<Rightarrow> ExecState result" where
  "Thread_Call ci uninit_done m tp x =
     bindR (deref (thread_cells x) tp) (\<lambda>th.
     case m_kind_t th of
       Full \<Rightarrow>
         bindR (Thread_TopCC th) (\<lambda>cur.
         case cur of
           None \<Rightarrow> Inl Null_Pointer
         | Some c \<Rightarrow>
             bindR (CCNode_Call ci uninit_done c m x) (\<lambda>(q, x).
             Inr (set_thread tp (th\<lparr>m_curcc := Some q\<rparr>) x)))
     | StackOnly \<Rightarrow>
         (let th = push_method m th; x = set_thread tp th x in
          bindR (top_N_methods 2 th) (\<lambda>top2meth. IncCallContext top2meth x)))"

definition Thread_Return ::
  "ClassInfo \<Rightarrow> method_ptr option \<Rightarrow> thread_ptr \<Rightarrow> ExecState \<Rightarrow> ExecState result" where
  "Thread_Return ci m tp x =
     bindR (deref (thread_cells x) tp) (\<lambda>th.
     case m_kind_t th of
       Full \<Rightarrow>
         bindR (Thread_TopCC th) (\<lambda>cur.
         bindR (derefN (cc_cells x) cur) (\<lambda>node.
         if m_method node \<noteq> None
         then bindR (CCNode_Return ci (the cur) m x) (\<lambda>up. Inr (set_thread tp (th\<lparr>m_curcc := up\<rparr>) x))
         else bindR (Method_info ci m) (\<lambda>_. Inr (set_thread tp (th\<lparr>m_curcc := cur\<rparr>) x))))
     | StackOnly \<Rightarrow>
         (if m_methods th \<noteq> [] then bindR (pop_method th) (\<lambda>th. Inr (set_thread tp th x))
          else bindR (Method_info ci m) (\<lambda>_. Inr x)))"

text \<open>
  The operations of \<open>ExecState\<close>. \<open>uninit_cc\<close> and \<open>uninit_done\<close> are the uninitialised members of
  the thread and the node that the call may make.
\<close>

definition Exec_Call ::
  "ClassInfo \<Rightarrow> cc_ptr option \<Rightarrow> bool \<Rightarrow> method_ptr option \<Rightarrow> u32 \<Rightarrow> ExecState \<Rightarrow> ExecState result" where
  "Exec_Call ci uninit_cc uninit_done m threadid x =
     (let (tp, x) = getThread uninit_cc threadid (IncMethodTime x) in
      bindR (Thread_Call ci uninit_done m tp x) (\<lambda>x.
      Inr (x\<lparr>m_thread_stack := m_thread_stack x @ [tp]\<rparr>)))"

definition Exec_Return ::
  "ClassInfo \<Rightarrow> cc_ptr option \<Rightarrow> method_ptr option \<Rightarrow> u32 \<Rightarrow> ExecState \<Rightarrow> ExecState result" where
  "Exec_Return ci uninit_cc m threadid x =
     (let x = IncMethodExitTime x;
          x = x\<lparr>m_thread_stack := butlast (m_thread_stack x)\<rparr>;
          (tp, x) = getThread uninit_cc threadid x
      in Thread_Return ci m tp x)"

definition Exec_TopMethod :: "cc_ptr option \<Rightarrow> u32 \<Rightarrow> ExecState \<Rightarrow> (method_ptr option \<times> ExecState) result" where
  "Exec_TopMethod uninit_cc threadid x =
     (let (tp, x) = getThread uninit_cc threadid x in
      bindR (deref (thread_cells x) tp) (\<lambda>th.
      bindR (Thread_TopMethod (cc_cells x) th) (\<lambda>m. Inr (m, x))))"

definition Exec_TopMethod_num ::
  "cc_ptr option \<Rightarrow> u32 \<Rightarrow> nat \<Rightarrow> ExecState \<Rightarrow> (method_ptr option \<times> ExecState) result" where
  "Exec_TopMethod_num uninit_cc threadid num x =
     (let (tp, x) = getThread uninit_cc threadid x in
      bindR (deref (thread_cells x) tp) (\<lambda>th.
      bindR (Thread_TopMethod_num num th) (\<lambda>m. Inr (m, x))))"

definition Exec_TopCC :: "cc_ptr option \<Rightarrow> u32 \<Rightarrow> ExecState \<Rightarrow> (cc_ptr option \<times> ExecState) result" where
  "Exec_TopCC uninit_cc threadid x =
     (let (tp, x) = getThread uninit_cc threadid x in
      bindR (deref (thread_cells x) tp) (\<lambda>th.
      bindR (Thread_TopCC th) (\<lambda>cc. Inr (cc, x))))"

definition get_last_thread :: "ExecState \<Rightarrow> thread_ptr option" where
  "get_last_thread x = (if m_thread_stack x \<noteq> [] then Some (last (m_thread_stack x)) else None)"

section \<open>Death contexts\<close>

text \<open>
  \<open>UpdateObj2DeathContext\<close>. One round of its loops stores a method at the level \<open>count\<close> of the
  object's death site; both loops have this body, the second with NULL for the method. The deque is
  passed by reference, so what is left of it is part of the result.
\<close>

type_synonym context_state = "HeapState \<times> ExecState \<times> method_ptr option list"

definition death_context_round ::
  "ClassInfo \<Rightarrow> obj_ptr \<Rightarrow> nat \<Rightarrow> method_ptr option \<Rightarrow> context_state \<Rightarrow> (string \<times> context_state) result" where
  "death_context_round ci p cnt next_method st =
     (let (h, x, top_2_methods) = st in
      bindR (name_or ''NULL_METHOD'' ci next_method) (\<lambda>next_name.
      bindR (deref (obj_cells h) p) (\<lambda>obj.
      bindR (setDeathSite next_method cnt obj) (\<lambda>obj.
      bindR (setDeathContextSiteName next_name cnt obj) (\<lambda>obj.
      Inr (next_name,
           h\<lparr>obj_cells := (obj_cells h)[p := obj]\<rparr>,
           (if cnt = 1 then x\<lparr>m_objDeath2cmap := om_put p next_name (m_objDeath2cmap x)\<rparr> else x),
           (if cnt = 1 \<or> cnt = 2 then top_2_methods @ [next_method] else top_2_methods)))))))"

definition set_nonJavaLib_death_context :: "obj_ptr \<Rightarrow> string \<Rightarrow> HeapState \<Rightarrow> HeapState result" where
  "set_nonJavaLib_death_context p name h = upd_object p (\<lambda>obj. obj\<lparr>m_nonjavalib_death_context := name\<rparr>) h"

text \<open>The loop answers \<open>count\<close>, \<open>nonjava_flag\<close>, the rest of the deque and the state.\<close>

fun death_context_loop ::
  "ClassInfo \<Rightarrow> obj_ptr \<Rightarrow> nat \<Rightarrow> method_ptr option list \<Rightarrow> context_state \<Rightarrow>
   (nat \<times> bool \<times> method_ptr option list \<times> context_state) result" where
  "death_context_loop ci p cnt [] st = Inr (cnt, False, [], st)"
| "death_context_loop ci p cnt (next_method # methdeque) st =
     (if cnt < 2 then
        bindR (death_context_round ci p (cnt + 1) next_method st) (\<lambda>(next_name, h, x, top2).
        if \<not> is_javalib_method next_name
        then bindR (set_nonJavaLib_death_context p next_name h) (\<lambda>h.
             Inr (cnt + 1, True, methdeque, h, x, top2))
        else death_context_loop ci p (cnt + 1) methdeque (h, x, top2))
      else Inr (cnt, False, next_method # methdeque, st))"

definition UpdateObj2DeathContext ::
  "ClassInfo \<Rightarrow> obj_ptr \<Rightarrow> method_ptr option list \<Rightarrow> HeapState \<Rightarrow> ExecState \<Rightarrow>
   (HeapState \<times> ExecState \<times> method_ptr option list) result" where
  "UpdateObj2DeathContext ci p methdeque h x =
     bindR (death_context_loop ci p 0 methdeque (h, x, [])) (\<lambda>(cnt, nonjava_flag, methdeque, st).
     bindR (if \<not> nonjava_flag \<and> cnt < 2
            then bindR (death_context_loop ci p cnt (replicate (2 - cnt) None) st)
                   (\<lambda>(cnt, nonjava_flag, _, st). Inr (nonjava_flag, st))
            else Inr (nonjava_flag, st)) (\<lambda>(nonjava_flag, h, x, top_2_methods).
     bindR (if \<not> nonjava_flag
            then bindR (if methdeque \<noteq> [] then name_or ''NULL_METHOD'' ci (last methdeque) else Inr ''NULL_METHOD'')
                   (\<lambda>last_name. set_nonJavaLib_death_context p last_name h)
            else Inr h) (\<lambda>h.
     bindR (deque_at top_2_methods 0) (\<lambda>a.
     bindR (deque_at top_2_methods 1) (\<lambda>b.
     Inr (h, x\<lparr>m_deathPairCountMap := bump (a, b) (m_deathPairCountMap x)\<rparr>, methdeque))))))"

section \<open>Reading the stack\<close>

text \<open>In the mode \<open>StackOnly\<close> the stack of a thread, top first, is the deque of methods reversed.\<close>

definition thread_ok :: "Thread \<Rightarrow> bool" where
  "thread_ok th \<longleftrightarrow> m_kind_t th = StackOnly \<and> length (m_locals th) = Suc (length (m_methods th)) \<and>
     length (m_deadlocals th) = Suc (length (m_methods th))"

definition stack :: "Thread \<Rightarrow> method_ptr option list" where
  "stack th = rev (m_methods th)"

definition top_of :: "'a option list \<Rightarrow> 'a option" where
  "top_of s = (case s of [] \<Rightarrow> None | m # _ \<Rightarrow> m)"

named_theorems stack_simps \<open>how the operations on a thread return in the mode StackOnly\<close>

lemma thread_ok_kind: "thread_ok th \<Longrightarrow> m_kind_t th = StackOnly"
  by (simp add: thread_ok_def)

lemma stack_length [simp]: "length (stack th) = length (m_methods th)"
  by (simp add: stack_def)

lemma TopMethod_num_stack [stack_simps]:
  "m_kind_t th = StackOnly \<Longrightarrow>
   Thread_TopMethod_num k th = Inr (if k < length (m_methods th) then stack th ! k else None)"
  by (simp add: Thread_TopMethod_num_def Let_def stack_def rev_nth)

lemma TopMethod_stack [stack_simps]:
  "m_kind_t th = StackOnly \<Longrightarrow> Thread_TopMethod cells th = Inr (top_of (stack th))"
  by (cases "m_methods th" rule: rev_cases) (auto simp: Thread_TopMethod_def top_of_def stack_def)

lemma push_methods_stack:
  "m_kind_t th = StackOnly \<Longrightarrow> bound \<le> length (m_methods th) \<Longrightarrow>
   push_methods th bound k res = Inr (res @ drop k (take bound (stack th)))"
proof (induction th bound k res rule: push_methods.induct)
  case (1 th bound k res)
  show ?case
  proof (cases "k < bound")
    case True
    then have "drop k (take bound (stack th)) = stack th ! k # drop (Suc k) (take bound (stack th))"
      using "1.prems" by (simp flip: Cons_nth_drop_Suc)
    then show ?thesis
      using 1 True by (subst push_methods.simps) (simp add: TopMethod_num_stack)
  next
    case False
    then show ?thesis by (subst push_methods.simps) simp
  qed
qed

lemma top_N_methods_stack [stack_simps]:
  assumes "m_kind_t th = StackOnly" and "1 < N"
  shows "top_N_methods N th = Inr (take N (stack th @ replicate N None))"
  using assms by (simp add: top_N_methods_def push_methods_stack min_def)

lemma javalib_loop_stack:
  assumes "m_kind_t th = StackOnly" and "\<forall>m \<in> set (m_methods th). name_or ''NULL_METHOD'' ci m = Inr (name m)"
  shows "javalib_loop ci th k res =
    Inr (res @ takeWhile (\<lambda>m. is_javalib_method (name m)) (drop k (stack th)) @
         take 1 (dropWhile (\<lambda>m. is_javalib_method (name m)) (drop k (stack th))))"
  using assms
proof (induction ci th k res rule: javalib_loop.induct)
  case (1 ci th k res)
  show ?case
  proof (cases "k < length (m_methods th)")
    case True
    then have "stack th ! k \<in> set (m_methods th)"
      using nth_mem [of k "stack th"] by (simp add: stack_def)
    then have "name_or ''NULL_METHOD'' ci (stack th ! k) = Inr (name (stack th ! k))"
      using "1.prems"(2) by blast
    moreover have "drop k (stack th) = stack th ! k # drop (Suc k) (stack th)"
      using True by (simp add: Cons_nth_drop_Suc)
    ultimately show ?thesis
      using 1 True by (subst javalib_loop.simps) (simp add: TopMethod_num_stack)
  next
    case False
    then show ?thesis by (subst javalib_loop.simps) simp
  qed
qed

text \<open>
  C23: The views of a stack. For a thread of the mode \<open>StackOnly\<close>, \<open>top_N_methods\<close> is the first \<open>N\<close>
  methods from the top padded with NULL, \<open>full_method_stack\<close> is the whole stack from the top,
  \<open>TopMethod(k)\<close> is entry \<open>k\<close> of it or NULL, and \<open>TopMethod()\<close> is \<open>TopMethod(0)\<close>; when all names
  resolve, \<open>top_javalib_methods\<close> is the longest prefix of Java library methods and the first
  other method, or a single NULL for the empty stack.
\<close>
theorem stack_views:
  assumes "m_kind_t th = StackOnly" and "1 < N"
    and "\<forall>m \<in> set (m_methods th). name_or ''NULL_METHOD'' ci m = Inr (name m)"
  shows "top_N_methods N th = Inr (take N (stack th @ replicate N None)) \<and>
    full_method_stack th = Inr (stack th) \<and>
    Thread_TopMethod_num k th = Inr (if k < length (stack th) then stack th ! k else None) \<and>
    Thread_TopMethod cells th = Thread_TopMethod_num 0 th \<and>
    top_javalib_methods ci th =
      Inr (if stack th = [] then [None]
           else takeWhile (\<lambda>m. is_javalib_method (name m)) (stack th) @
                take 1 (dropWhile (\<lambda>m. is_javalib_method (name m)) (stack th)))"
proof -
  have "top_javalib_methods ci th =
      Inr (if stack th = [] then [None]
           else takeWhile (\<lambda>m. is_javalib_method (name m)) (stack th) @
                take 1 (dropWhile (\<lambda>m. is_javalib_method (name m)) (stack th)))"
    using assms(1) javalib_loop_stack [OF assms(1,3), of 0 "[]"]
    by (cases "stack th") (auto simp: top_javalib_methods_def)
  moreover have "full_method_stack th = Inr (stack th)"
    using assms(1) by (simp add: full_method_stack_def push_methods_stack)
  moreover have "Thread_TopMethod cells th = Thread_TopMethod_num 0 th"
    using assms(1) by (cases "stack th") (auto simp: stack_simps top_of_def stack_def)
  ultimately show ?thesis
    using assms by (simp add: stack_simps)
qed

definition demo_thread :: "method_ptr option list \<Rightarrow> Thread" where
  "demo_thread ms = (Thread_new 1 StackOnly None 0)\<lparr>m_methods := ms\<rparr>"

lemma stack_views_witness:
  "top_N_methods 3 (demo_thread [None]) = Inr [None, None, None] \<and>
   top_javalib_methods ClassInfo_init (demo_thread [None]) = Inr [None]"
  using stack_views [of "demo_thread [None]" 3 ClassInfo_init "\<lambda>_. ''NULL_METHOD''" 0 "[]"]
  by (simp add: demo_thread_def Thread_new_def name_or_def stack_def is_javalib_method_def numeral_3_eq_3)

section \<open>Threads stay well formed\<close>

definition exec_ok :: "ExecState \<Rightarrow> bool" where
  "exec_ok x \<longleftrightarrow> m_kind_x x = StackOnly \<and> (\<forall>th \<in> set (thread_cells x). thread_ok th) \<and>
     (\<forall>t p. map_of (m_threads x) t = Some p \<longrightarrow> p < length (thread_cells x) \<and> m_id_t (thread_cells x ! p) = t)"

definition stack_of :: "ExecState \<Rightarrow> u32 \<Rightarrow> method_ptr option list" where
  "stack_of x t = (case map_of (m_threads x) t of None \<Rightarrow> [] | Some p \<Rightarrow> stack (thread_cells x ! p))"

definition same_clocks :: "ExecState \<Rightarrow> ExecState \<Rightarrow> bool" where
  "same_clocks x y \<longleftrightarrow> m_uptime y = m_uptime x \<and> m_meth_time y = m_meth_time x \<and>
     m_methexit_time y = m_methexit_time x \<and> m_alloc_time_x y = m_alloc_time_x x"

lemma exec_ok_new [simp]: "exec_ok (ExecState_new StackOnly)"
  by (simp add: exec_ok_def ExecState_new_def)

lemma exec_okD:
  assumes "exec_ok x" and "map_of (m_threads x) t = Some p"
  shows "p < length (thread_cells x)" "m_id_t (thread_cells x ! p) = t" "thread_ok (thread_cells x ! p)"
  using assms by (auto simp: exec_ok_def)

lemma getThread_known: "map_of (m_threads x) t = Some p \<Longrightarrow> getThread uc t x = (p, x)"
  by (simp add: getThread_def)

lemma getThread_effect:
  assumes "exec_ok x" and "getThread uc t x = (p, y)"
  shows "exec_ok y" "map_of (m_threads y) t = Some p" "stack_of y = stack_of x" "same_clocks x y"
    "m_execPairCountMap y = m_execPairCountMap x" "m_thread_stack y = m_thread_stack x"
proof -
  consider (known) "map_of (m_threads x) t = Some p" "y = x"
    | (new) "map_of (m_threads x) t = None" "p = length (thread_cells x)"
        "y = (snd (CCNode_root x))\<lparr>thread_cells := thread_cells x @ [Thread_new t (m_kind_x x) uc (length (cc_cells x))],
               m_threads := om_put t p (m_threads x)\<rparr>"
    using assms(2) by (auto simp: getThread_def CCNode_root_def Let_def split: option.splits)
  then have "exec_ok y \<and> map_of (m_threads y) t = Some p \<and> stack_of y = stack_of x \<and> same_clocks x y \<and>
     m_execPairCountMap y = m_execPairCountMap x \<and> m_thread_stack y = m_thread_stack x"
  proof cases
    case known
    then show ?thesis using assms by (simp add: same_clocks_def)
  next
    case new
    have "exec_ok y"
      using assms(1) new(2)
      by (auto simp: new(3) exec_ok_def CCNode_root_def Thread_new_def thread_ok_def nth_append less_Suc_eq)
    moreover have "stack_of y = stack_of x"
      using assms(1) new(1,2)
      by (auto simp: new(3) fun_eq_iff stack_of_def CCNode_root_def Thread_new_def stack_def nth_append
          exec_ok_def split: option.splits)
    ultimately show ?thesis
      using new by (simp add: CCNode_root_def same_clocks_def)
  qed
  then show "exec_ok y" "map_of (m_threads y) t = Some p" "stack_of y = stack_of x" "same_clocks x y"
    "m_execPairCountMap y = m_execPairCountMap x" "m_thread_stack y = m_thread_stack x"
    by blast+
qed

lemma stack_of_set_thread:
  assumes "exec_ok x" and "map_of (m_threads x) t = Some p" and "m_id_t th = t"
  shows "stack_of (set_thread p th x) = (stack_of x)(t := stack th)"
proof
  fix u
  have "p \<noteq> q" if "map_of (m_threads x) u = Some q" "u \<noteq> t" for q
    using exec_okD(2) [OF assms(1,2)] exec_okD(2) [OF assms(1) that(1)] that(2) by auto
  then show "stack_of (set_thread p th x) u = ((stack_of x)(t := stack th)) u"
    using assms(2) exec_okD(1) [OF assms(1,2)]
    by (auto simp: stack_of_def set_thread_def split: option.splits)
qed

lemma exec_ok_set_thread:
  assumes "exec_ok x" and "map_of (m_threads x) t = Some p" and "m_id_t th = t" and "thread_ok th"
  shows "exec_ok (set_thread p th x)"
proof -
  have "thread_ok u" if "u \<in> set ((thread_cells x)[p := th])" for u
    using that assms(1,4) set_update_subset_insert [of "thread_cells x" p th] by (auto simp: exec_ok_def)
  moreover have "m_id_t ((thread_cells x)[p := th] ! q) = u" if "map_of (m_threads x) u = Some q" for u q
    using exec_okD(1,2) [OF assms(1) that] exec_okD(2) [OF assms(1,2)] assms(3) by (cases "q = p") auto
  ultimately show ?thesis
    using assms(1) by (simp add: exec_ok_def set_thread_def)
qed

lemma push_method_stack [simp]:
  "stack (push_method m th) = m # stack th" "m_id_t (push_method m th) = m_id_t th"
  "m_kind_t (push_method m th) = m_kind_t th"
  by (simp_all add: push_method_def stack_def setContextPair_def Let_def)

lemma push_method_ok: "thread_ok th \<Longrightarrow> thread_ok (push_method m th)"
  by (simp add: push_method_def thread_ok_def setContextPair_def Let_def)

lemma pop_method_ok:
  assumes "thread_ok th" and "m_methods th \<noteq> []"
  shows "\<exists>th'. pop_method th = Inr th' \<and> thread_ok th' \<and> stack th' = tl (stack th) \<and> m_id_t th' = m_id_t th"
  using assms
  by (cases "m_methods th" rule: rev_cases)
    (auto simp: pop_method_def thread_ok_def setContextPair_def Let_def deque_at_def stack_def)

lemma Exec_Call_effect:
  assumes "exec_ok x"
  shows "\<exists>y. Exec_Call ci uc ud m t x = Inr y \<and> exec_ok y \<and>
    stack_of y = (stack_of x)(t := m # stack_of x t) \<and>
    m_execPairCountMap y = bump (m, top_of (stack_of x t)) (m_execPairCountMap x) \<and>
    m_meth_time y = m_meth_time x + 1 \<and> m_methexit_time y = m_methexit_time x \<and> m_uptime y = m_uptime x"
proof -
  have ok1: "exec_ok (IncMethodTime x)" "stack_of (IncMethodTime x) = stack_of x"
    using assms by (simp_all add: exec_ok_def IncMethodTime_def stack_of_def fun_eq_iff split: option.splits)
  obtain p y where gt: "getThread uc t (IncMethodTime x) = (p, y)" by fastforce
  note y = getThread_effect [OF ok1(1) gt]
  define th where "th = thread_cells y ! p"
  have th: "p < length (thread_cells y)" "m_id_t th = t" "thread_ok th"
    unfolding th_def using exec_okD [OF y(1,2)] by auto
  have st: "stack th = stack_of x t"
    using y(2,3) ok1(2) by (metis option.simps(5) stack_of_def th_def)
  define z where "z = (set_thread p (push_method m th) y)"
  have top2: "top_N_methods 2 (push_method m th) = Inr [m, top_of (stack_of x t)]"
    using th(3) by (cases "stack_of x t") (auto simp: stack_simps thread_ok_kind st top_of_def numeral_2_eq_2)
  define w where "w = z\<lparr>m_execPairCountMap := bump (m, top_of (stack_of x t)) (m_execPairCountMap z),
      m_thread_stack := m_thread_stack z @ [p]\<rparr>"
  have run: "Exec_Call ci uc ud m t x = Inr w"
    using th top2
    by (simp add: Exec_Call_def gt Thread_Call_def deref_valid th_def [symmetric] thread_ok_kind z_def w_def
        IncCallContext_def deque_at_def Let_def)
  have "exec_ok z"
    unfolding z_def using exec_ok_set_thread [OF y(1,2)] push_method_ok [OF th(3)] th(2) by simp
  then have "exec_ok w" by (simp add: w_def exec_ok_def)
  moreover have "stack_of w = stack_of z" by (simp add: w_def stack_of_def fun_eq_iff split: option.splits)
  moreover have "stack_of z = (stack_of x)(t := m # stack_of x t)"
    unfolding z_def using stack_of_set_thread [OF y(1,2)] th(2) y(3) ok1(2) st by simp
  ultimately show ?thesis
    using run y(4,5) by (auto simp: w_def z_def set_thread_def same_clocks_def IncMethodTime_def)
qed

lemma Exec_Return_effect:
  assumes "exec_ok x" and "stack_of x t = [] \<longrightarrow> (\<exists>s. Method_info ci m = Inr s)"
  shows "\<exists>y. Exec_Return ci uc m t x = Inr y \<and> exec_ok y \<and> stack_of y = (stack_of x)(t := tl (stack_of x t)) \<and>
    m_execPairCountMap y = m_execPairCountMap x \<and>
    m_meth_time y = m_meth_time x \<and> m_methexit_time y = m_methexit_time x + 1 \<and> m_uptime y = m_uptime x"
proof -
  define x1 where "x1 = (IncMethodExitTime x)\<lparr>m_thread_stack := butlast (m_thread_stack (IncMethodExitTime x))\<rparr>"
  have ok1: "exec_ok x1" "stack_of x1 = stack_of x"
    using assms by (simp_all add: x1_def exec_ok_def IncMethodExitTime_def stack_of_def fun_eq_iff split: option.splits)
  obtain p y where gt: "getThread uc t x1 = (p, y)" by fastforce
  note y = getThread_effect [OF ok1(1) gt]
  define th where "th = thread_cells y ! p"
  have th: "p < length (thread_cells y)" "m_id_t th = t" "thread_ok th"
    unfolding th_def using exec_okD [OF y(1,2)] by auto
  have st: "stack th = stack_of x t"
    using y(2,3) ok1(2) by (metis option.simps(5) stack_of_def th_def)
  have ret: "Exec_Return ci uc m t x = Thread_Return ci m p y"
    by (simp add: Exec_Return_def gt x1_def [symmetric] Let_def)
  have clocks: "m_execPairCountMap y = m_execPairCountMap x" "m_meth_time y = m_meth_time x"
    "m_methexit_time y = m_methexit_time x + 1" "m_uptime y = m_uptime x"
    using y(4,5) by (simp_all add: x1_def same_clocks_def IncMethodExitTime_def)
  show ?thesis
  proof (cases "m_methods th = []")
    case True
    then have "stack_of x t = []" using st by (simp add: stack_def)
    moreover then obtain s where "Method_info ci m = Inr s" using assms(2) by blast
    ultimately have "Exec_Return ci uc m t x = Inr y" "stack_of y = (stack_of x)(t := tl (stack_of x t))"
      using ret th True y(3) ok1(2)
      by (simp_all add: Thread_Return_def deref_valid th_def [symmetric] thread_ok_kind fun_eq_iff)
    then show ?thesis using y(1) clocks by blast
  next
    case False
    then obtain th' where th': "pop_method th = Inr th'" "thread_ok th'" "stack th' = tl (stack th)" "m_id_t th' = t"
      using pop_method_ok [OF th(3)] th(2) by auto
    then have "Exec_Return ci uc m t x = Inr (set_thread p th' y)"
      using ret th False by (simp add: Thread_Return_def deref_valid th_def [symmetric] thread_ok_kind)
    then show ?thesis
      using exec_ok_set_thread [OF y(1,2) th'(4,2)] stack_of_set_thread [OF y(1,2) th'(4)] th'(3) st y(3) ok1(2) clocks
      by (auto simp: set_thread_def)
  qed
qed

section \<open>Traces of calls and returns\<close>

datatype 'm call_event = Ev_Call 'm | Ev_Return 'm

text \<open>The sequences in which every call is returned from, and every return has its call.\<close>

inductive balanced :: "'m call_event list \<Rightarrow> bool" where
  balanced_Nil: "balanced []"
| balanced_call: "balanced b \<Longrightarrow> balanced c \<Longrightarrow> balanced (Ev_Call m # b @ Ev_Return n # c)"

text \<open>The contract of a call stack, and what balanced sequences do to one.\<close>

locale call_stack =
  fixes call :: "'m \<Rightarrow> 's \<Rightarrow> 's result"
    and ret :: "'m \<Rightarrow> 's \<Rightarrow> 's result"
    and view :: "'s \<Rightarrow> 'm list"
    and ok :: "'s \<Rightarrow> bool"
  assumes call_ok: "ok s \<Longrightarrow> \<exists>s'. call m s = Inr s' \<and> ok s' \<and> view s' = m # view s"
    and ret_ok: "ok s \<Longrightarrow> view s \<noteq> [] \<Longrightarrow> \<exists>s'. ret m s = Inr s' \<and> ok s' \<and> view s' = tl (view s)"
begin

fun event :: "'s \<Rightarrow> 'm call_event \<Rightarrow> 's result" where
  "event s (Ev_Call m) = call m s"
| "event s (Ev_Return m) = ret m s"

lemma balanced_run:
  "balanced evs \<Longrightarrow> ok s \<Longrightarrow> \<exists>s'. foldR event evs s = Inr s' \<and> ok s' \<and> view s' = view s"
proof (induction arbitrary: s rule: balanced.induct)
  case (balanced_call b c m n)
  obtain s1 where s1: "call m s = Inr s1" "ok s1" "view s1 = m # view s"
    using call_ok [OF balanced_call.prems] by blast
  obtain s2 where s2: "foldR event b s1 = Inr s2" "ok s2" "view s2 = m # view s"
    using balanced_call.IH(1) [OF s1(2)] s1(3) by auto
  obtain s3 where s3: "ret n s2 = Inr s3" "ok s3" "view s3 = view s"
    using ret_ok [OF s2(2)] s2(3) by fastforce
  obtain s4 where "foldR event c s3 = Inr s4" "ok s4" "view s4 = view s"
    using balanced_call.IH(2) [OF s3(2)] s3(3) by auto
  then show ?case using s1 s2 s3 by (simp add: foldR_append)
qed simp

end

text \<open>The events of the execution state: a call or a return in a thread.\<close>

fun exec_event ::
  "ClassInfo \<Rightarrow> cc_ptr option \<Rightarrow> bool \<Rightarrow> ExecState \<Rightarrow> (method_ptr option \<times> u32) call_event \<Rightarrow> ExecState result" where
  "exec_event ci uc ud x (Ev_Call (m, t)) = Exec_Call ci uc ud m t x"
| "exec_event ci uc ud x (Ev_Return (m, t)) = Exec_Return ci uc m t x"

text \<open>The abstract machine: one stack for each thread, and the pair each call adds to the counters.\<close>

fun stacks_event :: "(u32 \<Rightarrow> method_ptr option list) \<Rightarrow> (method_ptr option \<times> u32) call_event \<Rightarrow> (u32 \<Rightarrow> method_ptr option list)" where
  "stacks_event S (Ev_Call (m, t)) = S(t := m # S t)"
| "stacks_event S (Ev_Return (m, t)) = S(t := tl (S t))"

fun call_pairs :: "(u32 \<Rightarrow> method_ptr option list) \<Rightarrow> (method_ptr option \<times> u32) call_event list \<Rightarrow> ContextPair list" where
  "call_pairs S [] = []"
| "call_pairs S (Ev_Call (m, t) # evs) = (m, top_of (S t)) # call_pairs (stacks_event S (Ev_Call (m, t))) evs"
| "call_pairs S (Ev_Return (m, t) # evs) = call_pairs (stacks_event S (Ev_Return (m, t))) evs"

fun is_call :: "'m call_event \<Rightarrow> bool" where
  "is_call (Ev_Call m) = True"
| "is_call (Ev_Return m) = False"

definition pair_count :: "ExecState \<Rightarrow> ContextPair \<Rightarrow> u32" where
  "pair_count x c = (case map_of (m_execPairCountMap x) c of None \<Rightarrow> 0 | Some n \<Rightarrow> n)"

lemma bump_count:
  "m_execPairCountMap y = bump c (m_execPairCountMap x) \<Longrightarrow>
   pair_count y d = pair_count x d + (if d = c then 1 else 0)"
  by (simp add: pair_count_def bump_def)

definition methods_known :: "ClassInfo \<Rightarrow> (method_ptr option \<times> u32) call_event list \<Rightarrow> bool" where
  "methods_known ci evs \<longleftrightarrow> (\<forall>m t. Ev_Return (m, t) \<in> set evs \<longrightarrow> (\<exists>s. Method_info ci m = Inr s))"

text \<open>
  C5: The threads implement independent stacks. From a well-formed state in the mode \<open>StackOnly\<close>,
  any interleaving of calls and returns in any threads (the methods returned from having a class)
  runs without fault; the method stack of each thread is the one that its own calls and returns
  build; the two clocks count the calls and the returns, the update clock stands still; and
  \<open>m_execPairCountMap\<close> has counted, for each pair of methods, the calls of the first from the
  second.
\<close>
theorem exec_refines_stacks:
  assumes "exec_ok x" and "methods_known ci evs"
  shows "\<exists>y. foldR (exec_event ci uc ud) evs x = Inr y \<and> exec_ok y \<and>
    stack_of y = fold (\<lambda>e S. stacks_event S e) evs (stack_of x) \<and>
    m_meth_time y = m_meth_time x + of_nat (length (filter is_call evs)) \<and>
    m_methexit_time y = m_methexit_time x + of_nat (length (filter (\<lambda>e. \<not> is_call e) evs)) \<and>
    m_uptime y = m_uptime x \<and>
    (\<forall>c. pair_count y c = pair_count x c + of_nat (count_list (call_pairs (stack_of x) evs) c))"
  using assms
proof (induction evs arbitrary: x)
  case (Cons e evs)
  have known: "methods_known ci evs"
    using Cons.prems(2) by (simp add: methods_known_def)
  show ?case
  proof (cases e)
    case (Ev_Call mt)
    obtain m t where mt: "mt = (m, t)" by fastforce
    obtain z where z: "Exec_Call ci uc ud m t x = Inr z" "exec_ok z" "stack_of z = (stack_of x)(t := m # stack_of x t)"
      "m_execPairCountMap z = bump (m, top_of (stack_of x t)) (m_execPairCountMap x)"
      "m_meth_time z = m_meth_time x + 1" "m_methexit_time z = m_methexit_time x" "m_uptime z = m_uptime x"
      using Exec_Call_effect [OF Cons.prems(1)] by blast
    obtain y where y: "foldR (exec_event ci uc ud) evs z = Inr y" "exec_ok y"
      "stack_of y = fold (\<lambda>e S. stacks_event S e) evs (stack_of z)"
      "m_meth_time y = m_meth_time z + of_nat (length (filter is_call evs))"
      "m_methexit_time y = m_methexit_time z + of_nat (length (filter (\<lambda>e. \<not> is_call e) evs))"
      "m_uptime y = m_uptime z"
      "\<forall>c. pair_count y c = pair_count z c + of_nat (count_list (call_pairs (stack_of z) evs) c)"
      using Cons.IH [OF z(2) known] by blast
    show ?thesis
      by (intro exI [of _ y]) (simp add: Ev_Call mt z y bump_count [OF z(4)] del: fun_upd_apply)
  next
    case (Ev_Return mt)
    obtain m t where mt: "mt = (m, t)" by fastforce
    have "\<exists>s. Method_info ci m = Inr s"
      using Cons.prems(2) by (auto simp: methods_known_def Ev_Return mt)
    then obtain z where z: "Exec_Return ci uc m t x = Inr z" "exec_ok z" "stack_of z = (stack_of x)(t := tl (stack_of x t))"
      "m_execPairCountMap z = m_execPairCountMap x"
      "m_meth_time z = m_meth_time x" "m_methexit_time z = m_methexit_time x + 1" "m_uptime z = m_uptime x"
      using Exec_Return_effect [OF Cons.prems(1)] by blast
    have "pair_count z = pair_count x" by (simp add: pair_count_def z(4) fun_eq_iff)
    obtain y where y: "foldR (exec_event ci uc ud) evs z = Inr y" "exec_ok y"
      "stack_of y = fold (\<lambda>e S. stacks_event S e) evs (stack_of z)"
      "m_meth_time y = m_meth_time z + of_nat (length (filter is_call evs))"
      "m_methexit_time y = m_methexit_time z + of_nat (length (filter (\<lambda>e. \<not> is_call e) evs))"
      "m_uptime y = m_uptime z"
      "\<forall>c. pair_count y c = pair_count z c + of_nat (count_list (call_pairs (stack_of z) evs) c)"
      using Cons.IH [OF z(2) known] by blast
    show ?thesis
      by (intro exI [of _ y]) (simp add: Ev_Return mt z y \<open>pair_count z = pair_count x\<close> del: fun_upd_apply)
  qed
qed simp

lemma exec_refines_stacks_witness:
  "\<exists>y. foldR (exec_event ClassInfo_init None False) [Ev_Call (None, 1), Ev_Call (None, 2)] (ExecState_new StackOnly) = Inr y \<and>
     stack_of y 1 = [None] \<and> stack_of y 2 = [None] \<and> m_meth_time y = 2"
proof -
  have "stack_of (ExecState_new StackOnly) = (\<lambda>t. [])" "m_meth_time (ExecState_new StackOnly) = 0"
    by (simp_all add: stack_of_def ExecState_new_def fun_eq_iff)
  moreover have "methods_known ClassInfo_init [Ev_Call (None, 1), Ev_Call (None, 2)]"
    by (simp add: methods_known_def)
  ultimately show ?thesis
    using exec_refines_stacks [OF exec_ok_new, of ClassInfo_init "[Ev_Call (None, 1), Ev_Call (None, 2)]" None False]
    by (auto simp del: foldR.simps)
qed

interpretation exec_stack: call_stack
  "\<lambda>m x. Exec_Call ci uc ud m t x" "\<lambda>m x. Exec_Return ci uc m t x" "\<lambda>x. stack_of x t" exec_ok for ci uc ud t
proof unfold_locales
  show "\<exists>y. Exec_Call ci uc ud m t x = Inr y \<and> exec_ok y \<and> stack_of y t = m # stack_of x t" if "exec_ok x" for m x
    using Exec_Call_effect [OF that] by (metis fun_upd_same)
  show "\<exists>y. Exec_Return ci uc m t x = Inr y \<and> exec_ok y \<and> stack_of y t = tl (stack_of x t)"
    if "exec_ok x" "stack_of x t \<noteq> []" for m x
    using Exec_Return_effect [OF that(1)] that(2) by (metis fun_upd_same)
qed

definition thread_events :: "u32 \<Rightarrow> method_ptr option call_event list \<Rightarrow> (method_ptr option \<times> u32) call_event list" where
  "thread_events t = map (map_call_event (\<lambda>m. (m, t)))"

lemma thread_event: "exec_stack.event ci uc ud t x e = exec_event ci uc ud x (map_call_event (\<lambda>m. (m, t)) e)"
  by (cases e) (simp_all add: exec_stack.event.simps)

text \<open>
  C34: Balanced calls leave no trace on the stack. A sequence of calls and returns of one thread in
  which every call is returned from, whatever methods the returns name and whatever methods exist,
  runs without fault and leaves the thread's stack as it was.
\<close>
theorem balanced_calls_restore:
  assumes "balanced evs" and "exec_ok x"
  shows "\<exists>y. foldR (exec_event ci uc ud) (thread_events t evs) x = Inr y \<and> exec_ok y \<and>
    stack_of y t = stack_of x t"
proof -
  have "foldR (exec_event ci uc ud) (thread_events t evs) x = foldR (exec_stack.event ci uc ud t) evs x"
    unfolding thread_events_def by (induction evs arbitrary: x) (auto simp: thread_event intro: bindR_cong)
  then show ?thesis
    using exec_stack.balanced_run [OF assms] by simp
qed

lemma balanced_calls_restore_witness:
  "\<exists>y. foldR (exec_event ClassInfo_init None False) (thread_events 7 [Ev_Call None, Ev_Return (Some (Method_Ptr 3))])
     (ExecState_new StackOnly) = Inr y \<and> stack_of y 7 = []"
proof -
  have "balanced [Ev_Call None, Ev_Return (Some (Method_Ptr 3))]"
    using balanced_call [OF balanced_Nil balanced_Nil] by simp
  from balanced_calls_restore [OF this exec_ok_new, of ClassInfo_init None False 7] show ?thesis
    by (auto simp: stack_of_def ExecState_new_def)
qed

section \<open>Death contexts\<close>

definition with_death_site :: "(method_ptr option \<Rightarrow> string) \<Rightarrow> method_ptr option \<Rightarrow> method_ptr option \<Rightarrow> string \<Rightarrow> Object \<Rightarrow> Object" where
  "with_death_site name a b nonjava obj =
     obj\<lparr>m_methodDeathSite := a, m_deathsite_name := name a, m_methodDeathSite_l2 := b,
         m_deathsite_name_l2 := name b, m_nonjavalib_death_context := nonjava\<rparr>"

text \<open>
  C15: When a death context can be stored. With all names resolvable, \<open>UpdateObj2DeathContext\<close>
  reads past the end of \<open>top_2_methods\<close> exactly when the context is empty or its first method is
  not a Java library method; otherwise it stores the first two methods (NULL for a missing second)
  and their names as the death site, the first name outside the library among them (else the name
  of the last method of the context, or \<open>NULL_METHOD\<close>) as the non-library context, counts the
  pair once, and leaves the caller's deque without its first two methods.
\<close>
theorem death_context_stored:
  assumes "p < length (obj_cells h)" and "name None = ''NULL_METHOD''"
    and "\<forall>m \<in> set ms. name_or ''NULL_METHOD'' ci m = Inr (name m)"
  shows "UpdateObj2DeathContext ci p ms h x =
    (case ms of
       [] \<Rightarrow> Inl Out_Of_Bounds
     | a # rest \<Rightarrow>
         if \<not> is_javalib_method (name a) then Inl Out_Of_Bounds
         else
           (let b = top_of rest;
                nonjava = (if \<not> is_javalib_method (name b) then name b
                           else if tl rest = [] then ''NULL_METHOD'' else name (last rest))
            in Inr (h\<lparr>obj_cells := (obj_cells h)[p := with_death_site name a b nonjava (obj_cells h ! p)]\<rparr>,
                    x\<lparr>m_objDeath2cmap := om_put p (name a) (m_objDeath2cmap x),
                      m_deathPairCountMap := bump (a, b) (m_deathPairCountMap x)\<rparr>, tl rest)))"
proof -
  have null: "name_or ''NULL_METHOD'' ci None = Inr ''NULL_METHOD''" "\<not> is_javalib_method ''NULL_METHOD''"
    by (simp_all add: name_or_def is_javalib_method_def)
  have two: "replicate 2 (None :: method_ptr option) = [None, None]"
    by (simp add: numeral_2_eq_2)
  note defs = two UpdateObj2DeathContext_def death_context_round_def set_nonJavaLib_death_context_def upd_object_def
    setDeathSite_def setDeathContextSiteName_def deque_at_def deref_valid with_death_site_def top_of_def Let_def
  consider "ms = []" | a where "ms = [a]" | a b rest where "ms = a # b # rest"
    by (metis list.exhaust)
  then show ?thesis
  proof cases
    case 1
    then show ?thesis using assms(1) null by (simp add: defs)
  next
    case 2
    then show ?thesis using assms null by (simp add: defs)
  next
    case 3
    then show ?thesis using assms null by (cases rest) (simp_all add: defs)
  qed
qed

lemma death_context_stored_witness:
  "UpdateObj2DeathContext ClassInfo_init 0 [None] (demo_heap HeapState_init 7 16) (ExecState_new StackOnly) = Inl Out_Of_Bounds"
proof -
  have "0 < length (obj_cells (demo_heap HeapState_init 7 16))" by code_simp
  from death_context_stored [OF this, of "\<lambda>_. ''NULL_METHOD''" "[None]" ClassInfo_init]
  show ?thesis by (simp add: name_or_def is_javalib_method_def)
qed

end
