(* ===== verification/Context_Tree.thy ===== *)
theory Context_Tree
  imports Execution
begin

text \<open>
  The calling context tree of \<open>execution.cpp\<close> (\<open>class CCNode\<close>): its invariant, what a call and a return do, the
  loops that climb to the root, and the contexts that the nodes of every tree stand for.
\<close>

section \<open>Well-formed trees\<close>

text \<open>
  Nodes are older than their callees, the roots are the nodes without a method, a callee knows its
  parent, and identifiers are given out in order.
\<close>

definition cc_ok :: "ExecState \<Rightarrow> bool" where
  "cc_ok x \<longleftrightarrow> m_ccnode_nextid x = of_nat (Suc (length (cc_cells x))) \<and>
     (\<forall>p < length (cc_cells x).
        m_node_id (cc_cells x ! p) = of_nat (Suc p) \<and>
        (m_parent (cc_cells x ! p) = None \<longleftrightarrow> m_method (cc_cells x ! p) = None) \<and>
        (\<forall>q. m_parent (cc_cells x ! p) = Some q \<longrightarrow> q < p) \<and>
        (\<forall>i q. map_of (m_callees (cc_cells x ! p)) i = Some q \<longrightarrow>
           q < length (cc_cells x) \<and> m_parent (cc_cells x ! q) = Some p))"

text \<open>The tree after a call of a method that the node has not called yet.\<close>

definition grown :: "bool \<Rightarrow> cc_ptr \<Rightarrow> method_ptr \<Rightarrow> u32 \<Rightarrow> ExecState \<Rightarrow> ExecState" where
  "grown ud p m i x =
     x\<lparr>cc_cells := (cc_cells x @ [\<lparr>m_method = Some m, m_parent = Some p, m_callees = [], m_done_cc = ud,
          m_simptrace = [], m_node_id = m_ccnode_nextid x\<rparr>])
          [p := (cc_cells x ! p)\<lparr>m_callees := om_put i (length (cc_cells x)) (m_callees (cc_cells x ! p))\<rparr>],
        m_ccnode_nextid := m_ccnode_nextid x + 1\<rparr>"

lemma grown_ok:
  assumes "cc_ok x" and "p < length (cc_cells x)"
  shows "cc_ok (grown ud p m i' x)"
proof -
  define q where "q = length (cc_cells x)"
  define node where "node = (cc_cells x ! p)\<lparr>m_callees := om_put i' q (m_callees (cc_cells x ! p))\<rparr>"
  define new where "new = \<lparr>m_method = Some m, m_parent = Some p, m_callees = [], m_done_cc = ud,
     m_simptrace = [], m_node_id = m_ccnode_nextid x\<rparr>"
  define y where "y = grown ud p m i' x"
  have y_cells: "cc_cells y = (cc_cells x @ [new])[p := node]" "m_ccnode_nextid y = m_ccnode_nextid x + 1"
    by (simp_all add: y_def grown_def q_def node_def new_def)
  have cells: "cc_cells y ! k = (if k = p then node else if k = q then new else cc_cells x ! k)"
    if "k < length (cc_cells y)" for k
    using that assms(2) by (auto simp: y_cells q_def nth_list_update nth_append)
  have len: "length (cc_cells y) = Suc q" "p < q" using assms(2) by (simp_all add: y_cells q_def)
  have old: "m_node_id (cc_cells x ! k) = of_nat (Suc k)" "m_parent (cc_cells x ! k) = None \<longleftrightarrow> m_method (cc_cells x ! k) = None"
    "m_parent (cc_cells x ! k) = Some j \<Longrightarrow> j < k"
    "map_of (m_callees (cc_cells x ! k)) i = Some j \<Longrightarrow> j < q \<and> m_parent (cc_cells x ! j) = Some k"
    if "k < q" for k i j
    using that assms(1) by (auto simp: cc_ok_def q_def)
  have "cc_ok y"
    unfolding cc_ok_def
  proof (intro conjI allI impI)
    show "m_ccnode_nextid y = of_nat (Suc (length (cc_cells y)))"
      using assms(1) by (simp add: cc_ok_def y_cells)
  next
    fix k assume k: "k < length (cc_cells y)"
    note c = cells [OF k]
    show "m_node_id (cc_cells y ! k) = of_nat (Suc k)"
      using assms(1) c k len old(1) [of k] old(1) [OF len(2)]
      by (auto simp: node_def new_def cc_ok_def q_def less_Suc_eq split: if_splits)
    show "(m_parent (cc_cells y ! k) = None) = (m_method (cc_cells y ! k) = None)"
      using c k len old(2) [of k] by (auto simp: node_def new_def)
    show "j < k" if "m_parent (cc_cells y ! k) = Some j" for j
      using that c k len old(3) [of k j] by (auto simp: node_def new_def split: if_splits)
    fix i j assume j: "map_of (m_callees (cc_cells y ! k)) i = Some j"
    have "j = q \<and> k = p \<or> k < q \<and> map_of (m_callees (cc_cells x ! k)) i = Some j"
      using j c k len by (auto simp: node_def new_def less_Suc_eq split: if_splits)
    then have j': "j < Suc q \<and> (j = q \<and> k = p \<or> j < q \<and> m_parent (cc_cells x ! j) = Some k)"
      using old(4) by fastforce
    show "j < length (cc_cells y)" using j' len by simp
    show "m_parent (cc_cells y ! j) = Some k"
      using cells [of j] j' len by (auto simp: node_def new_def)
  qed
  then show ?thesis by (simp add: y_def)
qed

text \<open>
  Calls in the context tree. In a well-formed tree a call of a known method from a node gives a
  node whose parent is that node, keeps the tree well formed, and gives the same node when it is
  made again; the return from a node that the call has made goes back to the caller.
\<close>
theorem cc_call_return:
  assumes "cc_ok x" and "p < length (cc_cells x)" and "method_at ci (Some m) = Inr meth"
  shows "\<exists>q y. CCNode_Call ci ud p (Some m) x = Inr (q, y) \<and> cc_ok y \<and> q < length (cc_cells y) \<and>
    m_parent (cc_cells y ! q) = Some p \<and>
    (\<forall>ud'. CCNode_Call ci ud' p (Some m) y = Inr (q, y)) \<and>
    (if map_of (m_callees (cc_cells x ! p)) (m_id meth) = None
     then CCNode_Return ci q (Some m) y = Inr (Some p) \<and> length (cc_cells y) = Suc (length (cc_cells x))
     else y = x)"
proof (cases "map_of (m_callees (cc_cells x ! p)) (m_id meth)")
  case (Some q)
  then have "CCNode_Call ci ud' p (Some m) x = Inr (q, x)" for ud'
    using assms by (simp add: CCNode_Call_def deref_valid)
  then show ?thesis
    using assms Some by (intro exI [of _ q] exI [of _ x]) (auto simp: cc_ok_def)
next
  case None
  let ?q = "length (cc_cells x)"
  define y where "y = grown ud p m (m_id meth) x"
  have cells: "length (cc_cells y) = Suc ?q" "m_parent (cc_cells y ! ?q) = Some p" "m_method (cc_cells y ! ?q) = Some m"
    "m_callees (cc_cells y ! p) = om_put (m_id meth) ?q (m_callees (cc_cells x ! p))"
    using assms(2) by (simp_all add: y_def grown_def nth_append)
  have "CCNode_Call ci ud p (Some m) x = Inr (?q, y)"
    using assms None by (simp add: CCNode_Call_def deref_valid CCNode_new_def y_def grown_def)
  moreover have "CCNode_Call ci ud' p (Some m) y = Inr (?q, y)" for ud'
    using assms(2,3) cells by (simp add: CCNode_Call_def deref_valid)
  moreover have "CCNode_Return ci ?q (Some m) y = Inr (Some p)"
    using cells by (simp add: CCNode_Return_def deref_valid)
  moreover have "cc_ok y" unfolding y_def by (rule grown_ok [OF assms(1,2)])
  ultimately show ?thesis
    using None cells by auto
qed

section \<open>Climbing the tree\<close>

text \<open>The path from a node to its root.\<close>

function cc_path :: "CCNode list \<Rightarrow> cc_ptr \<Rightarrow> CCNode list" where
  "cc_path cells p =
     (cells ! p) # (case m_parent (cells ! p) of
        None \<Rightarrow> []
      | Some q \<Rightarrow> if q < p then cc_path cells q else [])"
  by pat_completeness auto
termination
  by (relation "measure snd") auto

declare cc_path.simps [simp del]

lemma cc_okD:
  assumes "cc_ok x" and "p < length (cc_cells x)"
  shows "m_parent (cc_cells x ! p) = None \<longleftrightarrow> m_method (cc_cells x ! p) = None"
    "m_parent (cc_cells x ! p) = Some q \<Longrightarrow> q < p"
  using assms by (auto simp: cc_ok_def)

lemma cc_path_root: "m_parent (cells ! p) = None \<Longrightarrow> cc_path cells p = [cells ! p]"
  by (subst cc_path.simps) simp

lemma cc_path_step: "m_parent (cells ! p) = Some q \<Longrightarrow> q < p \<Longrightarrow> cc_path cells p = cells ! p # cc_path cells q"
  by (subst cc_path.simps) simp

lemma climb_up_path:
  assumes "cc_ok x" and "p < length (cc_cells x)"
  shows "climb_up (cc_cells x) body (Some p) s = Some (foldR body (cc_path (cc_cells x) p) s)"
  using assms(2)
proof (induction p arbitrary: s rule: less_induct)
  case (less p)
  show ?case
  proof (cases "m_parent (cc_cells x ! p)")
    case None
    then show ?thesis
      using less.prems
      by (subst climb_up.simps) (simp add: deref_valid cc_path_root climb_up.simps [of _ _ None] split: sum.splits)
  next
    case (Some q)
    then have "q < p" using cc_okD(2) [OF assms(1) less.prems] by blast
    then show ?thesis
      using less Some
      by (subst climb_up.simps) (simp add: deref_valid cc_path_step split: sum.splits)
  qed
qed

text \<open>
  C35: Stack traces of the context tree end. In a well-formed tree both loops reach the root:
  \<open>stacktrace\<close> writes the description of every node of the path; \<open>stacktrace_using_id\<close> writes, as
  many times as the path is long, the identifier of the one node it was asked of.
\<close>
theorem cc_traces_end:
  assumes "cc_ok x" and "p < length (cc_cells x)" and "getMethodId ci (cc_cells x ! p) = Inr i"
  shows "CCNode_stacktrace ci p x =
      Some (foldR (\<lambda>s node. bindR (CCNode_info ci node) (\<lambda>t. Inr (s @ t @ [CHR 0x0A]))) (cc_path (cc_cells x) p) []) \<and>
    CCNode_stacktrace_using_id ci p x = Some (Inr (replicate (length (cc_path (cc_cells x) p)) i))"
proof -
  have "foldR (\<lambda>ids node. bindR (getMethodId ci (cc_cells x ! p)) (\<lambda>i. Inr (i # ids))) ns ids =
      Inr (replicate (length ns) i @ ids)" for ns :: "CCNode list" and ids
    by (induction ns arbitrary: ids) (simp_all add: assms(3) replicate_app_Cons_same)
  then show ?thesis
    using assms(2)
    by (simp add: CCNode_stacktrace_def CCNode_stacktrace_using_id_def deref_valid climb_up_path [OF assms(1,2)])
qed

lemma simple_cc_equal_path:
  assumes "cc_ok x" and "p < length (cc_cells x)" and "q < length (cc_cells x)"
  shows "simple_cc_equal (cc_cells x) p q =
    Some (Inr (map m_method (cc_path (cc_cells x) p) = map m_method (cc_path (cc_cells x) q)))"
  using assms(2,3)
proof (induction p arbitrary: q rule: less_induct)
  case (less p)
  let ?P = "m_parent (cc_cells x ! p)" and ?Q = "m_parent (cc_cells x ! q)"
  have root: "?P = None \<longleftrightarrow> m_method (cc_cells x ! p) = None" "?Q = None \<longleftrightarrow> m_method (cc_cells x ! q) = None"
    using cc_okD(1) [OF assms(1)] less.prems by blast+
  show ?case
  proof (cases "m_method (cc_cells x ! p) = m_method (cc_cells x ! q)")
    case False
    then show ?thesis
      using less.prems
      by (subst simple_cc_equal.simps, subst (1 2) cc_path.simps) (simp add: deref_valid)
  next
    case True
    then consider "?P = None" "?Q = None" | p' q' where "?P = Some p'" "?Q = Some q'"
      using root by auto
    then show ?thesis
    proof cases
      case 1
      then show ?thesis
        using less.prems True by (subst simple_cc_equal.simps) (simp add: deref_valid cc_path_root)
    next
      case 2
      moreover then have "p' < p" "q' < q"
        using cc_okD(2) [OF assms(1)] less.prems by blast+
      ultimately show ?thesis
        using less True by (subst simple_cc_equal.simps) (simp add: deref_valid cc_path_step)
    qed
  qed
qed

text \<open>The pointers along that path.\<close>

function cc_ptrs :: "CCNode list \<Rightarrow> cc_ptr \<Rightarrow> cc_ptr list" where
  "cc_ptrs cells p =
     p # (case m_parent (cells ! p) of
        None \<Rightarrow> []
      | Some q \<Rightarrow> if q < p then cc_ptrs cells q else [])"
  by pat_completeness auto
termination
  by (relation "measure snd") auto

declare cc_ptrs.simps [simp del]

lemma cc_ptrs_le: "q \<in> set (cc_ptrs cells p) \<Longrightarrow> q \<le> p"
proof (induction p rule: less_induct)
  case (less p)
  then show ?case
    by (subst (asm) cc_ptrs.simps) (fastforce split: option.splits if_splits)
qed

text \<open>
  What \<open>simple_stacktrace\<close> answers when a node \<open>d\<close> of the path is marked as done: the methods of the
  nodes before it and the trace stored there. The nodes before it get their part of the answer.
\<close>

definition open_nodes :: "CCNode list \<Rightarrow> cc_ptr \<Rightarrow> cc_ptr list" where
  "open_nodes cells p = takeWhile (\<lambda>q. \<not> m_done_cc (cells ! q)) (cc_ptrs cells p)"

definition done_nodes :: "CCNode list \<Rightarrow> cc_ptr \<Rightarrow> cc_ptr list" where
  "done_nodes cells p = dropWhile (\<lambda>q. \<not> m_done_cc (cells ! q)) (cc_ptrs cells p)"

definition trace_from :: "CCNode list \<Rightarrow> cc_ptr list \<Rightarrow> cc_ptr \<Rightarrow> method_ptr list" where
  "trace_from cells qs d = map (\<lambda>q. the (m_method (cells ! q))) qs @ m_simptrace (cells ! d)"

definition traces_stored :: "CCNode list \<Rightarrow> cc_ptr list \<Rightarrow> cc_ptr \<Rightarrow> CCNode list \<Rightarrow> bool" where
  "traces_stored cells qs d cells' \<longleftrightarrow> length cells' = length cells \<and>
     (\<forall>q < length cells. cells' ! q =
        (if q \<in> set qs
         then (cells ! q)\<lparr>m_done_cc := True, m_simptrace := trace_from cells (dropWhile (\<lambda>r. r \<noteq> q) qs) d\<rparr>
         else cells ! q))"

lemma simple_stacktrace_path:
  assumes "cc_ok x" and "p < length (cc_cells x)"
  shows "case done_nodes (cc_cells x) p of
      [] \<Rightarrow> simple_stacktrace p (cc_cells x) = Some (Inl Assertion_Failed)
    | d # _ \<Rightarrow> \<exists>cells'. simple_stacktrace p (cc_cells x) = Some (Inr (trace_from (cc_cells x) (open_nodes (cc_cells x) p) d, cells')) \<and>
        traces_stored (cc_cells x) (open_nodes (cc_cells x) p) d cells'"
  using assms(2)
proof (induction p rule: less_induct)
  case (less p)
  let ?cells = "cc_cells x"
  show ?case
  proof (cases "m_done_cc (?cells ! p)")
    case True
    then have "done_nodes ?cells p = p # tl (cc_ptrs ?cells p)" "open_nodes ?cells p = []"
      by (simp_all add: done_nodes_def open_nodes_def cc_ptrs.simps [of _ p])
    then show ?thesis
      using True less.prems
      by (subst (1 2) simple_stacktrace.simps) (simp add: deref_valid trace_from_def traces_stored_def)
  next
    case False
    show ?thesis
    proof (cases "m_parent (?cells ! p)")
      case None
      then have "done_nodes ?cells p = []" using False by (simp add: done_nodes_def cc_ptrs.simps [of _ p])
      then show ?thesis
        using False None less.prems cc_okD(1) [OF assms(1) less.prems]
        by (subst simple_stacktrace.simps) (simp add: deref_valid)
    next
      case (Some q)
      then have q: "q < p" "q < length ?cells" using cc_okD(2) [OF assms(1) less.prems] less.prems by auto
      obtain m where m: "m_method (?cells ! p) = Some m" using Some cc_okD(1) [OF assms(1) less.prems] by auto
      have path: "done_nodes ?cells p = done_nodes ?cells q" "open_nodes ?cells p = p # open_nodes ?cells q"
        using False Some q(1) by (simp_all add: done_nodes_def open_nodes_def cc_ptrs.simps [of _ p])
      have run: "simple_stacktrace p ?cells = Option.bind (simple_stacktrace q ?cells) (\<lambda>r. Some (case r of
          Inl e \<Rightarrow> Inl e | Inr (rest, cells) \<Rightarrow> Inr (m # rest, cells[p := (cells ! p)\<lparr>m_done_cc := True, m_simptrace := m # rest\<rparr>])))"
        using False Some m less.prems by (subst simple_stacktrace.simps) (simp add: deref_valid)
      show ?thesis
      proof (cases "done_nodes ?cells q")
        case Nil
        then show ?thesis using less.IH [OF q] run path(1) by simp
      next
        case (Cons d ds)
        let ?qs = "open_nodes ?cells q" and ?t = "trace_from ?cells (p # open_nodes ?cells q) d"
        obtain cells' where c: "simple_stacktrace q ?cells = Some (Inr (trace_from ?cells ?qs d, cells'))" "traces_stored ?cells ?qs d cells'"
          using less.IH [OF q] Cons by auto
        have "p \<notin> set ?qs"
          using cc_ptrs_le [of p ?cells q] q(1) by (auto simp: open_nodes_def dest: set_takeWhileD)
        then have "cells' ! p = ?cells ! p" using c(2) less.prems by (simp add: traces_stored_def)
        then have "simple_stacktrace p ?cells = Some (Inr (?t, cells'[p := (?cells ! p)\<lparr>m_done_cc := True, m_simptrace := ?t\<rparr>]))"
          using run c(1) m by (simp add: trace_from_def)
        moreover have "traces_stored ?cells (p # ?qs) d (cells'[p := (?cells ! p)\<lparr>m_done_cc := True, m_simptrace := ?t\<rparr>])"
          using c(2) less.prems \<open>p \<notin> set ?qs\<close> by (auto simp: traces_stored_def nth_list_update)
        ultimately show ?thesis using path Cons by simp
      qed
    qed
  qed
qed

text \<open>
  C36: Comparing and listing contexts. In a well-formed tree \<open>simple_cc_equal\<close> returns, and tells
  whether the two paths to the root name the same methods. \<open>simple_stacktrace\<close> returns too: when no
  node on the path is marked as done (a mark that the constructor of a callee leaves unset) it fails the
  assertion it makes of the root, which has no method; otherwise it answers the methods up to the first
  marked node followed by the trace stored there, whatever that is, and marks the nodes it passed.
\<close>
theorem cc_compare_and_list:
  assumes "cc_ok x" and "p < length (cc_cells x)" and "q < length (cc_cells x)"
  shows "simple_cc_equal (cc_cells x) p q =
      Some (Inr (map m_method (cc_path (cc_cells x) p) = map m_method (cc_path (cc_cells x) q))) \<and>
    (case done_nodes (cc_cells x) p of
       [] \<Rightarrow> simple_stacktrace p (cc_cells x) = Some (Inl Assertion_Failed)
     | d # _ \<Rightarrow> \<exists>cells'. simple_stacktrace p (cc_cells x) = Some (Inr (trace_from (cc_cells x) (open_nodes (cc_cells x) p) d, cells')) \<and>
         traces_stored (cc_cells x) (open_nodes (cc_cells x) p) d cells')"
  using simple_cc_equal_path [OF assms] simple_stacktrace_path [OF assms(1,2)] by blast

lemma method_known_demo: "method_at (ClassInfo_init\<lparr>method_cells := [Method_new 5 None ''f'' ''d'' ''0'']\<rparr>)
    (Some (Method_Ptr 0)) = Inr (Method_new 5 None ''f'' ''d'' ''0'')"
  by (simp add: method_at_def deref_valid)

definition demo_tree :: ExecState where
  "demo_tree = snd (CCNode_root (ExecState_new Full))"

lemma demo_tree_ok: "cc_ok demo_tree" "0 < length (cc_cells demo_tree)" "length (cc_cells demo_tree) = 1"
  "cc_cells demo_tree ! 0 = \<lparr>m_method = None, m_parent = None, m_callees = [], m_done_cc = False,
      m_simptrace = [], m_node_id = 1\<rparr>"
  by (simp_all add: demo_tree_def CCNode_root_def ExecState_new_def cc_ok_def)

lemma cc_call_return_witness:
  "\<exists>q y. CCNode_Call (ClassInfo_init\<lparr>method_cells := [Method_new 5 None ''f'' ''d'' ''0'']\<rparr>) True 0
     (Some (Method_Ptr 0)) demo_tree = Inr (q, y) \<and> m_parent (cc_cells y ! q) = Some 0"
  using cc_call_return [OF demo_tree_ok(1,2) method_known_demo, of True] by blast

lemma cc_traces_end_witness:
  "CCNode_stacktrace_using_id ClassInfo_init 0 demo_tree = Some (Inr [0])"
proof -
  have "getMethodId ClassInfo_init (cc_cells demo_tree ! 0) = Inr 0"
    by (simp add: demo_tree_ok getMethodId_def)
  from cc_traces_end [OF demo_tree_ok(1,2) this] show ?thesis
    by (simp add: cc_path_root demo_tree_ok)
qed

text \<open>A root, and a callee of it whose unset mark happens to be set.\<close>

lemma cc_compare_and_list_witness:
  "simple_stacktrace 0 (cc_cells demo_tree) = Some (Inl Assertion_Failed) \<and>
   (\<exists>cells'. simple_stacktrace 1 (cc_cells (grown True 0 (Method_Ptr 0) 5 demo_tree)) = Some (Inr ([], cells'))) \<and>
   simple_cc_equal (cc_cells (grown True 0 (Method_Ptr 0) 5 demo_tree)) 1 0 = Some (Inr False)"
proof -
  let ?y = "grown True 0 (Method_Ptr 0) 5 demo_tree"
  have y: "cc_ok ?y" by (rule grown_ok [OF demo_tree_ok(1,2)])
  have len: "0 < length (cc_cells ?y)" "1 < length (cc_cells ?y)" by (simp_all add: grown_def demo_tree_ok(3))
  have node: "m_done_cc (cc_cells ?y ! 1)" "m_simptrace (cc_cells ?y ! 1) = []" "m_method (cc_cells ?y ! 1) = Some (Method_Ptr 0)"
    "m_parent (cc_cells ?y ! 1) = Some 0" "m_method (cc_cells ?y ! 0) = None" "m_parent (cc_cells ?y ! 0) = None"
    by (simp_all add: grown_def demo_tree_ok(3) nth_append) (simp_all add: demo_tree_ok(4))
  have "done_nodes (cc_cells demo_tree) 0 = []" by (simp add: done_nodes_def cc_ptrs.simps [of _ 0] demo_tree_ok(4))
  moreover have root: "cc_ptrs (cc_cells ?y) 0 = [0]" by (simp add: cc_ptrs.simps [of _ 0] node(6))
  moreover have "done_nodes (cc_cells ?y) 1 = [1, 0]" "open_nodes (cc_cells ?y) 1 = []"
    by (simp_all add: done_nodes_def open_nodes_def cc_ptrs.simps [of _ 1] root node del: One_nat_def)
  moreover have "map m_method (cc_path (cc_cells ?y) 1) \<noteq> map m_method (cc_path (cc_cells ?y) 0)"
    by (simp add: cc_path_root cc_path_step [of _ 1 0] node del: One_nat_def)
  ultimately show ?thesis
    using cc_compare_and_list [OF demo_tree_ok(1,2,2)] cc_compare_and_list [OF y len(2,1)] by (simp add: trace_from_def node del: One_nat_def) blast
qed

text \<open>In the mode \<open>Full\<close> a thread has no current node until something stores one: the first call asserts.\<close>

lemma full_mode_first_call:
  assumes "m_kind_x x = Full" and "map_of (m_threads x) t = None"
  shows "Exec_Call ci None ud m t x = Inl Assertion_Failed"
  using assms
  by (simp add: Exec_Call_def getThread_def CCNode_root_def IncMethodTime_def Thread_Call_def deref_valid
      Thread_new_def Thread_TopCC_def Let_def)

section \<open>Contexts\<close>

text \<open>
  A method is known when it and its class are in the tables. The context of a node is the list of the
  identifiers of its method and of its callers up to the root, which has none.
\<close>

definition method_known :: "ClassInfo \<Rightarrow> method_ptr \<Rightarrow> bool" where
  "method_known ci m \<longleftrightarrow> (\<exists>s. Method_info ci (Some m) = Inr s)"

definition method_id :: "ClassInfo \<Rightarrow> method_ptr \<Rightarrow> u32" where
  "method_id ci m = (case method_at ci (Some m) of Inl _ \<Rightarrow> 0 | Inr meth \<Rightarrow> m_id meth)"

definition node_context :: "ClassInfo \<Rightarrow> CCNode list \<Rightarrow> cc_ptr \<Rightarrow> u32 list" where
  "node_context ci cells p = map (method_id ci) (List.map_filter m_method (cc_path cells p))"

function cc_root :: "CCNode list \<Rightarrow> cc_ptr \<Rightarrow> cc_ptr" where
  "cc_root cells p =
     (case m_parent (cells ! p) of
        None \<Rightarrow> p
      | Some q \<Rightarrow> if q < p then cc_root cells q else p)"
  by pat_completeness auto
termination
  by (relation "measure snd") auto

declare cc_root.simps [simp del]

lemma method_knownD: "method_known ci m \<Longrightarrow> \<exists>meth s. method_at ci (Some m) = Inr meth \<and> m_id meth = method_id ci m \<and> Method_info ci (Some m) = Inr s"
  by (auto simp: method_known_def Method_info_def method_id_def fault_simps)

text \<open>A well-formed tree whose nodes are registered with their callers under the identifiers of their methods.\<close>

definition tree_ok :: "ClassInfo \<Rightarrow> ExecState \<Rightarrow> bool" where
  "tree_ok ci x \<longleftrightarrow> cc_ok x \<and>
     (\<forall>q < length (cc_cells x). \<forall>m. m_method (cc_cells x ! q) = Some m \<longrightarrow> method_known ci m \<and>
        (\<exists>p. m_parent (cc_cells x ! q) = Some p \<and> map_of (m_callees (cc_cells x ! p)) (method_id ci m) = Some q)) \<and>
     (\<forall>p < length (cc_cells x). \<forall>i q. map_of (m_callees (cc_cells x ! p)) i = Some q \<longrightarrow>
        (\<exists>m. m_method (cc_cells x ! q) = Some m \<and> method_id ci m = i))"

lemma tree_okD:
  assumes "tree_ok ci x" and "q < length (cc_cells x)"
  shows "m_method (cc_cells x ! q) = Some m \<Longrightarrow> method_known ci m \<and> (\<exists>p < q. m_parent (cc_cells x ! q) = Some p \<and>
      map_of (m_callees (cc_cells x ! p)) (method_id ci m) = Some q)"
    and "map_of (m_callees (cc_cells x ! q)) i = Some r \<Longrightarrow> r < length (cc_cells x) \<and> m_parent (cc_cells x ! r) = Some q \<and>
      (\<exists>m. m_method (cc_cells x ! r) = Some m \<and> method_id ci m = i)"
    and "m_method (cc_cells x ! q) = None \<Longrightarrow> m_parent (cc_cells x ! q) = None"
proof -
  have ok: "cc_ok x" using assms(1) by (simp add: tree_ok_def)
  show "m_method (cc_cells x ! q) = Some m \<Longrightarrow> method_known ci m \<and> (\<exists>p < q. m_parent (cc_cells x ! q) = Some p \<and>
      map_of (m_callees (cc_cells x ! p)) (method_id ci m) = Some q)"
    using assms cc_okD(2) [OF ok assms(2)] unfolding tree_ok_def by blast
  show "map_of (m_callees (cc_cells x ! q)) i = Some r \<Longrightarrow> r < length (cc_cells x) \<and> m_parent (cc_cells x ! r) = Some q \<and>
      (\<exists>m. m_method (cc_cells x ! r) = Some m \<and> method_id ci m = i)"
    using assms unfolding tree_ok_def cc_ok_def by blast
  show "m_method (cc_cells x ! q) = None \<Longrightarrow> m_parent (cc_cells x ! q) = None"
    using cc_okD(1) [OF ok assms(2)] by blast
qed

lemma context_root:
  "m_parent (cells ! p) = None \<Longrightarrow> m_method (cells ! p) = None \<Longrightarrow> node_context ci cells p = [] \<and> cc_root cells p = p"
  by (subst cc_root.simps) (simp add: node_context_def cc_path_root map_filter_simps)

lemma context_step:
  "m_parent (cells ! p) = Some q \<Longrightarrow> q < p \<Longrightarrow> m_method (cells ! p) = Some m \<Longrightarrow>
     node_context ci cells p = method_id ci m # node_context ci cells q \<and> cc_root cells p = cc_root cells q"
  by (subst cc_root.simps) (simp add: node_context_def cc_path_step map_filter_simps)

text \<open>A context depends on the parents and the methods of the older nodes only.\<close>

lemma context_frame:
  assumes "tree_ok ci x" and "\<And>k. k < length (cc_cells x) \<Longrightarrow>
      m_parent (cells ! k) = m_parent (cc_cells x ! k) \<and> m_method (cells ! k) = m_method (cc_cells x ! k)"
  shows "p < length (cc_cells x) \<Longrightarrow> node_context ci cells p = node_context ci (cc_cells x) p \<and> cc_root cells p = cc_root (cc_cells x) p"
proof (induction p rule: less_induct)
  case (less p)
  show ?case
  proof (cases "m_method (cc_cells x ! p)")
    case None
    then show ?thesis
      using tree_okD(3) [OF assms(1) less.prems] assms(2) [OF less.prems] context_root [of cells p ci] context_root [of "cc_cells x" p ci]
      by simp
  next
    case (Some m)
    then obtain q where q: "q < p" "m_parent (cc_cells x ! p) = Some q"
      using tree_okD(1) [OF assms(1) less.prems] by blast
    then show ?thesis
      using less Some assms(2) [OF less.prems] context_step [of cells p q m ci] context_step [of "cc_cells x" p q m ci] by simp
  qed
qed

text \<open>No two nodes have the same root and the same context.\<close>

lemma context_unique:
  assumes "tree_ok ci x"
  shows "p < length (cc_cells x) \<Longrightarrow> q < length (cc_cells x) \<Longrightarrow> cc_root (cc_cells x) p = cc_root (cc_cells x) q \<Longrightarrow>
    node_context ci (cc_cells x) p = node_context ci (cc_cells x) q \<Longrightarrow> p = q"
proof (induction p arbitrary: q rule: less_induct)
  case (less p)
  note up = tree_okD(1) [OF assms less.prems(1)] tree_okD(1) [OF assms less.prems(2)]
  note top = tree_okD(3) [OF assms less.prems(1)] tree_okD(3) [OF assms less.prems(2)]
  show ?case
  proof (cases "m_method (cc_cells x ! p)")
    case None
    then have p: "node_context ci (cc_cells x) p = []" "cc_root (cc_cells x) p = p" using context_root top(1) by blast+
    have "m_method (cc_cells x ! q) = None"
    proof (rule ccontr)
      assume "m_method (cc_cells x ! q) \<noteq> None"
      then obtain m r where "m_method (cc_cells x ! q) = Some m" "r < q" "m_parent (cc_cells x ! q) = Some r"
        using up(2) by blast
      then show False using context_step [of "cc_cells x" q r m ci] p less.prems(4) by simp
    qed
    then show ?thesis using context_root [of "cc_cells x" q ci] top(2) p less.prems(3) by simp
  next
    case (Some m)
    then obtain p' where p: "p' < p" "m_parent (cc_cells x ! p) = Some p'"
        "map_of (m_callees (cc_cells x ! p')) (method_id ci m) = Some p" using up(1) by blast
    have cp: "node_context ci (cc_cells x) p = method_id ci m # node_context ci (cc_cells x) p'"
        "cc_root (cc_cells x) p = cc_root (cc_cells x) p'" using context_step [OF p(2,1) Some] by auto
    have "m_method (cc_cells x ! q) \<noteq> None"
      using context_root [of "cc_cells x" q ci] top(2) cp(1) less.prems(4) by force
    then obtain n q' where q: "m_method (cc_cells x ! q) = Some n" "q' < q" "m_parent (cc_cells x ! q) = Some q'"
        "map_of (m_callees (cc_cells x ! q')) (method_id ci n) = Some q" using up(2) by blast
    have cq: "node_context ci (cc_cells x) q = method_id ci n # node_context ci (cc_cells x) q'"
        "cc_root (cc_cells x) q = cc_root (cc_cells x) q'" using context_step [OF q(3,2,1)] by auto
    have "p' = q'"
      using less.IH [OF p(1), of q'] p(1) q(2) less.prems cp cq by simp
    then show ?thesis using p(3) q(4) cp cq less.prems(4) by simp
  qed
qed


text \<open>A call from a node, in either case: the callee has the context of the caller with the method on top.\<close>

definition links_kept :: "ExecState \<Rightarrow> ExecState \<Rightarrow> bool" where
  "links_kept x y \<longleftrightarrow> length (cc_cells x) \<le> length (cc_cells y) \<and> thread_cells y = thread_cells x \<and>
     (\<forall>k < length (cc_cells x). m_parent (cc_cells y ! k) = m_parent (cc_cells x ! k) \<and>
        m_method (cc_cells y ! k) = m_method (cc_cells x ! k))"

lemma grown_node:
  "p < length (cc_cells x) \<Longrightarrow> k < length (cc_cells x) \<Longrightarrow> cc_cells (grown ud p m i x) ! k =
     (if k = p then (cc_cells x ! p)\<lparr>m_callees := om_put i (length (cc_cells x)) (m_callees (cc_cells x ! p))\<rparr>
      else cc_cells x ! k)"
  by (simp add: grown_def nth_append)

lemma grown_tree_ok:
  assumes "tree_ok ci x" and "p < length (cc_cells x)" and "method_known ci m"
    and new: "map_of (m_callees (cc_cells x ! p)) (method_id ci m) = None"
  shows "tree_ok ci (grown ud p m (method_id ci m) x)"
proof -
  let ?q = "length (cc_cells x)"
  define y where "y = grown ud p m (method_id ci m) x"
  have len: "length (cc_cells y) = Suc ?q" by (simp add: y_def grown_def)
  have old: "m_method (cc_cells y ! k) = m_method (cc_cells x ! k)" "m_parent (cc_cells y ! k) = m_parent (cc_cells x ! k)"
    "m_callees (cc_cells y ! k) = (if k = p then om_put (method_id ci m) ?q (m_callees (cc_cells x ! p)) else m_callees (cc_cells x ! k))"
    if "k < ?q" for k using that assms(2) by (cases "k = p"; simp add: y_def grown_node)+
  have last: "m_method (cc_cells y ! ?q) = Some m" "m_parent (cc_cells y ! ?q) = Some p" "m_callees (cc_cells y ! ?q) = []"
    using assms(2) by (simp_all add: y_def grown_def nth_append)
  have "cc_ok y" unfolding y_def using assms(1,2) by (intro grown_ok) (simp_all add: tree_ok_def)
  moreover have "method_known ci n \<and> (\<exists>r. m_parent (cc_cells y ! q) = Some r \<and> map_of (m_callees (cc_cells y ! r)) (method_id ci n) = Some q)"
    if bound: "q < length (cc_cells y)" and meth: "m_method (cc_cells y ! q) = Some n" for q n
  proof (cases "q = ?q")
    case True
    then show ?thesis using meth last old(3) [OF assms(2)] assms(3) by simp
  next
    case False
    then have q: "q < ?q" using bound len by simp
    then obtain r where r: "method_known ci n" "r < q" "m_parent (cc_cells x ! q) = Some r"
        "map_of (m_callees (cc_cells x ! r)) (method_id ci n) = Some q"
      using tree_okD(1) [OF assms(1) q, of n] meth old(1) [OF q] by auto
    moreover have "\<not> (r = p \<and> method_id ci n = method_id ci m)" using r(4) new by auto
    ultimately show ?thesis using q old(2) [OF q] old(3) [of r] by auto
  qed
  moreover have "\<exists>n. m_method (cc_cells y ! q) = Some n \<and> method_id ci n = i"
    if bound: "k < length (cc_cells y)" and callee: "map_of (m_callees (cc_cells y ! k)) i = Some q" for k i q
  proof (cases "k = ?q")
    case True then show ?thesis using callee last(3) by simp
  next
    case False
    then have k: "k < ?q" using bound len by simp
    have "k = p \<and> i = method_id ci m \<and> q = ?q \<or> map_of (m_callees (cc_cells x ! k)) i = Some q"
      using callee unfolding old(3) [OF k] by (simp split: if_splits)
    then consider "k = p" "i = method_id ci m" "q = ?q" | "map_of (m_callees (cc_cells x ! k)) i = Some q" by blast
    then show ?thesis
    proof cases
      case 1 then show ?thesis using last by simp
    next
      case 2 then show ?thesis using tree_okD(2) [OF assms(1) k 2] old(1) [of q] by auto
    qed
  qed
  ultimately show ?thesis unfolding y_def [symmetric] tree_ok_def by blast
qed

lemma CCNode_Call_context:
  assumes "tree_ok ci x" and "p < length (cc_cells x)" and "method_known ci m"
  shows "\<exists>q y. CCNode_Call ci ud p (Some m) x = Inr (q, y) \<and> tree_ok ci y \<and> links_kept x y \<and> q < length (cc_cells y) \<and>
    node_context ci (cc_cells y) q = method_id ci m # node_context ci (cc_cells x) p \<and>
    cc_root (cc_cells y) q = cc_root (cc_cells x) p"
proof -
  obtain meth where meth: "method_at ci (Some m) = Inr meth" "m_id meth = method_id ci m"
    using method_knownD [OF assms(3)] by blast
  show ?thesis
  proof (cases "map_of (m_callees (cc_cells x ! p)) (method_id ci m)")
    case (Some q)
    note q = tree_okD(2) [OF assms(1,2) Some]
    then obtain n where n: "m_method (cc_cells x ! q) = Some n" "method_id ci n = method_id ci m" by blast
    have "p < q" using q tree_okD(1) [OF assms(1) _ n(1)] by auto
    then have "node_context ci (cc_cells x) q = method_id ci m # node_context ci (cc_cells x) p"
      "cc_root (cc_cells x) q = cc_root (cc_cells x) p" using context_step [of "cc_cells x" q p n ci] q n by auto
    moreover have "CCNode_Call ci ud p (Some m) x = Inr (q, x)"
      using Some meth assms(2) by (simp add: CCNode_Call_def deref_valid)
    ultimately show ?thesis using assms(1) q by (auto simp: links_kept_def)
  next
    case None
    let ?q = "length (cc_cells x)"
    define y where "y = grown ud p m (method_id ci m) x"
    have run: "CCNode_Call ci ud p (Some m) x = Inr (?q, y)"
      using assms(2) None meth by (simp add: CCNode_Call_def deref_valid CCNode_new_def y_def grown_def)
    have ok: "tree_ok ci y" unfolding y_def by (rule grown_tree_ok [OF assms None])
    have kept: "links_kept x y"
      using assms(2) by (auto simp: links_kept_def y_def grown_node) (simp_all add: grown_def)
    have node: "m_method (cc_cells y ! ?q) = Some m" "m_parent (cc_cells y ! ?q) = Some p" "?q < length (cc_cells y)"
      using assms(2) by (simp_all add: y_def grown_def nth_append)
    have "node_context ci (cc_cells y) p = node_context ci (cc_cells x) p \<and> cc_root (cc_cells y) p = cc_root (cc_cells x) p"
      using kept by (intro context_frame [OF assms(1) _ assms(2)]) (simp add: links_kept_def)
    then show ?thesis
      using run ok kept node context_step [OF node(2) assms(2) node(1), of ci] by auto
  qed
qed

section \<open>Growing the tree\<close>

text \<open>
  The tree changes by two operations: a new root (\<open>CCNode()\<close>, as the constructor of a thread makes it)
  and a call from a node, with what the memory of a new node holds in \<open>m_done\<close>.
\<close>

datatype tree_op = New_Root | Call_From bool cc_ptr method_ptr

fun tree_step :: "ClassInfo \<Rightarrow> ExecState \<Rightarrow> tree_op \<Rightarrow> ExecState result" where
  "tree_step ci x New_Root = Inr (snd (CCNode_root x))"
| "tree_step ci x (Call_From ud p m) = bindR (CCNode_Call ci ud p (Some m) x) (\<lambda>(q, x). Inr x)"

text \<open>A client that follows a list of calls down from a node, and one that returns from them again.\<close>

definition call_path :: "ClassInfo \<Rightarrow> bool \<Rightarrow> method_ptr list \<Rightarrow> cc_ptr \<times> ExecState \<Rightarrow> (cc_ptr \<times> ExecState) result" where
  "call_path ci ud = foldR (\<lambda>(p, x) m. CCNode_Call ci ud p (Some m) x)"

definition return_path :: "ClassInfo \<Rightarrow> ExecState \<Rightarrow> method_ptr list \<Rightarrow> cc_ptr \<Rightarrow> cc_ptr result" where
  "return_path ci x = foldR (\<lambda>p m. bindR (CCNode_Return ci p (Some m) x) (\<lambda>up. case up of None \<Rightarrow> Inl Null_Pointer | Some q \<Rightarrow> Inr q))"

lemma root_tree_ok:
  assumes "tree_ok ci x"
  shows "tree_ok ci (snd (CCNode_root x))"
proof -
  let ?y = "snd (CCNode_root x)" and ?n = "length (cc_cells x)"
  have y: "length (cc_cells ?y) = Suc ?n" "m_ccnode_nextid ?y = m_ccnode_nextid x + 1"
    "m_method (cc_cells ?y ! ?n) = None" "m_parent (cc_cells ?y ! ?n) = None" "m_callees (cc_cells ?y ! ?n) = []"
    "m_node_id (cc_cells ?y ! ?n) = m_ccnode_nextid x"
    by (simp_all add: CCNode_root_def get_next_node_id_def)
  have old: "cc_cells ?y ! k = cc_cells x ! k" if "k < ?n" for k
    using that by (simp add: CCNode_root_def get_next_node_id_def nth_append)
  have ok: "cc_ok x" using assms by (simp add: tree_ok_def)
  then have nextid: "m_ccnode_nextid x = of_nat (Suc ?n)" by (simp add: cc_ok_def)
  have "cc_ok ?y"
    unfolding cc_ok_def
  proof (intro conjI allI impI)
    show "m_ccnode_nextid ?y = of_nat (Suc (length (cc_cells ?y)))" by (simp add: y nextid)
    fix k assume k: "k < length (cc_cells ?y)"
    have facts: "m_node_id (cc_cells ?y ! k) = of_nat (Suc k) \<and> (m_parent (cc_cells ?y ! k) = None) = (m_method (cc_cells ?y ! k) = None) \<and>
      (\<forall>q. m_parent (cc_cells ?y ! k) = Some q \<longrightarrow> q < k) \<and>
      (\<forall>i q. map_of (m_callees (cc_cells ?y ! k)) i = Some q \<longrightarrow> q < ?n \<and> m_parent (cc_cells x ! q) = Some k)"
    proof (cases "k = ?n")
      case True
      then show ?thesis using nextid by (simp add: y)
    next
      case False
      then have "k < ?n" using k y(1) by simp
      then show ?thesis using ok unfolding cc_ok_def old [OF \<open>k < ?n\<close>] by blast
    qed
    show "m_node_id (cc_cells ?y ! k) = of_nat (Suc k)" "(m_parent (cc_cells ?y ! k) = None) = (m_method (cc_cells ?y ! k) = None)"
      using facts by blast+
    show "m_parent (cc_cells ?y ! k) = Some q \<Longrightarrow> q < k" for q using facts by blast
    fix i r assume "map_of (m_callees (cc_cells ?y ! k)) i = Some r"
    then have "r < ?n" "m_parent (cc_cells x ! r) = Some k" using facts by blast+
    then show "r < length (cc_cells ?y)" "m_parent (cc_cells ?y ! r) = Some k" by (simp_all add: y(1) old)
  qed
  moreover have "method_known ci m \<and> (\<exists>p. m_parent (cc_cells ?y ! q) = Some p \<and> map_of (m_callees (cc_cells ?y ! p)) (method_id ci m) = Some q)"
    if "q < length (cc_cells ?y)" "m_method (cc_cells ?y ! q) = Some m" for q m
  proof -
    have q: "q < ?n" using that y by (cases "q = ?n") (auto simp: less_Suc_eq)
    then show ?thesis using tree_okD(1) [OF assms q, of m] that(2) by (auto simp: old)
  qed
  moreover have "\<exists>m. m_method (cc_cells ?y ! q) = Some m \<and> method_id ci m = i"
    if "p < length (cc_cells ?y)" "map_of (m_callees (cc_cells ?y ! p)) i = Some q" for p i q
  proof -
    have p: "p < ?n" using that y by (cases "p = ?n") (auto simp: less_Suc_eq)
    then show ?thesis using tree_okD(2) [OF assms p, of i q] that(2) by (auto simp: old)
  qed
  ultimately show ?thesis by (simp add: tree_ok_def)
qed

lemma tree_ok_start: "tree_ok ci (ExecState_new k)"
  by (simp add: tree_ok_def cc_ok_def ExecState_new_def)

lemma tree_step_ok:
  assumes "tree_ok ci x" and "tree_step ci x op = Inr y" and "\<forall>ud p m. op = Call_From ud p m \<longrightarrow> method_known ci m"
  shows "tree_ok ci y"
proof (cases op)
  case New_Root
  then show ?thesis using assms root_tree_ok by auto
next
  case (Call_From ud p m)
  then have "p < length (cc_cells x)" using assms(2) by (auto simp: CCNode_Call_def fault_simps)
  from CCNode_Call_context [OF assms(1) this, of m ud] Call_From assms(2,3) show ?thesis by auto
qed

lemma tree_run_ok:
  "tree_ok ci x \<Longrightarrow> foldR (tree_step ci) ops x = Inr y \<Longrightarrow> \<forall>ud p m. Call_From ud p m \<in> set ops \<longrightarrow> method_known ci m \<Longrightarrow> tree_ok ci y"
proof (induction ops arbitrary: x)
  case (Cons op ops)
  then obtain z where z: "tree_step ci x op = Inr z" "foldR (tree_step ci) ops z = Inr y" by (auto simp: fault_simps)
  have "tree_ok ci z" using Cons.prems(1,3) z(1) by (intro tree_step_ok [of ci x op z]) auto
  then show ?case using Cons.IH z(2) Cons.prems(3) by simp
qed simp

section \<open>Walking down and up\<close>

text \<open>A call finds the node that is there already.\<close>

lemma CCNode_Call_again:
  assumes "tree_ok ci x" and "p < length (cc_cells x)" and "method_known ci m" and "r < length (cc_cells x)"
    and "node_context ci (cc_cells x) r = method_id ci m # node_context ci (cc_cells x) p"
    and "cc_root (cc_cells x) r = cc_root (cc_cells x) p"
  shows "CCNode_Call ci ud p (Some m) x = Inr (r, x)"
proof -
  have "m_method (cc_cells x ! r) \<noteq> None"
    using assms(5) context_root tree_okD(3) [OF assms(1,4)] by force
  then obtain n p' where n: "m_method (cc_cells x ! r) = Some n" "p' < r" "m_parent (cc_cells x ! r) = Some p'"
    "map_of (m_callees (cc_cells x ! p')) (method_id ci n) = Some r"
    using tree_okD(1) [OF assms(1,4)] by blast
  from context_step [OF n(3,2,1), of ci] have "p' = p" "method_id ci n = method_id ci m"
    using assms n(2) context_unique [OF assms(1), of p' p] by auto
  moreover obtain meth where "method_at ci (Some m) = Inr meth" "m_id meth = method_id ci m"
    using method_knownD [OF assms(3)] by blast
  ultimately show ?thesis using n(4) assms(2) by (simp add: CCNode_Call_def deref_valid)
qed

lemma call_path_again:
  assumes "tree_ok ci x" and "p < length (cc_cells x)"
  shows "\<forall>m \<in> set ms. method_known ci m \<Longrightarrow> r < length (cc_cells x) \<Longrightarrow>
    node_context ci (cc_cells x) r = rev (map (method_id ci) ms) @ node_context ci (cc_cells x) p \<Longrightarrow>
    cc_root (cc_cells x) r = cc_root (cc_cells x) p \<Longrightarrow> call_path ci ud ms (p, x) = Inr (r, x)"
proof (induction ms arbitrary: r rule: rev_induct)
  case Nil
  then show ?case using context_unique [OF assms(1)] assms(2) by (simp add: call_path_def)
next
  case (snoc m ms)
  have "m_method (cc_cells x ! r) \<noteq> None"
    using snoc.prems(3) context_root tree_okD(3) [OF assms(1) snoc.prems(2)] by force
  then obtain n r' where r': "m_method (cc_cells x ! r) = Some n" "r' < r" "m_parent (cc_cells x ! r) = Some r'"
    using tree_okD(1) [OF assms(1) snoc.prems(2)] by blast
  note up = context_step [OF r'(3,2,1), of ci]
  have "call_path ci ud ms (p, x) = Inr (r', x)"
    using snoc.prems up r'(2) by (intro snoc.IH) auto
  moreover have "CCNode_Call ci ud r' (Some m) x = Inr (r, x)"
    using snoc.prems up r'(2) by (intro CCNode_Call_again [OF assms(1)]) auto
  ultimately show ?case by (simp add: call_path_def foldR_append)
qed

lemma call_path_context:
  assumes "tree_ok ci x" and "p < length (cc_cells x)" and "\<forall>m \<in> set ms. method_known ci m"
  shows "\<exists>q y. call_path ci ud ms (p, x) = Inr (q, y) \<and> tree_ok ci y \<and> q < length (cc_cells y) \<and> length (cc_cells x) \<le> length (cc_cells y) \<and>
    node_context ci (cc_cells y) q = rev (map (method_id ci) ms) @ node_context ci (cc_cells x) p \<and>
    cc_root (cc_cells y) q = cc_root (cc_cells x) p \<and>
    (\<forall>r < length (cc_cells x). node_context ci (cc_cells y) r = node_context ci (cc_cells x) r \<and> cc_root (cc_cells y) r = cc_root (cc_cells x) r)"
  using assms
proof (induction ms arbitrary: p x)
  case Nil
  then show ?case by (simp add: call_path_def)
next
  case (Cons m ms)
  obtain q y where q: "CCNode_Call ci ud p (Some m) x = Inr (q, y)" "tree_ok ci y" "links_kept x y" "q < length (cc_cells y)"
    "node_context ci (cc_cells y) q = method_id ci m # node_context ci (cc_cells x) p"
    "cc_root (cc_cells y) q = cc_root (cc_cells x) p"
    using CCNode_Call_context [OF Cons.prems(1,2), of m ud] Cons.prems(3) by auto
  have kept: "node_context ci (cc_cells y) r = node_context ci (cc_cells x) r \<and> cc_root (cc_cells y) r = cc_root (cc_cells x) r"
    if "r < length (cc_cells x)" for r
    using q(3) that by (intro context_frame [OF Cons.prems(1)]) (simp_all add: links_kept_def)
  obtain r z where r: "call_path ci ud ms (q, y) = Inr (r, z)" "tree_ok ci z" "r < length (cc_cells z)" "length (cc_cells y) \<le> length (cc_cells z)"
    "node_context ci (cc_cells z) r = rev (map (method_id ci) ms) @ node_context ci (cc_cells y) q"
    "cc_root (cc_cells z) r = cc_root (cc_cells y) q"
    "\<forall>k < length (cc_cells y). node_context ci (cc_cells z) k = node_context ci (cc_cells y) k \<and> cc_root (cc_cells z) k = cc_root (cc_cells y) k"
    using Cons.IH [OF q(2,4)] Cons.prems(3) by auto
  have "length (cc_cells x) \<le> length (cc_cells y)" using q(3) by (simp add: links_kept_def)
  then show ?case using q r kept by (intro exI [of _ r] exI [of _ z]) (auto simp: call_path_def)
qed

text \<open>The returns lead back, whatever methods they name: as many steps up as there are.\<close>

lemma return_path_back:
  assumes "tree_ok ci x"
  shows "\<forall>m \<in> set ms. method_known ci m \<Longrightarrow> q < length (cc_cells x) \<Longrightarrow> length ids = length ms \<Longrightarrow>
    node_context ci (cc_cells x) q = ids @ node_context ci (cc_cells x) p \<Longrightarrow> p < length (cc_cells x) \<Longrightarrow>
    cc_root (cc_cells x) q = cc_root (cc_cells x) p \<Longrightarrow> return_path ci x ms q = Inr p"
proof (induction ms arbitrary: q ids)
  case Nil
  then show ?case using context_unique [OF assms] by (simp add: return_path_def)
next
  case (Cons m ms)
  then obtain i js where ids: "ids = i # js" by (cases ids) auto
  have "m_method (cc_cells x ! q) \<noteq> None"
    using Cons.prems(4) ids context_root tree_okD(3) [OF assms Cons.prems(2)] by force
  then obtain n r where n: "m_method (cc_cells x ! q) = Some n" "r < q" "m_parent (cc_cells x ! q) = Some r" "method_known ci n"
    using tree_okD(1) [OF assms Cons.prems(2)] by blast
  have "method_known ci m" using Cons.prems(1) by simp
  then obtain s where "Method_info ci (Some m) = Inr s" using method_knownD by blast
  moreover obtain s' where "Method_info ci (Some n) = Inr s'" using method_knownD [OF n(4)] by blast
  ultimately have "CCNode_Return ci q (Some m) x = Inr (Some r)"
    using n Cons.prems(2) by (simp add: CCNode_Return_def deref_valid)
  moreover have "return_path ci x ms r = Inr p"
    using Cons.prems context_step [OF n(3,2,1), of ci] n(2) ids by (intro Cons.IH [of r js]) auto
  ultimately show ?case by (simp add: return_path_def)
qed

text \<open>
  C8: Calling contexts. In every tree that grows from nothing by new roots and by calls of known methods
  from any of its nodes, in any order, following a list of calls down from a node runs without a fault to
  a node that stands for the identifiers of these methods on top of the context of the first node, under
  the same root; following them again makes no new node and ends at the same one; as many returns lead back.
  Older nodes keep their contexts, and a root and a context determine a node. A thread of the mode \<open>Full\<close>
  does not get so far: the first call of a thread whose memory holds NULL where its constructor sets no
  current node fails an assertion.
\<close>
theorem calling_contexts:
  assumes "foldR (tree_step ci) ops (ExecState_new k) = Inr x" and "\<forall>ud p m. Call_From ud p m \<in> set ops \<longrightarrow> method_known ci m"
    and "p < length (cc_cells x)" and "\<forall>m \<in> set ms. method_known ci m"
  shows "(\<exists>q y. call_path ci ud ms (p, x) = Inr (q, y) \<and> q < length (cc_cells y) \<and>
      node_context ci (cc_cells y) q = rev (map (method_id ci) ms) @ node_context ci (cc_cells x) p \<and>
      cc_root (cc_cells y) q = cc_root (cc_cells x) p \<and>
      (\<forall>ud'. call_path ci ud' ms (p, y) = Inr (q, y)) \<and>
      (\<forall>ns. length ns = length ms \<longrightarrow> (\<forall>n \<in> set ns. method_known ci n) \<longrightarrow> return_path ci y ns q = Inr p) \<and>
      (\<forall>r < length (cc_cells x). node_context ci (cc_cells y) r = node_context ci (cc_cells x) r \<and> cc_root (cc_cells y) r = cc_root (cc_cells x) r) \<and>
      (\<forall>r < length (cc_cells y). \<forall>s < length (cc_cells y). cc_root (cc_cells y) r = cc_root (cc_cells y) s \<longrightarrow>
         node_context ci (cc_cells y) r = node_context ci (cc_cells y) s \<longrightarrow> r = s)) \<and>
    (\<forall>z t m. m_kind_x z = Full \<longrightarrow> map_of (m_threads z) t = None \<longrightarrow> Exec_Call ci None ud m t z = Inl Assertion_Failed)"
proof -
  have x: "tree_ok ci x" using tree_run_ok [OF tree_ok_start assms(1,2)] .
  obtain q y where y: "call_path ci ud ms (p, x) = Inr (q, y)" "tree_ok ci y" "q < length (cc_cells y)" "length (cc_cells x) \<le> length (cc_cells y)"
    "node_context ci (cc_cells y) q = rev (map (method_id ci) ms) @ node_context ci (cc_cells x) p"
    "cc_root (cc_cells y) q = cc_root (cc_cells x) p"
    "\<forall>r < length (cc_cells x). node_context ci (cc_cells y) r = node_context ci (cc_cells x) r \<and> cc_root (cc_cells y) r = cc_root (cc_cells x) r"
    using call_path_context [OF x assms(3,4)] by blast
  have p: "p < length (cc_cells y)" "node_context ci (cc_cells y) p = node_context ci (cc_cells x) p" "cc_root (cc_cells y) p = cc_root (cc_cells x) p"
    using y(4,7) assms(3) by auto
  have "call_path ci ud' ms (p, y) = Inr (q, y)" for ud'
    using y p assms(4) by (intro call_path_again) auto
  moreover have "return_path ci y ns q = Inr p" if "length ns = length ms" "\<forall>n \<in> set ns. method_known ci n" for ns
    using return_path_back [OF y(2) that(2) y(3), of "rev (map (method_id ci) ms)" p] y p that by simp
  ultimately show ?thesis using y context_unique [OF y(2)] full_mode_first_call by blast
qed

text \<open>Two methods, two roots, and a call from each.\<close>

definition demo_methods :: ClassInfo where
  "demo_methods = ClassInfo_init\<lparr>class_cells := [Class_new 1 ''C'' False],
     method_cells := [Method_new 5 (Some 0) ''f'' ''d'' ''0'', Method_new 6 (Some 0) ''g'' ''d'' ''0'']\<rparr>"

lemma calling_contexts_witness:
  "\<exists>x q y. foldR (tree_step demo_methods) [New_Root, New_Root, Call_From True 0 (Method_Ptr 0), Call_From False 1 (Method_Ptr 0)]
       (ExecState_new Full) = Inr x \<and>
     call_path demo_methods True [Method_Ptr 0, Method_Ptr 1] (1, x) = Inr (q, y) \<and> node_context demo_methods (cc_cells y) q = [6, 5] \<and>
     return_path demo_methods y [Method_Ptr 1, Method_Ptr 0] q = Inr 1"
proof -
  have known: "method_known demo_methods (Method_Ptr 0)" "method_known demo_methods (Method_Ptr 1)"
    and ids: "method_id demo_methods (Method_Ptr 0) = 5" "method_id demo_methods (Method_Ptr 1) = 6"
    by (simp_all add: method_known_def method_id_def demo_methods_def Method_info_def method_at_def deref_valid derefN_Some
        Method_new_def Class_new_def)
  let ?ops = "[New_Root, New_Root, Call_From True 0 (Method_Ptr 0), Call_From False 1 (Method_Ptr 0)]"
  have run: "map_sum id (\<lambda>x. (length (cc_cells x), m_parent (cc_cells x ! 1), m_method (cc_cells x ! 1)))
      (foldR (tree_step demo_methods) ?ops (ExecState_new Full)) = Inr (4, None, None)"
    by code_simp
  then obtain x where x: "foldR (tree_step demo_methods) ?ops (ExecState_new Full) = Inr x" "length (cc_cells x) = 4"
    "m_parent (cc_cells x ! 1) = None" "m_method (cc_cells x ! 1) = None"
    by (cases "foldR (tree_step demo_methods) ?ops (ExecState_new Full)") auto
  have "node_context demo_methods (cc_cells x) 1 = []" using context_root x(3,4) by blast
  moreover obtain q y where "call_path demo_methods True [Method_Ptr 0, Method_Ptr 1] (1, x) = Inr (q, y)"
      "node_context demo_methods (cc_cells y) q = [6, 5] @ node_context demo_methods (cc_cells x) 1"
      "\<forall>ns. length ns = 2 \<longrightarrow> (\<forall>n \<in> set ns. method_known demo_methods n) \<longrightarrow> return_path demo_methods y ns q = Inr 1"
    using calling_contexts [OF x(1), of 1 "[Method_Ptr 0, Method_Ptr 1]" True] x(2) known ids by auto
  ultimately show ?thesis using x(1) known by (intro exI [of _ x] exI [of _ q] exI [of _ y]) simp
qed

end
