(* ===== verification/Records.thy ===== *)
theory Records
  imports Tokenizing
begin

text \<open>
  The in-memory trace (\<open>simulator/record.hpp\<close>) and the two small types \<open>RefState\<close>
  (\<open>refstate.hpp\<close>) and \<open>Summary\<close> (\<open>summary.hpp\<close>). The classes that derive from \<open>Record\<close> are record
  extensions of it, a \<open>Record*\<close> of the trace is one of them. A member that a constructor leaves
  uninitialised is an argument of the constructor's model (\<open>uninit\<close>). The text written under
  \<open>isDebugOn\<close> is left out.
\<close>

section \<open>Records\<close>

record Record =
  m_threadId :: u32
  m_record_type :: char
  m_ET_timestamp :: u32

record AllocRecord = Record +
  m_objectId_a :: u32
  m_siteId :: u32
  m_typeId_a :: u32
  m_length :: u32
  m_size_a :: u32
  m_num_dims :: int
  dims :: "int list"

record ExitRecord = Record +
  m_methId_e :: u32

record MethodRecord = Record +
  m_methId :: u32
  m_objectId_m :: u32

record UpdateRecord = Record +
  m_tgtObjectHash :: u32
  m_fieldId :: u32
  m_srcObjectHash :: u32
  m_timestamp_u :: u32

record WitnessRecord = Record +
  m_objectId_w :: u32
  m_typeId_w :: u32
  m_timestamp_w :: u32

record DeathRecord = Record +
  m_objectId_d :: u32
  m_typeId_d :: u32

text \<open>A pointer of the trace, by the class of the record it points at.\<close>

datatype TraceRecord =
    Alloc_Rec AllocRecord
  | Exit_Rec ExitRecord
  | Method_Rec MethodRecord
  | Update_Rec UpdateRecord
  | Witness_Rec WitnessRecord
  | Death_Rec DeathRecord

fun get_ET_timestamp :: "TraceRecord \<Rightarrow> u32" where
  "get_ET_timestamp (Alloc_Rec r) = m_ET_timestamp r"
| "get_ET_timestamp (Exit_Rec r) = m_ET_timestamp r"
| "get_ET_timestamp (Method_Rec r) = m_ET_timestamp r"
| "get_ET_timestamp (Update_Rec r) = m_ET_timestamp r"
| "get_ET_timestamp (Witness_Rec r) = m_ET_timestamp r"
| "get_ET_timestamp (Death_Rec r) = m_ET_timestamp r"

fun set_ET_timestamp :: "u32 \<Rightarrow> TraceRecord \<Rightarrow> TraceRecord" where
  "set_ET_timestamp t (Alloc_Rec r) = Alloc_Rec (r\<lparr>m_ET_timestamp := t\<rparr>)"
| "set_ET_timestamp t (Exit_Rec r) = Exit_Rec (r\<lparr>m_ET_timestamp := t\<rparr>)"
| "set_ET_timestamp t (Method_Rec r) = Method_Rec (r\<lparr>m_ET_timestamp := t\<rparr>)"
| "set_ET_timestamp t (Update_Rec r) = Update_Rec (r\<lparr>m_ET_timestamp := t\<rparr>)"
| "set_ET_timestamp t (Witness_Rec r) = Witness_Rec (r\<lparr>m_ET_timestamp := t\<rparr>)"
| "set_ET_timestamp t (Death_Rec r) = Death_Rec (r\<lparr>m_ET_timestamp := t\<rparr>)"

fun getRecordType :: "TraceRecord \<Rightarrow> char" where
  "getRecordType (Alloc_Rec r) = m_record_type r"
| "getRecordType (Exit_Rec r) = m_record_type r"
| "getRecordType (Method_Rec r) = m_record_type r"
| "getRecordType (Update_Rec r) = m_record_type r"
| "getRecordType (Witness_Rec r) = m_record_type r"
| "getRecordType (Death_Rec r) = m_record_type r"

fun getThreadId :: "TraceRecord \<Rightarrow> u32" where
  "getThreadId (Alloc_Rec r) = m_threadId r"
| "getThreadId (Exit_Rec r) = m_threadId r"
| "getThreadId (Method_Rec r) = m_threadId r"
| "getThreadId (Update_Rec r) = m_threadId r"
| "getThreadId (Witness_Rec r) = m_threadId r"
| "getThreadId (Death_Rec r) = m_threadId r"

section \<open>Reading records\<close>

definition AllocRecord_getObjectId :: "AllocRecord \<Rightarrow> u32" where [simp]: "AllocRecord_getObjectId = m_objectId_a"

definition AllocRecord_getSiteId :: "AllocRecord \<Rightarrow> u32" where [simp]: "AllocRecord_getSiteId = m_siteId"

definition AllocRecord_getTypeId :: "AllocRecord \<Rightarrow> u32" where [simp]: "AllocRecord_getTypeId = m_typeId_a"

definition AllocRecord_getLength :: "AllocRecord \<Rightarrow> u32" where [simp]: "AllocRecord_getLength = m_length"

definition AllocRecord_getSize :: "AllocRecord \<Rightarrow> u32" where [simp]: "AllocRecord_getSize = m_size_a"

definition AllocRecord_getNumDims :: "AllocRecord \<Rightarrow> int" where [simp]: "AllocRecord_getNumDims = m_num_dims"

definition AllocRecord_getDims :: "AllocRecord \<Rightarrow> int list" where [simp]: "AllocRecord_getDims = dims"

definition ExitRecord_getMethId :: "ExitRecord \<Rightarrow> u32" where [simp]: "ExitRecord_getMethId = m_methId_e"

definition MethodRecord_getMethId :: "MethodRecord \<Rightarrow> u32" where [simp]: "MethodRecord_getMethId = m_methId"

definition MethodRecord_getObjectId :: "MethodRecord \<Rightarrow> u32" where [simp]: "MethodRecord_getObjectId = m_objectId_m"

definition UpdateRecord_getTgtObjectHash :: "UpdateRecord \<Rightarrow> u32" where [simp]: "UpdateRecord_getTgtObjectHash = m_tgtObjectHash"

definition UpdateRecord_getFieldId :: "UpdateRecord \<Rightarrow> u32" where [simp]: "UpdateRecord_getFieldId = m_fieldId"

definition UpdateRecord_getSrcObjectHash :: "UpdateRecord \<Rightarrow> u32" where [simp]: "UpdateRecord_getSrcObjectHash = m_srcObjectHash"

definition UpdateRecord_getTimestamp :: "UpdateRecord \<Rightarrow> u32" where [simp]: "UpdateRecord_getTimestamp = m_timestamp_u"

definition WitnessRecord_getObjectId :: "WitnessRecord \<Rightarrow> u32" where [simp]: "WitnessRecord_getObjectId = m_objectId_w"

definition WitnessRecord_getTypeId :: "WitnessRecord \<Rightarrow> u32" where [simp]: "WitnessRecord_getTypeId = m_typeId_w"

definition WitnessRecord_getTimestamp :: "WitnessRecord \<Rightarrow> u32" where [simp]: "WitnessRecord_getTimestamp = m_timestamp_w"

definition DeathRecord_getObjectId :: "DeathRecord \<Rightarrow> u32" where [simp]: "DeathRecord_getObjectId = m_objectId_d"

definition DeathRecord_getTypeId :: "DeathRecord \<Rightarrow> u32" where [simp]: "DeathRecord_getTypeId = m_typeId_d"

section \<open>Constructors\<close>

text \<open>
  \<open>std::stoi\<close> in base 10: white space, a sign, digits; it throws when there is no digit or the
  number does not fit an \<open>int\<close>, and ignores what follows the digits.
\<close>

definition stoi :: "string \<Rightarrow> int result" where
  "stoi s =
     (case scan_int s of
        None \<Rightarrow> Inl Invalid_Argument
      | Some n \<Rightarrow> if fits_int n then Inr n else Inl Out_Of_Range)"

text \<open>
  For an array, \<open>dims\<close> is a list separated by commas that starts with the number of dimensions;
  when that is written \<open>0\<close> the member \<open>m_num_dims\<close> is not set.
\<close>

definition num_dims_of :: "char \<Rightarrow> string \<Rightarrow> int \<Rightarrow> int result" where
  "num_dims_of rec_type ds uninit =
     (if rec_type = CHR ''A'' then
        (let numdims_str = takeWhile (\<lambda>c. c \<noteq> CHR '','') ds in
         if numdims_str \<noteq> ''0'' then stoi numdims_str else Inr uninit)
      else Inr 0)"

definition AllocRecord_new ::
  "u32 \<Rightarrow> u32 \<Rightarrow> u32 \<Rightarrow> u32 \<Rightarrow> u32 \<Rightarrow> u32 \<Rightarrow> char \<Rightarrow> string \<Rightarrow> u32 \<Rightarrow> int \<Rightarrow> AllocRecord result" where
  "AllocRecord_new objectId siteId threadId typeId len sz rec_type ds et_timestamp uninit =
     bindR (num_dims_of rec_type ds uninit) (\<lambda>n.
     Inr \<lparr>m_threadId = threadId, m_record_type = rec_type, m_ET_timestamp = et_timestamp,
          m_objectId_a = objectId, m_siteId = siteId, m_typeId_a = typeId, m_length = len,
          m_size_a = sz, m_num_dims = n, dims = []\<rparr>)"

definition ExitRecord_new :: "u32 \<Rightarrow> u32 \<Rightarrow> u32 \<Rightarrow> ExitRecord" where
  "ExitRecord_new methId threadId et_timestamp =
     \<lparr>m_threadId = threadId, m_record_type = CHR ''E'', m_ET_timestamp = et_timestamp, m_methId_e = methId\<rparr>"

definition MethodRecord_new :: "u32 \<Rightarrow> u32 \<Rightarrow> u32 \<Rightarrow> u32 \<Rightarrow> MethodRecord" where
  "MethodRecord_new methId objectId threadId et_timestamp =
     \<lparr>m_threadId = threadId, m_record_type = CHR ''M'', m_ET_timestamp = et_timestamp,
      m_methId = methId, m_objectId_m = objectId\<rparr>"

definition UpdateRecord_new :: "u32 \<Rightarrow> u32 \<Rightarrow> u32 \<Rightarrow> u32 \<Rightarrow> u32 \<Rightarrow> u32 \<Rightarrow> UpdateRecord" where
  "UpdateRecord_new tgtObjectHash fieldId srcObjectHash thread_id et_timestamp uninit =
     \<lparr>m_threadId = thread_id, m_record_type = CHR ''U'', m_ET_timestamp = et_timestamp,
      m_tgtObjectHash = tgtObjectHash, m_fieldId = fieldId, m_srcObjectHash = srcObjectHash,
      m_timestamp_u = uninit\<rparr>"

text \<open>The constructor of a witness record gives it the type of an update.\<close>

definition WitnessRecord_new :: "u32 \<Rightarrow> u32 \<Rightarrow> u32 \<Rightarrow> u32 \<Rightarrow> WitnessRecord" where
  "WitnessRecord_new objectId typeId timestamp et_timestamp =
     \<lparr>m_threadId = 0, m_record_type = CHR ''U'', m_ET_timestamp = et_timestamp,
      m_objectId_w = objectId, m_typeId_w = typeId, m_timestamp_w = timestamp\<rparr>"

definition DeathRecord_new :: "u32 \<Rightarrow> u32 \<Rightarrow> u32 \<Rightarrow> DeathRecord" where
  "DeathRecord_new objectId typeId et_timestamp =
     \<lparr>m_threadId = 0, m_record_type = CHR ''D'', m_ET_timestamp = et_timestamp,
      m_objectId_d = objectId, m_typeId_d = typeId\<rparr>"

section \<open>Reference states and summaries\<close>

datatype RefState = Start | Heap | HeapRoot | HeapRootFinal | HeapOnly | Root | RootOnly | Error_State

record ObjectRefState =
  m_state :: RefState

definition ObjectRefState_new :: ObjectRefState where
  "ObjectRefState_new = \<lparr>m_state = Start\<rparr>"

record Summary =
  num_objects :: u32
  size_s :: u32
  num_groups :: u32

definition Summary_new :: "u32 \<Rightarrow> u32 \<Rightarrow> u32 \<Rightarrow> Summary" where
  "Summary_new num_obj s num_g = \<lparr>num_objects = num_obj, size_s = s, num_groups = num_g\<rparr>"

section \<open>The dimensions of an array\<close>

text \<open>How the tracer prints the dimensions: the number of them, then each.\<close>

fun print_dims :: "u32 list \<Rightarrow> string" where
  "print_dims [] = []"
| "print_dims [d] = show_dec d"
| "print_dims (d # ds) = show_dec d @ CHR '','' # print_dims ds"

lemma no_comma: "is_dec_digit c \<Longrightarrow> c \<noteq> CHR '',''"
  by (auto simp: is_dec_digit_def)

lemma print_dims_first: "takeWhile (\<lambda>c. c \<noteq> CHR '','') (print_dims (d # ds)) = show_dec d"
proof -
  have "\<forall>c \<in> set (show_dec d). c \<noteq> CHR '',''"
    using show_base_digits [of "unat d"] no_comma by (auto simp: show_dec_def)
  note upto = takeWhile_upto [OF this, of "CHR '',''"] and all = this
  show ?thesis
  proof (cases ds)
    case Nil
    then show ?thesis using all by (simp add: takeWhile_eq_all_conv)
  qed (simp add: upto)
qed

lemma show_dec_eq_0: "show_dec w = ''0'' \<longleftrightarrow> w = 0" for w :: u32
proof
  assume "show_dec w = ''0''"
  then have "digits_value 0 (show_base 10 (unat w)) = digits_value 0 ''0''"
    by (simp add: show_dec_def)
  then have "int (unat w) = 0"
    unfolding digits_value_show by simp
  then have "unat w = 0" by linarith
  then show "w = 0" by (simp only: unat_eq_zero)
next
  have "show_dec (0 :: u32) = ''0''" by code_simp
  then show "w = 0 \<Longrightarrow> show_dec w = ''0''" by simp
qed

text \<open>
  The dimensions of an array record. An \<open>A\<close> record whose dimension text is a printed list
  starting with \<open>d\<close> is built exactly when \<open>d\<close> fits an \<open>int\<close> (otherwise \<open>stoi\<close> throws
  \<open>out_of_range\<close>), and then \<open>m_num_dims\<close> is \<open>d\<close>, except that for \<open>d = 0\<close> the member keeps whatever
  value the memory had. A text that starts with a comma, or is empty, throws \<open>invalid_argument\<close>.
\<close>
theorem alloc_record_dims:
  "map_sum id m_num_dims (AllocRecord_new i a t c l z CHR ''A'' (print_dims (d # ds)) ts uninit) =
     (if d = 0 then Inr uninit else if unat d < 2 ^ 31 then Inr (int (unat d)) else Inl Out_Of_Range) \<and>
   AllocRecord_new i a t c l z CHR ''A'' (CHR '','' # s) ts uninit = Inl Invalid_Argument \<and>
   AllocRecord_new i a t c l z CHR ''A'' [] ts uninit = Inl Invalid_Argument"
proof -
  have stoi: "stoi (show_dec d) = (if unat d < 2 ^ 31 then Inr (int (unat d)) else Inl Out_Of_Range)"
  proof -
    have "fits_int (int n) = (n < 2 ^ 31)" for n
      by (simp add: fits_int_def)
    then show ?thesis
      by (simp only: stoi_def scan_int_show_dec option.case)
  qed
  have "stoi [] = Inl Invalid_Argument"
    by (simp add: stoi_def scan_int_def)
  then show ?thesis
    by (simp add: AllocRecord_new_def num_dims_of_def print_dims_first show_dec_eq_0 stoi)
qed

text \<open>The two type letters that the constructors fix differently from the trace.\<close>

lemma record_types:
  "getRecordType (Witness_Rec (WitnessRecord_new i c ts et)) = CHR ''U''"
  "getRecordType (Update_Rec (UpdateRecord_new tg f src th et u)) = CHR ''U''"
  "getRecordType (Method_Rec (MethodRecord_new m i th et)) = CHR ''M''"
  "getRecordType (Exit_Rec (ExitRecord_new m th et)) = CHR ''E''"
  "getRecordType (Death_Rec (DeathRecord_new i c et)) = CHR ''D''"
  by (simp_all add: WitnessRecord_new_def UpdateRecord_new_def MethodRecord_new_def ExitRecord_new_def
      DeathRecord_new_def)

end
