(* ===== verification/Trace_Reader.thy ===== *)
theory Trace_Reader
  imports Records Execution
begin

text \<open>
  Reading the trace (\<open>read_trace_file_part1\<close> in \<open>simulator/simulator.cpp\<close>): every line is one
  event, which appends a record to the in-memory trace and updates the heap, the clocks and the
  class tables. \<open>Sim\<close> holds the globals of the program and the locals of the function that live
  across lines; the locals that are never written after their declaration are left out. What an
  uninitialised variable or member holds when a line is handled is part of the environment,
  indexed by the number of the record: \<open>object_id\<close> in the handler of exits, the members that the
  constructors of records and threads leave unset. Messages to \<open>cerr\<close> are left out.
\<close>

section \<open>The state\<close>

record Sim =
  sim_heap :: HeapState
  sim_exec :: ExecState
  sim_classes :: ClassInfo
  sim_trace :: "TraceRecord list"
  no_alloc_map :: "(u32, obj_ptr) omap"
  total_objects :: u32
  allocation_time :: u32

record Uninit =
  ui_object_id :: u32
  ui_num_dims :: int
  ui_timestamp :: u32
  ui_curcc :: "cc_ptr option"

type_synonym environment = "nat \<Rightarrow> Uninit"

definition Sim_init :: "ExecMode \<Rightarrow> ClassInfo \<Rightarrow> Sim" where
  "Sim_init cckind ci =
     \<lparr>sim_heap = HeapState_init, sim_exec = ExecState_new cckind, sim_classes = ci, sim_trace = [],
      no_alloc_map = [], total_objects = 0, allocation_time = 0\<rparr>"

definition uninit_now :: "environment \<Rightarrow> Sim \<Rightarrow> Uninit" where
  "uninit_now env s = env (length (sim_trace s))"

section \<open>Steps that the handlers share\<close>

definition push_record :: "TraceRecord \<Rightarrow> Sim \<Rightarrow> Sim" where
  "push_record r s = s\<lparr>sim_trace := sim_trace s @ [r]\<rparr>"

definition sim_getThread :: "Uninit \<Rightarrow> u32 \<Rightarrow> Sim \<Rightarrow> thread_ptr \<times> Sim" where
  "sim_getThread ui thread_id s =
     (let (tp, x) = getThread (ui_curcc ui) thread_id (sim_exec s) in (tp, s\<lparr>sim_exec := x\<rparr>))"

definition tmp_todo_str :: string where "tmp_todo_str = ''TODO''"

text \<open>An object that no allocation event announced: four bytes, no site, one element.\<close>

definition allocate_unannounced :: "char \<Rightarrow> u32 \<Rightarrow> thread_ptr \<Rightarrow> Sim \<Rightarrow> (obj_ptr \<times> Sim) result" where
  "allocate_unannounced rec_type oid tp s =
     bindR (allocate (sim_classes s) oid 4 rec_type tmp_todo_str None tmp_todo_str 1 (Some tp) False
              (NowUp (sim_exec s)) (sim_heap s)) (\<lambda>(p, h).
     Inr (p, s\<lparr>sim_heap := h, total_objects := total_objects s + 1\<rparr>))"

definition stamp :: "obj_ptr \<Rightarrow> u32 \<Rightarrow> Sim \<Rightarrow> Sim result" where
  "stamp p t s = bindR (upd_object p (setLastTimestamp t) (sim_heap s)) (\<lambda>h. Inr (s\<lparr>sim_heap := h\<rparr>))"

section \<open>Lines\<close>

text \<open>
  The first half of every case of the \<open>switch\<close>, the assertions on the number of tokens and the reads
  of the tokens, changes nothing; it is \<open>parse_line\<close>, whose result the second half, \<open>apply_event\<close>,
  takes. An allocation reads the token of the site twice; the value is the same.
\<close>

datatype Event =
    Method_Event u32 u32 u32
  | Exit_Event u32 u32
  | Alloc_Event char u32 u32 u32 u32 u32 u32 string
  | Update_Event u32 u32 u32 u32
  | Witness_Event u32 u32 u32

definition parse_method :: "Tokenizer \<Rightarrow> Event result" where
  "parse_method tk =
     bindR (assertR (numTokens tk = 4)) (\<lambda>_.
     bindR (getInt tk 1) (\<lambda>method_id.
     bindR (getInt tk 2) (\<lambda>object_id.
     bindR (getInt tk 3) (\<lambda>thread_id.
     Inr (Method_Event method_id object_id thread_id)))))"

definition parse_exit :: "Tokenizer \<Rightarrow> Event result" where
  "parse_exit tk =
     bindR (assertR (numTokens tk = 3)) (\<lambda>_.
     bindR (getInt tk 1) (\<lambda>method_id.
     bindR (getInt tk 2) (\<lambda>thread_id.
     Inr (Exit_Event method_id thread_id))))"

definition parse_alloc :: "Tokenizer \<Rightarrow> Event result" where
  "parse_alloc tk =
     (let rec_type = getChar tk 0 in
      bindR (getInt tk 1) (\<lambda>object_id.
      bindR (getInt tk 2) (\<lambda>sz.
      bindR (getInt tk 3) (\<lambda>type_id.
      bindR (getInt tk 4) (\<lambda>site_id.
      bindR (getInt tk 5) (\<lambda>len.
      bindR (getInt tk 6) (\<lambda>thread_id.
      bindR (if rec_type = CHR ''A''
             then bindR (assertR (numTokens tk = 8)) (\<lambda>_. to_string (getString tk 7))
             else bindR (assertR (numTokens tk = 7)) (\<lambda>_. Inr [])) (\<lambda>ds.
      Inr (Alloc_Event rec_type object_id sz type_id site_id len thread_id ds)))))))))"

definition parse_update :: "Tokenizer \<Rightarrow> Event result" where
  "parse_update tk =
     bindR (assertR (numTokens tk = 5)) (\<lambda>_.
     bindR (getInt tk 1) (\<lambda>object_id.
     bindR (getInt tk 2) (\<lambda>target_id.
     bindR (getInt tk 3) (\<lambda>field_id.
     bindR (getInt tk 4) (\<lambda>thread_id.
     Inr (Update_Event object_id target_id field_id thread_id))))))"

text \<open>A witness line of another length is reported, with its tokens read as numbers, and handled all the same.\<close>

definition parse_witness :: "Tokenizer \<Rightarrow> Event result" where
  "parse_witness tk =
     bindR (if numTokens tk \<noteq> 4
            then foldR (\<lambda>_ i. bindR (getInt tk (int i)) (\<lambda>_. Inr ())) [0..<unat (numTokens tk)] ()
            else Inr ()) (\<lambda>_.
     bindR (getInt tk 1) (\<lambda>object_id.
     bindR (getInt tk 2) (\<lambda>type_id.
     bindR (getInt tk 3) (\<lambda>timestamp.
     Inr (Witness_Event object_id type_id timestamp)))))"

text \<open>A line whose first character is no event is reported and skipped (None).\<close>

definition parse_line :: "Tokenizer \<Rightarrow> Event option result" where
  "parse_line tk =
     (let rec_type = getChar tk 0 in
      if rec_type = CHR ''M'' then map_sum id Some (parse_method tk)
      else if rec_type = CHR ''E'' then map_sum id Some (parse_exit tk)
      else if rec_type = CHR ''A'' \<or> rec_type = CHR ''N'' then map_sum id Some (parse_alloc tk)
      else if rec_type = CHR ''U'' then map_sum id Some (parse_update tk)
      else if rec_type = CHR ''W'' then map_sum id Some (parse_witness tk)
      else Inr None)"

section \<open>Method entries and exits\<close>

definition method_event :: "Uninit \<Rightarrow> u32 \<Rightarrow> u32 \<Rightarrow> u32 \<Rightarrow> Sim \<Rightarrow> Sim result" where
  "method_event ui method_id object_id thread_id s =
     (let s = s\<lparr>sim_exec := IncUpdateTime (sim_exec s)\<rparr>;
          current_time = NowUp (sim_exec s);
          s = push_record (Method_Rec (MethodRecord_new method_id object_id thread_id current_time)) s;
          (thread, s) = sim_getThread ui thread_id s
      in if 0 < object_id then
           bindR (case getObject (sim_heap s) object_id of
                    Some obj \<Rightarrow> Inr (obj, s)
                  | None \<Rightarrow> allocate_unannounced CHR ''M'' object_id thread s) (\<lambda>(obj, s).
           stamp obj current_time s)
         else Inr s)"

text \<open>The handler of exits tests a variable that it has not set.\<close>

definition exit_event :: "Uninit \<Rightarrow> u32 \<Rightarrow> u32 \<Rightarrow> Sim \<Rightarrow> Sim result" where
  "exit_event ui method_id thread_id s =
     (let object_id = ui_object_id ui;
          current_time = NowUp (sim_exec s);
          s = push_record (Exit_Rec (ExitRecord_new method_id thread_id current_time)) s
      in if 0 < object_id
         then bindR (assertR (getObject (sim_heap s) object_id \<noteq> None)) (\<lambda>_. Inr s)
         else Inr s)"

section \<open>Allocations\<close>

definition alloc_event ::
  "Uninit \<Rightarrow> char \<Rightarrow> u32 \<Rightarrow> u32 \<Rightarrow> u32 \<Rightarrow> u32 \<Rightarrow> u32 \<Rightarrow> u32 \<Rightarrow> string \<Rightarrow> Sim \<Rightarrow> Sim result" where
  "alloc_event ui rec_type object_id sz type_id site_id len thread_id ds s =
     (let current_time = NowUp (sim_exec s) in
      bindR (AllocRecord_new object_id site_id thread_id type_id len sz rec_type ds current_time
               (ui_num_dims ui)) (\<lambda>r.
      let s = push_record (Alloc_Rec r) s;
          (thread, s) = sim_getThread ui thread_id s;
          alloc_time = m_alloc_time (sim_heap s);
          s = s\<lparr>allocation_time := alloc_time, sim_exec := SetAllocTime alloc_time (sim_exec s)\<rparr>;
          (site, sites) = om_index site_id (TheAllocSites (sim_classes s));
          s = s\<lparr>sim_classes := (sim_classes s)\<lparr>TheAllocSites := sites\<rparr>\<rparr>
      in if 0 < object_id then
           bindR (allocate (sim_classes s) object_id sz rec_type tmp_todo_str site tmp_todo_str len
                    (Some thread) True (NowUp (sim_exec s)) (sim_heap s)) (\<lambda>(obj, h).
           stamp obj current_time
             (s\<lparr>sim_heap := h, total_objects := total_objects s + 1,
                sim_exec := IncUpdateTime (sim_exec s)\<rparr>))
         else Inr s))"

section \<open>Updates\<close>

text \<open>An object of an update: known to the heap, or made unless \<open>no_alloc_map\<close> has it (an assertion).\<close>

definition update_object :: "Uninit \<Rightarrow> u32 \<Rightarrow> u32 \<Rightarrow> Sim \<Rightarrow> (obj_ptr \<times> Sim) result" where
  "update_object ui oid thread_id s =
     (case getObject (sim_heap s) oid of
        Some obj \<Rightarrow> Inr (obj, s)
      | None \<Rightarrow>
          (case map_of (no_alloc_map s) oid of
             None \<Rightarrow>
               (let (thread, s) = sim_getThread ui thread_id s in
                bindR (allocate_unannounced CHR ''U'' oid thread s) (\<lambda>(obj, s).
                Inr (obj, s\<lparr>no_alloc_map := om_put oid obj (no_alloc_map s)\<rparr>)))
           | Some _ \<Rightarrow> Inl Assertion_Failed))"

text \<open>A new edge is made only when the field already has one to another object.\<close>

definition update_edge :: "obj_ptr \<Rightarrow> u32 \<Rightarrow> obj_ptr \<Rightarrow> u32 \<Rightarrow> Sim \<Rightarrow> Sim result" where
  "update_edge obj field_id target target_id s =
     bindR (getEdge (sim_heap s) obj field_id) (\<lambda>old_target_edge.
     case old_target_edge of
       None \<Rightarrow> Inr s
     | Some e \<Rightarrow>
         bindR (deref_edge (sim_heap s) e) (\<lambda>old.
         case m_target old of
           None \<Rightarrow> Inr s
         | Some old_target \<Rightarrow>
             bindR (deref (obj_cells (sim_heap s)) old_target) (\<lambda>old_obj.
             if m_id_o old_obj \<noteq> target_id \<and> 0 < target_id
             then (let (new_edge, h) = make_edge (Some obj) field_id (Some target) (NowUp (sim_exec s)) (sim_heap s) in
                   bindR (updateField obj (Some new_edge) field_id h) (\<lambda>h. Inr (s\<lparr>sim_heap := h\<rparr>)))
             else Inr s)))"

definition update_event :: "Uninit \<Rightarrow> u32 \<Rightarrow> u32 \<Rightarrow> u32 \<Rightarrow> u32 \<Rightarrow> Sim \<Rightarrow> Sim result" where
  "update_event ui object_id target_id field_id thread_id s =
     (let s = s\<lparr>sim_exec := IncUpdateTime (sim_exec s)\<rparr>;
          current_time = NowUp (sim_exec s);
          s = push_record (Update_Rec (UpdateRecord_new target_id field_id object_id thread_id current_time
                             (ui_timestamp ui))) s
      in bindR (update_object ui object_id thread_id s) (\<lambda>(obj, s).
         bindR (assertR (0 < target_id)) (\<lambda>_.
         bindR (update_object ui target_id thread_id s) (\<lambda>(target, s).
         bindR (stamp target current_time s) (\<lambda>s.
         bindR (stamp obj current_time s) (\<lambda>s.
         update_edge obj field_id target target_id s))))))"

section \<open>Witnesses\<close>

definition witness_event :: "u32 \<Rightarrow> u32 \<Rightarrow> u32 \<Rightarrow> Sim \<Rightarrow> Sim result" where
  "witness_event object_id type_id timestamp s =
     (let current_time = NowUp (sim_exec s);
          s = push_record (Witness_Rec (WitnessRecord_new object_id type_id timestamp current_time)) s
      in case getObject (sim_heap s) object_id of
           None \<Rightarrow> Inl Assertion_Failed
         | Some obj \<Rightarrow> stamp obj current_time s)"

section \<open>The loop\<close>

fun apply_event :: "environment \<Rightarrow> Sim \<Rightarrow> Event \<Rightarrow> Sim result" where
  "apply_event env s (Method_Event m obj t) = method_event (uninit_now env s) m obj t s"
| "apply_event env s (Exit_Event m t) = exit_event (uninit_now env s) m t s"
| "apply_event env s (Alloc_Event rec_type obj sz c site len t ds) =
     alloc_event (uninit_now env s) rec_type obj sz c site len t ds s"
| "apply_event env s (Update_Event obj tgt f t) = update_event (uninit_now env s) obj tgt f t s"
| "apply_event env s (Witness_Event obj c ts) = witness_event obj c ts s"

definition trace_line :: "environment \<Rightarrow> Sim \<Rightarrow> Tokenizer \<Rightarrow> Sim result" where
  "trace_line env s tk =
     bindR (parse_line tk) (\<lambda>ev. case ev of None \<Rightarrow> Inr s | Some e \<Rightarrow> apply_event env s e)"

definition read_trace_file_part1 :: "environment \<Rightarrow> string \<Rightarrow> DELIMITER_TYPE \<Rightarrow> Sim \<Rightarrow> Sim result" where
  "read_trace_file_part1 env contents delimiter s =
     read_lines (trace_line env) (Tokenizer_new contents delimiter) s"

section \<open>The abstract machine of a trace\<close>

text \<open>
  What a trace means: a clock, the objects by identifier with their size and last timestamp, how
  many objects and bytes were allocated, and the times of the records.
\<close>

record Machine =
  clock :: u32
  objects :: "u32 \<Rightarrow> (u32 \<times> u32) option"
  allocated :: nat
  bytes :: nat
  times :: "u32 list"

definition tick :: "Machine \<Rightarrow> Machine" where
  "tick a = a\<lparr>clock := clock a + 1\<rparr>"

definition log_now :: "Machine \<Rightarrow> Machine" where
  "log_now a = a\<lparr>times := times a @ [clock a]\<rparr>"

definition fresh :: "u32 \<Rightarrow> u32 \<Rightarrow> u32 \<Rightarrow> Machine \<Rightarrow> Machine" where
  "fresh i sz t a =
     a\<lparr>objects := (objects a)(i \<mapsto> (sz, t)), allocated := allocated a + 1, bytes := bytes a + unat sz\<rparr>"

text \<open>An event touches an object: an unknown one appears with four bytes.\<close>

definition touch :: "u32 \<Rightarrow> u32 \<Rightarrow> Machine \<Rightarrow> Machine" where
  "touch i t a =
     (case objects a i of
        None \<Rightarrow> fresh i 4 t a
      | Some (sz, _) \<Rightarrow> a\<lparr>objects := (objects a)(i \<mapsto> (sz, t))\<rparr>)"

fun machine_event :: "environment \<Rightarrow> Machine \<Rightarrow> Event \<Rightarrow> Machine result" where
  "machine_event env a (Method_Event m obj t) =
     (let b = log_now (tick a) in Inr (if obj = 0 then b else touch obj (clock b) b))"
| "machine_event env a (Exit_Event m t) =
     (let junk = ui_object_id (env (length (times a))) in
      if junk \<noteq> 0 \<and> objects a junk = None then Inl Assertion_Failed else Inr (log_now a))"
| "machine_event env a (Alloc_Event rec_type obj sz c site len t ds) =
     bindR (num_dims_of rec_type ds (ui_num_dims (env (length (times a))))) (\<lambda>_.
     Inr (if obj = 0 then log_now a else tick (fresh obj sz (clock a) (log_now a))))"
| "machine_event env a (Update_Event obj tgt f t) =
     (let b = log_now (tick a) in
      if tgt = 0 then Inl Assertion_Failed else Inr (touch obj (clock b) (touch tgt (clock b) b)))"
| "machine_event env a (Witness_Event obj c ts) =
     (if objects a obj = None then Inl Assertion_Failed else Inr (touch obj (clock a) (log_now a)))"

section \<open>The heap while a trace is read\<close>

definition heap_objects :: "HeapState \<Rightarrow> u32 \<Rightarrow> (u32 \<times> u32) option" where
  "heap_objects h i =
     map_option (\<lambda>p. (m_size (obj_cells h ! p), m_last_timestamp (obj_cells h ! p))) (map_of (m_objects h) i)"

definition heap_bytes :: "HeapState \<Rightarrow> nat" where
  "heap_bytes h = sum_list (map (\<lambda>obj. unat (m_size obj)) (obj_cells h))"

definition reading_heap :: "HeapState \<Rightarrow> bool" where
  "reading_heap h \<longleftrightarrow> (\<exists>hs. heap_run (h # hs)) \<and> edge_cells h = [] \<and>
     (\<forall>obj \<in> set (obj_cells h). \<not> m_deadFlag obj \<and> m_fields obj = []) \<and>
     m_maxLiveSize h = m_liveSize h \<and> m_alloc_time h = of_nat (heap_bytes h)"

lemma reading_heap_ok: "reading_heap h \<Longrightarrow> heap_ok h"
  using heap_run_facts by (force simp: reading_heap_def)

lemma reading_heap_init: "reading_heap HeapState_init"
  using run_init by (auto simp: reading_heap_def HeapState_init_def heap_bytes_def)

lemma reading_heap_step:
  assumes "reading_heap h" and "heap_step h h'" and "edge_cells h' = []"
    and "\<forall>obj \<in> set (obj_cells h'). \<not> m_deadFlag obj \<and> m_fields obj = []"
    and "m_maxLiveSize h' = m_liveSize h'" and "m_alloc_time h' = of_nat (heap_bytes h')"
  shows "reading_heap h'"
  using assms run_step unfolding reading_heap_def by blast

lemma allocate_reading:
  assumes "reading_heap h" and "allocate ci oid sz kind type site nj els th nf t h = Inr (p, h')"
  shows "reading_heap h'" "map_of (m_objects h') oid = Some p" "heap_objects h' = (heap_objects h)(oid \<mapsto> (sz, 0))"
    "length (obj_cells h') = Suc (length (obj_cells h))" "heap_bytes h' = heap_bytes h + unat sz"
    "m_objects h' = om_put oid p (m_objects h)"
proof -
  have ok: "heap_ok h" by (rule reading_heap_ok [OF assms(1)])
  obtain name where h': "p = length (obj_cells h)"
    "h' = note_live (live_add (m_liveSize h) sz)
          (h\<lparr>m_alloc_time := m_alloc_time h + sz,
             obj_cells := obj_cells h @ [Object_new oid sz kind type site name nj els th t nf (m_alloc_time h + sz)],
             m_objects := om_put oid p (m_objects h), m_liveset := insert p (m_liveset h)\<rparr>)"
    using assms(2) by (auto simp: allocate_Inr)
  have "unat (m_liveSize h) < 2 ^ 64"
    by (rule order_less_le_trans [OF unsigned_less]) simp
  then have "m_liveSize h \<le> live_add (m_liveSize h) sz"
    by (simp add: word_le_nat_alt live_add_min)
  moreover show hb: "heap_bytes h' = heap_bytes h + unat sz"
    by (simp add: h' heap_bytes_def note_live_def)
  ultimately show "reading_heap h'"
    using assms(1) by (intro reading_heap_step [OF assms(1) step_allocate [OF assms(2)]])
      (auto simp: reading_heap_def h' note_live_def max_def)
  show "map_of (m_objects h') oid = Some p" "length (obj_cells h') = Suc (length (obj_cells h))"
    "m_objects h' = om_put oid p (m_objects h)"
    by (simp_all add: h' note_live_def)
  show "heap_objects h' = (heap_objects h)(oid \<mapsto> (sz, 0))"
  proof
    fix i
    show "heap_objects h' i = ((heap_objects h)(oid \<mapsto> (sz, 0))) i"
      using heap_okD(1) [OF ok, of i]
      by (cases "map_of (m_objects h) i") (auto simp: heap_objects_def h' note_live_def nth_append)
  qed
qed

lemma stamp_reading:
  assumes "reading_heap h" and "map_of (m_objects h) i = Some p"
  shows "\<exists>h'. upd_object p (setLastTimestamp t) h = Inr h' \<and> reading_heap h' \<and> m_objects h' = m_objects h \<and>
    heap_objects h' = (heap_objects h)(i \<mapsto> (m_size (obj_cells h ! p), t)) \<and>
    length (obj_cells h') = length (obj_cells h) \<and> heap_bytes h' = heap_bytes h"
proof -
  have ok: "heap_ok h" by (rule reading_heap_ok [OF assms(1)])
  have p: "p < length (obj_cells h)" using heap_okD(1) [OF ok assms(2)] .
  define h' where "h' = h\<lparr>obj_cells := (obj_cells h)[p := setLastTimestamp t (obj_cells h ! p)]\<rparr>"
  have run: "upd_object p (setLastTimestamp t) h = Inr h'"
    using p by (simp add: heap_simps h'_def)
  have "heap_step h h'"
    by (rule step_object [OF run]) (simp add: setLastTimestamp_def)
  have "map (\<lambda>obj. unat (m_size obj)) (obj_cells h') = map (\<lambda>obj. unat (m_size obj)) (obj_cells h)"
    using p by (simp add: h'_def map_update setLastTimestamp_def list_update_same_conv)
  then have hb: "heap_bytes h' = heap_bytes h" by (simp add: heap_bytes_def)
  have "\<forall>obj \<in> set (obj_cells h'). \<not> m_deadFlag obj \<and> m_fields obj = []"
    using assms(1) p unfolding reading_heap_def h'_def
    by (auto simp: setLastTimestamp_def dest!: set_update_subset_insert [THEN subsetD])
  then have "reading_heap h'"
    using assms(1) hb by (intro reading_heap_step [OF assms(1) \<open>heap_step h h'\<close>]) (auto simp: reading_heap_def h'_def)
  moreover have "heap_objects h' = (heap_objects h)(i \<mapsto> (m_size (obj_cells h ! p), t))"
  proof
    fix j
    have "q \<noteq> p" if "map_of (m_objects h) j = Some q" "j \<noteq> i" for q
      using heap_okD(2) [OF ok that(1)] heap_okD(2) [OF ok assms(2)] that(2) by auto
    then show "heap_objects h' j = ((heap_objects h)(i \<mapsto> (m_size (obj_cells h ! p), t))) j"
      using p assms(2) by (cases "map_of (m_objects h) j") (auto simp: heap_objects_def h'_def setLastTimestamp_def)
  qed
  ultimately show ?thesis using run hb by (simp add: h'_def)
qed

section \<open>The invariant of the reader\<close>

definition sites_named :: "ClassInfo \<Rightarrow> bool" where
  "sites_named ci \<longleftrightarrow>
     (\<forall>i a. map_of (TheAllocSites ci) i = Some (Some a) \<longrightarrow> (\<exists>n. allocsite_name ci (Some a) = Inr n))"

definition sim_ok :: "Sim \<Rightarrow> bool" where
  "sim_ok s \<longleftrightarrow> reading_heap (sim_heap s) \<and> sites_named (sim_classes s) \<and>
     total_objects s = of_nat (length (obj_cells (sim_heap s))) \<and>
     (\<forall>i. map_of (no_alloc_map s) i \<noteq> None \<longrightarrow> map_of (m_objects (sim_heap s)) i \<noteq> None)"

definition machine_of :: "Sim \<Rightarrow> Machine" where
  "machine_of s =
     \<lparr>clock = NowUp (sim_exec s), objects = heap_objects (sim_heap s),
      allocated = length (obj_cells (sim_heap s)), bytes = heap_bytes (sim_heap s),
      times = map get_ET_timestamp (sim_trace s)\<rparr>"

lemma machine_of_sel [simp]:
  "clock (machine_of s) = NowUp (sim_exec s)" "objects (machine_of s) = heap_objects (sim_heap s)"
  "allocated (machine_of s) = length (obj_cells (sim_heap s))" "bytes (machine_of s) = heap_bytes (sim_heap s)"
  "times (machine_of s) = map get_ET_timestamp (sim_trace s)"
  by (simp_all add: machine_of_def)

lemma Machine_eqI:
  "clock a = clock b \<Longrightarrow> objects a = objects b \<Longrightarrow> allocated a = allocated b \<Longrightarrow> bytes a = bytes b \<Longrightarrow>
   times a = times b \<Longrightarrow> a = (b :: Machine)"
  by simp

lemma sim_ok_init: "sites_named ci \<Longrightarrow> sim_ok (Sim_init mode ci)"
  by (simp add: sim_ok_def Sim_init_def reading_heap_init) (simp add: HeapState_init_def)

lemma heap_objects_None [simp]: "heap_objects h i = None \<longleftrightarrow> getObject h i = None"
  by (simp add: heap_objects_def getObject_def)

lemma getThread_clock [simp]: "NowUp (snd (getThread uc t x)) = NowUp x"
  by (simp add: getThread_def CCNode_root_def NowUp_def Let_def split: option.splits)

lemma IncUpdateTime_clock [simp]: "NowUp (IncUpdateTime x) = NowUp x + 1"
  by (simp add: IncUpdateTime_def NowUp_def)

lemma SetAllocTime_clock [simp]: "NowUp (SetAllocTime t x) = NowUp x"
  by (simp add: SetAllocTime_def NowUp_def)

lemma sim_getThread_eq: "sim_getThread ui t s = (fst (getThread (ui_curcc ui) t (sim_exec s)), s\<lparr>sim_exec := snd (getThread (ui_curcc ui) t (sim_exec s))\<rparr>)"
  by (simp add: sim_getThread_def split: prod.splits)

text \<open>Changes of the clocks, the trace and the class tables leave the invariant alone.\<close>

lemma sim_ok_frame [simp]:
  "sim_ok (s\<lparr>sim_exec := x\<rparr>) = sim_ok s" "sim_ok (push_record r s) = sim_ok s"
  "sim_ok (s\<lparr>allocation_time := t\<rparr>) = sim_ok s"
  by (simp_all add: sim_ok_def push_record_def)

lemma push_record_sel [simp]:
  "sim_heap (push_record r s) = sim_heap s" "sim_exec (push_record r s) = sim_exec s"
  "sim_classes (push_record r s) = sim_classes s" "sim_trace (push_record r s) = sim_trace s @ [r]"
  "no_alloc_map (push_record r s) = no_alloc_map s" "total_objects (push_record r s) = total_objects s"
  by (simp_all add: push_record_def)

lemma stamp_effect:
  assumes "sim_ok s" and "map_of (m_objects (sim_heap s)) i = Some p"
  shows "\<exists>h. stamp p t s = Inr (s\<lparr>sim_heap := h\<rparr>) \<and> sim_ok (s\<lparr>sim_heap := h\<rparr>) \<and>
    m_objects h = m_objects (sim_heap s) \<and>
    heap_objects h = (heap_objects (sim_heap s))(i \<mapsto> (m_size (obj_cells (sim_heap s) ! p), t)) \<and>
    length (obj_cells h) = length (obj_cells (sim_heap s)) \<and> heap_bytes h = heap_bytes (sim_heap s)"
proof -
  obtain h where h: "upd_object p (setLastTimestamp t) (sim_heap s) = Inr h" "reading_heap h"
    "m_objects h = m_objects (sim_heap s)"
    "heap_objects h = (heap_objects (sim_heap s))(i \<mapsto> (m_size (obj_cells (sim_heap s) ! p), t))"
    "length (obj_cells h) = length (obj_cells (sim_heap s))" "heap_bytes h = heap_bytes (sim_heap s)"
    using stamp_reading [OF _ assms(2)] assms(1) unfolding sim_ok_def by blast
  then show ?thesis
    using assms(1) by (intro exI [of _ h]) (simp add: stamp_def sim_ok_def)
qed

lemma allocate_unannounced_effect:
  assumes "sim_ok s"
  shows "\<exists>h. allocate_unannounced k i tp s = Inr (length (obj_cells (sim_heap s)), s\<lparr>sim_heap := h, total_objects := total_objects s + 1\<rparr>) \<and>
    sim_ok (s\<lparr>sim_heap := h, total_objects := total_objects s + 1\<rparr>) \<and>
    m_objects h = om_put i (length (obj_cells (sim_heap s))) (m_objects (sim_heap s)) \<and>
    heap_objects h = (heap_objects (sim_heap s))(i \<mapsto> (4, 0)) \<and>
    length (obj_cells h) = Suc (length (obj_cells (sim_heap s))) \<and> heap_bytes h = heap_bytes (sim_heap s) + 4"
proof -
  have "\<exists>h. allocate (sim_classes s) i 4 k tmp_todo_str None tmp_todo_str 1 (Some tp) False (NowUp (sim_exec s)) (sim_heap s) =
      Inr (length (obj_cells (sim_heap s)), h)"
    by (simp add: allocate_Inr allocsite_name_def)
  then obtain h where h: "allocate (sim_classes s) i 4 k tmp_todo_str None tmp_todo_str 1 (Some tp) False (NowUp (sim_exec s)) (sim_heap s) =
      Inr (length (obj_cells (sim_heap s)), h)" by blast
  note eff = allocate_reading [OF _ h]
  then show ?thesis
    using assms h by (intro exI [of _ h]) (auto simp: allocate_unannounced_def sim_ok_def)
qed

section \<open>Every event implements its abstract step\<close>

lemma log_tick_sel [simp]:
  "objects (log_now a) = objects a" "objects (tick a) = objects a" "clock (log_now a) = clock a"
  "clock (tick a) = clock a + 1"
  by (simp_all add: log_now_def tick_def)

definition restamp :: "u32 \<Rightarrow> u32 \<Rightarrow> Machine \<Rightarrow> Machine" where
  "restamp i t a = a\<lparr>objects := (objects a)(i \<mapsto> (fst (the (objects a i)), t))\<rparr>"

lemma touch_alt: "touch i t a = restamp i t (if objects a i = None then fresh i 4 0 a else a)"
  by (auto simp: touch_def restamp_def fresh_def split: option.splits)

lemma stamp_machine:
  assumes "sim_ok s" and "map_of (m_objects (sim_heap s)) i = Some p"
  shows "\<exists>s'. stamp p t s = Inr s' \<and> sim_ok s' \<and> machine_of s' = restamp i t (machine_of s) \<and>
    m_objects (sim_heap s') = m_objects (sim_heap s)"
proof -
  obtain h where h: "stamp p t s = Inr (s\<lparr>sim_heap := h\<rparr>)" "sim_ok (s\<lparr>sim_heap := h\<rparr>)"
    "m_objects h = m_objects (sim_heap s)"
    "heap_objects h = (heap_objects (sim_heap s))(i \<mapsto> (m_size (obj_cells (sim_heap s) ! p), t))"
    "length (obj_cells h) = length (obj_cells (sim_heap s))" "heap_bytes h = heap_bytes (sim_heap s)"
    using stamp_effect [OF assms] by blast
  have "machine_of (s\<lparr>sim_heap := h\<rparr>) = restamp i t (machine_of s)"
    using h assms(2) by (intro Machine_eqI) (simp_all add: restamp_def heap_objects_def)
  then show ?thesis using h by auto
qed

lemma unannounced_machine:
  assumes "sim_ok s"
  shows "\<exists>p s'. allocate_unannounced k i tp s = Inr (p, s') \<and> sim_ok s' \<and> machine_of s' = fresh i 4 0 (machine_of s) \<and>
    m_objects (sim_heap s') = om_put i p (m_objects (sim_heap s)) \<and> no_alloc_map s' = no_alloc_map s"
proof -
  obtain h where h: "allocate_unannounced k i tp s = Inr (length (obj_cells (sim_heap s)), s\<lparr>sim_heap := h, total_objects := total_objects s + 1\<rparr>)"
    "sim_ok (s\<lparr>sim_heap := h, total_objects := total_objects s + 1\<rparr>)"
    "m_objects h = om_put i (length (obj_cells (sim_heap s))) (m_objects (sim_heap s))"
    "heap_objects h = (heap_objects (sim_heap s))(i \<mapsto> (4, 0))"
    "length (obj_cells h) = Suc (length (obj_cells (sim_heap s)))" "heap_bytes h = heap_bytes (sim_heap s) + 4"
    using allocate_unannounced_effect [OF assms] by blast
  have "machine_of (s\<lparr>sim_heap := h, total_objects := total_objects s + 1\<rparr>) = fresh i 4 0 (machine_of s)"
    using h by (intro Machine_eqI) (simp_all add: fresh_def)
  then show ?thesis using h by auto
qed

definition implements :: "Sim result \<Rightarrow> Machine result \<Rightarrow> bool" where
  "implements r m \<longleftrightarrow> (case r of Inl e \<Rightarrow> m = Inl e | Inr s' \<Rightarrow> sim_ok s' \<and> m = Inr (machine_of s'))"

lemma implements_simps [simp]:
  "implements (Inl e) m \<longleftrightarrow> m = Inl e" "implements (Inr s) m \<longleftrightarrow> sim_ok s \<and> m = Inr (machine_of s)"
  by (simp_all add: implements_def)

lemma machine_of_push: "machine_of (push_record r s) = (machine_of s)\<lparr>times := times (machine_of s) @ [get_ET_timestamp r]\<rparr>"
  by (simp add: machine_of_def)

lemma machine_of_thread [simp]:
  "machine_of (s\<lparr>sim_exec := snd (getThread uc t (sim_exec s))\<rparr>) = machine_of s"
  by (simp add: machine_of_def)

lemma method_event_machine:
  assumes "sim_ok s"
  shows "implements (method_event ui m i t s) (machine_event env (machine_of s) (Method_Event m i t))"
proof -
  define s0 where "s0 = s\<lparr>sim_exec := IncUpdateTime (sim_exec s)\<rparr>"
  define s1 where "s1 = push_record (Method_Rec (MethodRecord_new m i t (NowUp (sim_exec s0)))) s0"
  define s2 where "s2 = s1\<lparr>sim_exec := snd (getThread (ui_curcc ui) t (sim_exec s1))\<rparr>"
  have "machine_of s0 = tick (machine_of s)"
    by (intro Machine_eqI) (simp_all add: s0_def tick_def)
  then have "machine_of s1 = log_now (tick (machine_of s))"
    by (simp add: s1_def machine_of_push MethodRecord_new_def log_now_def s0_def)
  then have b: "machine_of s2 = log_now (tick (machine_of s))"
    by (simp add: s2_def)
  have ok: "sim_ok s2"
    using assms by (simp add: s2_def s1_def s0_def)
  have now: "clock (log_now (tick (machine_of s))) = NowUp (sim_exec s0)"
    by (simp add: s0_def log_now_def tick_def)
  have run: "method_event ui m i t s =
      (if 0 < i then
         bindR (case getObject (sim_heap s2) i of Some obj \<Rightarrow> Inr (obj, s2)
                | None \<Rightarrow> allocate_unannounced CHR ''M'' i (fst (getThread (ui_curcc ui) t (sim_exec s1))) s2)
           (\<lambda>(obj, s). stamp obj (NowUp (sim_exec s0)) s)
       else Inr s2)"
    by (simp add: method_event_def sim_getThread_eq s2_def s1_def s0_def Let_def cong: option.case_cong)
  show ?thesis
  proof (cases "i = 0")
    case True
    then show ?thesis using run b ok by (simp add: Let_def)
  next
    case False
    then have "0 < i" by (simp add: word_gt_0)
    show ?thesis
    proof (cases "getObject (sim_heap s2) i")
      case None
      obtain p s3 where s3: "allocate_unannounced CHR ''M'' i (fst (getThread (ui_curcc ui) t (sim_exec s1))) s2 = Inr (p, s3)"
        "sim_ok s3" "machine_of s3 = fresh i 4 0 (machine_of s2)" "m_objects (sim_heap s3) = om_put i p (m_objects (sim_heap s2))"
        using unannounced_machine [OF ok] by blast
      have "map_of (m_objects (sim_heap s3)) i = Some p" by (simp add: s3)
      then obtain s' where s': "stamp p (NowUp (sim_exec s0)) s3 = Inr s'" "sim_ok s'"
        "machine_of s' = restamp i (NowUp (sim_exec s0)) (machine_of s3)"
        using stamp_machine [OF s3(2)] by blast
      have "objects (machine_of s2) i = None" using None by simp
      then have "machine_of s' = touch i (NowUp (sim_exec s0)) (machine_of s2)"
        by (simp only: s' s3 touch_alt if_True simp_thms)
      moreover have "method_event ui m i t s = Inr s'"
        using run \<open>0 < i\<close> None s3(1) s'(1) by simp
      ultimately show ?thesis
        using s'(2) b False now by (simp add: Let_def)
    next
      case (Some p)
      then have "map_of (m_objects (sim_heap s2)) i = Some p" by (simp add: getObject_def)
      then obtain s' where s': "stamp p (NowUp (sim_exec s0)) s2 = Inr s'" "sim_ok s'"
        "machine_of s' = restamp i (NowUp (sim_exec s0)) (machine_of s2)"
        using stamp_machine [OF ok] by blast
      have "objects (machine_of s2) i \<noteq> None" using Some by simp
      then have "machine_of s' = touch i (NowUp (sim_exec s0)) (machine_of s2)"
        by (simp only: s' touch_alt if_False)
      moreover have "method_event ui m i t s = Inr s'"
        using run \<open>0 < i\<close> Some s'(1) by simp
      ultimately show ?thesis
        using s'(2) b False now by (simp add: Let_def)
    qed
  qed
qed

lemma exit_event_machine:
  assumes "sim_ok s" and "ui = env (length (sim_trace s))"
  shows "implements (exit_event ui m t s) (machine_event env (machine_of s) (Exit_Event m t))"
proof -
  have "machine_of (push_record (Exit_Rec (ExitRecord_new m t (NowUp (sim_exec s)))) s) = log_now (machine_of s)"
    by (simp add: machine_of_push ExitRecord_new_def log_now_def)
  then show ?thesis
    using assms by (auto simp: exit_event_def Let_def word_gt_0)
qed

lemma witness_event_machine:
  assumes "sim_ok s"
  shows "implements (witness_event i c ts s) (machine_event env (machine_of s) (Witness_Event i c ts))"
proof -
  define s1 where "s1 = push_record (Witness_Rec (WitnessRecord_new i c ts (NowUp (sim_exec s)))) s"
  have b: "machine_of s1 = log_now (machine_of s)" "sim_ok s1" "sim_heap s1 = sim_heap s"
    using assms by (simp_all add: s1_def machine_of_push WitnessRecord_new_def log_now_def)
  have run: "witness_event i c ts s =
      (case getObject (sim_heap s1) i of None \<Rightarrow> Inl Assertion_Failed | Some obj \<Rightarrow> stamp obj (NowUp (sim_exec s)) s1)"
    by (simp add: witness_event_def s1_def Let_def cong: option.case_cong)
  show ?thesis
  proof (cases "getObject (sim_heap s) i")
    case (Some p)
    then have "map_of (m_objects (sim_heap s1)) i = Some p" by (simp add: getObject_def b)
    then obtain s' where s': "stamp p (NowUp (sim_exec s)) s1 = Inr s'" "sim_ok s'"
      "machine_of s' = restamp i (NowUp (sim_exec s)) (machine_of s1)"
      using stamp_machine [OF b(2)] by blast
    have "objects (machine_of s1) i \<noteq> None" using Some b(3) by simp
    then have "machine_of s' = touch i (NowUp (sim_exec s)) (machine_of s1)"
      by (simp only: s' touch_alt if_False)
    moreover have "heap_objects (sim_heap s) i \<noteq> None" using Some by (simp only: heap_objects_None) simp
    ultimately show ?thesis
      using s' b run Some by (simp del: heap_objects_None not_None_eq)
  qed (simp add: run b)
qed

lemma AllocRecord_time:
  "AllocRecord_new i st t c len sz k ds now u = Inr r \<Longrightarrow> m_ET_timestamp r = now"
  by (auto simp: AllocRecord_new_def fault_simps)

lemma sites_named_index:
  assumes "sites_named ci" and "om_index i (TheAllocSites ci) = (site, sites)"
  shows "sites_named (ci\<lparr>TheAllocSites := sites\<rparr>)"
    "\<exists>n. allocsite_name (ci\<lparr>TheAllocSites := sites\<rparr>) site = Inr n"
proof -
  have "Method_getName (ci\<lparr>TheAllocSites := x\<rparr>) m = Method_getName ci m" for x m
    by (simp add: Method_getName_def method_at_def cong: option.case_cong)
  then have same: "allocsite_name (ci\<lparr>TheAllocSites := x\<rparr>) y = allocsite_name ci y" for x y
    by (simp add: allocsite_name_def cong: option.case_cong)
  show "sites_named (ci\<lparr>TheAllocSites := sites\<rparr>)"
    using assms by (auto simp: sites_named_def same om_index_def split: option.splits if_splits)
  show "\<exists>n. allocsite_name (ci\<lparr>TheAllocSites := sites\<rparr>) site = Inr n"
    using assms unfolding same
    by (cases site) (auto simp: sites_named_def om_index_def allocsite_name_def split: option.splits)
qed

lemma alloc_event_machine:
  assumes "sim_ok s" and "ui = env (length (sim_trace s))"
  shows "implements (alloc_event ui k i sz c site_id len t ds s)
    (machine_event env (machine_of s) (Alloc_Event k i sz c site_id len t ds))"
proof (cases "num_dims_of k ds (ui_num_dims ui)")
  case (Inl e)
  then show ?thesis
    using assms(2) by (simp add: alloc_event_def AllocRecord_new_def)
next
  case (Inr n)
  then obtain r where r: "AllocRecord_new i site_id t c len sz k ds (NowUp (sim_exec s)) (ui_num_dims ui) = Inr r"
    by (simp add: AllocRecord_new_def)
  obtain site sites where idx: "om_index site_id (TheAllocSites (sim_classes s)) = (site, sites)"
    by fastforce
  define th where "th = fst (getThread (ui_curcc ui) t (sim_exec s))"
  define x where "x = SetAllocTime (m_alloc_time (sim_heap s)) (snd (getThread (ui_curcc ui) t (sim_exec s)))"
  define ci where "ci = (sim_classes s)\<lparr>TheAllocSites := sites\<rparr>"
  define s1 where "s1 = (push_record (Alloc_Rec r) s)\<lparr>sim_exec := x,
      allocation_time := m_alloc_time (sim_heap s), sim_classes := ci\<rparr>"
  have now: "NowUp x = NowUp (sim_exec s)" by (simp add: x_def)
  have ci: "sites_named ci" "\<exists>n. allocsite_name ci site = Inr n"
    using sites_named_index [OF _ idx] assms(1) by (simp_all add: sim_ok_def ci_def)
  have ok: "sim_ok s1"
    using assms(1) ci(1) by (simp add: s1_def sim_ok_def push_record_def)
  have b: "machine_of s1 = log_now (machine_of s)"
    using AllocRecord_time [OF r] by (intro Machine_eqI) (simp_all add: s1_def log_now_def now)
  have run: "alloc_event ui k i sz c site_id len t ds s =
      (if 0 < i then
         bindR (allocate ci i sz k tmp_todo_str site tmp_todo_str len (Some th) True (NowUp (sim_exec s)) (sim_heap s))
           (\<lambda>(p, h). stamp p (NowUp (sim_exec s))
              (s1\<lparr>sim_heap := h, total_objects := total_objects s + 1, sim_exec := IncUpdateTime x\<rparr>))
       else Inr s1)"
    by (simp add: alloc_event_def r sim_getThread_eq idx th_def x_def ci_def s1_def Let_def)
  have spec: "machine_event env (machine_of s) (Alloc_Event k i sz c site_id len t ds) =
      Inr (if i = 0 then log_now (machine_of s) else tick (fresh i sz (NowUp (sim_exec s)) (log_now (machine_of s))))"
    using Inr assms(2) by simp
  show ?thesis
  proof (cases "i = 0")
    case True
    then show ?thesis using run spec ok b by simp
  next
    case False
    then have pos: "0 < i" by (simp add: word_gt_0)
    obtain n where n: "allocsite_name ci site = Inr n" using ci(2) by blast
    then obtain p h where h: "allocate ci i sz k tmp_todo_str site tmp_todo_str len (Some th) True (NowUp (sim_exec s)) (sim_heap s) = Inr (p, h)"
      by (auto simp: allocate_def Let_def)
    note eff = allocate_reading [OF _ h]
    define s2 where "s2 = s1\<lparr>sim_heap := h, total_objects := total_objects s + 1, sim_exec := IncUpdateTime x\<rparr>"
    have rh: "reading_heap (sim_heap s)" using assms(1) by (simp add: sim_ok_def)
    have ok2: "sim_ok s2"
      using ok eff [OF rh] by (auto simp: s2_def s1_def sim_ok_def push_record_def)
    have "map_of (m_objects (sim_heap s2)) i = Some p" using eff(2) [OF rh] by (simp add: s2_def)
    then obtain s' where s': "stamp p (NowUp (sim_exec s)) s2 = Inr s'" "sim_ok s'"
      "machine_of s' = restamp i (NowUp (sim_exec s)) (machine_of s2)"
      using stamp_machine [OF ok2] by blast
    have "alloc_event ui k i sz c site_id len t ds s = Inr s'"
      using run pos h s'(1) by (simp add: s2_def)
    moreover have "machine_of s' = tick (fresh i sz (NowUp (sim_exec s)) (log_now (machine_of s)))"
      unfolding s'(3) using eff [OF rh] AllocRecord_time [OF r]
      by (intro Machine_eqI) (simp_all add: restamp_def tick_def fresh_def log_now_def s2_def s1_def now)
    ultimately show ?thesis
      using spec False s'(2) by simp
  qed
qed

lemma update_object_machine:
  assumes "sim_ok s"
  shows "\<exists>p s'. update_object ui i t s = Inr (p, s') \<and> sim_ok s' \<and>
    machine_of s' = (if objects (machine_of s) i = None then fresh i 4 0 (machine_of s) else machine_of s) \<and>
    map_of (m_objects (sim_heap s')) i = Some p \<and> NowUp (sim_exec s') = NowUp (sim_exec s) \<and>
    (\<forall>j q. map_of (m_objects (sim_heap s)) j = Some q \<longrightarrow> map_of (m_objects (sim_heap s')) j = Some q)"
proof (cases "getObject (sim_heap s) i")
  case (Some p)
  then have "heap_objects (sim_heap s) i \<noteq> None" by (simp only: heap_objects_None) simp
  then show ?thesis
    using assms Some by (auto simp: update_object_def getObject_def)
next
  case None
  define s1 where "s1 = s\<lparr>sim_exec := snd (getThread (ui_curcc ui) t (sim_exec s))\<rparr>"
  have ok: "sim_ok s1" using assms by (simp add: s1_def)
  have no: "map_of (no_alloc_map s) i = None"
    using assms None by (auto simp: sim_ok_def getObject_def)
  obtain p s2 where s2: "allocate_unannounced CHR ''U'' i (fst (getThread (ui_curcc ui) t (sim_exec s))) s1 = Inr (p, s2)"
    "sim_ok s2" "machine_of s2 = fresh i 4 0 (machine_of s1)" "m_objects (sim_heap s2) = om_put i p (m_objects (sim_heap s1))"
    "no_alloc_map s2 = no_alloc_map s1"
    using unannounced_machine [OF ok] by blast
  define s' where "s' = s2\<lparr>no_alloc_map := om_put i p (no_alloc_map s2)\<rparr>"
  have run: "update_object ui i t s = Inr (p, s')"
    using None no s2(1) by (simp add: update_object_def sim_getThread_eq s1_def s'_def)
  have m: "machine_of s' = fresh i 4 0 (machine_of s)"
    using s2(3) by (simp add: s'_def s1_def machine_of_def)
  have "sim_ok s'" using s2 by (auto simp: s'_def sim_ok_def)
  moreover have "NowUp (sim_exec s') = NowUp (sim_exec s)"
    using arg_cong [OF m, of clock] by (simp add: fresh_def)
  ultimately show ?thesis
    using run m None s2(4) by (auto simp: s'_def s1_def getObject_def)
qed

lemma update_edge_reading:
  assumes "sim_ok s" and "map_of (m_objects (sim_heap s)) i = Some p"
  shows "update_edge p f q tgt s = Inr s"
proof -
  have "p < length (obj_cells (sim_heap s))"
    using assms heap_okD(1) [OF reading_heap_ok] by (auto simp: sim_ok_def)
  moreover then have "m_fields (obj_cells (sim_heap s) ! p) = []"
    using assms(1) by (simp add: sim_ok_def reading_heap_def)
  ultimately have "getEdge (sim_heap s) p f = Inr None"
    by (simp add: getEdge_def deref_valid)
  then show ?thesis by (simp add: update_edge_def)
qed

lemma touch_twice:
  "restamp i t (restamp j t (if objects b j = None then fresh j 4 0 b else b)) = touch i t (touch j t a)"
  if "b = (if objects a i = None then fresh i 4 0 a else a)"
  by (cases "objects a i"; cases "objects a j"; cases "i = j")
    (auto simp: that touch_alt restamp_def fresh_def fun_eq_iff)

lemma update_event_machine:
  assumes "sim_ok s"
  shows "implements (update_event ui i tgt f t s) (machine_event env (machine_of s) (Update_Event i tgt f t))"
proof -
  define s0 where "s0 = s\<lparr>sim_exec := IncUpdateTime (sim_exec s)\<rparr>"
  define now where "now = NowUp (sim_exec s0)"
  define s1 where "s1 = push_record (Update_Rec (UpdateRecord_new tgt f i t now (ui_timestamp ui))) s0"
  have b: "machine_of s1 = log_now (tick (machine_of s))"
    by (intro Machine_eqI) (simp_all add: s1_def s0_def now_def UpdateRecord_new_def log_now_def tick_def)
  have ok: "sim_ok s1" using assms by (simp add: s1_def s0_def)
  obtain p s2 where s2: "update_object ui i t s1 = Inr (p, s2)" "sim_ok s2"
    "machine_of s2 = (if objects (machine_of s1) i = None then fresh i 4 0 (machine_of s1) else machine_of s1)"
    "map_of (m_objects (sim_heap s2)) i = Some p"
    using update_object_machine [OF ok] by metis
  have run: "update_event ui i tgt f t s =
      bindR (assertR (0 < tgt)) (\<lambda>_.
      bindR (update_object ui tgt t s2) (\<lambda>(target, s).
      bindR (stamp target now s) (\<lambda>s.
      bindR (stamp p now s) (\<lambda>s.
      update_edge p f target tgt s))))"
    using s2(1) by (simp add: update_event_def s1_def s0_def now_def Let_def)
  show ?thesis
  proof (cases "tgt = 0")
    case True
    then show ?thesis using run by (simp add: Let_def)
  next
    case False
    then have pos: "0 < tgt" by (simp add: word_gt_0)
    obtain q s3 where s3: "update_object ui tgt t s2 = Inr (q, s3)" "sim_ok s3"
      "machine_of s3 = (if objects (machine_of s2) tgt = None then fresh tgt 4 0 (machine_of s2) else machine_of s2)"
      "map_of (m_objects (sim_heap s3)) tgt = Some q" "map_of (m_objects (sim_heap s3)) i = Some p"
      using update_object_machine [OF s2(2)] s2(4) by metis
    obtain s4 where s4: "stamp q now s3 = Inr s4" "sim_ok s4" "machine_of s4 = restamp tgt now (machine_of s3)"
      "map_of (m_objects (sim_heap s4)) i = Some p"
      using stamp_machine [OF s3(2,4)] s3(5) by metis
    obtain s5 where s5: "stamp p now s4 = Inr s5" "sim_ok s5" "machine_of s5 = restamp i now (machine_of s4)"
      "map_of (m_objects (sim_heap s5)) i = Some p"
      using stamp_machine [OF s4(2,4)] s4(4) by metis
    have "update_event ui i tgt f t s = Inr s5"
      using run pos s3(1) s4(1) s5(1) update_edge_reading [OF s5(2,4)] by simp
    moreover have "machine_of s5 = touch i now (touch tgt now (machine_of s1))"
      unfolding s5(3) s4(3) s3(3) using touch_twice [OF s2(3)] .
    moreover have "clock (log_now (tick (machine_of s))) = now"
      by (simp add: now_def s0_def)
    ultimately show ?thesis
      using s5(2) b False by (simp add: Let_def)
  qed
qed

lemma apply_event_machine:
  assumes "sim_ok s"
  shows "implements (apply_event env s ev) (machine_event env (machine_of s) ev)"
  using method_event_machine exit_event_machine alloc_event_machine update_event_machine witness_event_machine assms
  by (cases ev) (simp_all only: apply_event.simps uninit_now_def)

section \<open>Whole traces\<close>

interpretation event_steps: loop_body "apply_event env" sim_ok for env
proof unfold_locales
  show "sim_ok s'" if "sim_ok s" "apply_event env s ev = Inr s'" for s ev s'
    using apply_event_machine [OF that(1), of env ev] that(2) by simp
qed

lemma trace_line_keeps: "sim_ok s \<Longrightarrow> trace_line env s tk = Inr s' \<Longrightarrow> sim_ok s'"
  by (auto simp: trace_line_def fault_simps split: option.splits dest: event_steps.body_keeps)

interpretation trace_lines: line_handler "trace_line env" sim_ok for env
  by unfold_locales (rule trace_line_keeps)

lemma events_machine:
  "sim_ok s \<Longrightarrow> map_sum id machine_of (foldR (apply_event env) evs s) = foldR (machine_event env) evs (machine_of s)"
proof (induction evs arbitrary: s)
  case (Cons ev evs)
  show ?case
  proof (cases "apply_event env s ev")
    case (Inl e)
    then show ?thesis using apply_event_machine [OF Cons.prems, of env ev] by simp
  next
    case (Inr s1)
    then show ?thesis using apply_event_machine [OF Cons.prems, of env ev] Cons.IH [of s1] by simp
  qed
qed simp

text \<open>
  C4: The reader implements the abstract machine. From any state the reader can be in, a sequence
  of events is handled without fault exactly when the abstract machine accepts it, stops with the
  same fault otherwise, and ends in a state that the machine's describes: the clock, the size and
  last timestamp of every object, the number of objects and bytes allocated, the time of every
  record. In particular the \<open>DUPE\<close> assertions never fail, and an update with target 0 always fails
  the assertion on the target.
\<close>
theorem reader_implements_machine:
  assumes "sim_ok s"
  shows "map_sum id machine_of (foldR (apply_event env) evs s) = foldR (machine_event env) evs (machine_of s) \<and>
    foldR (apply_event env) (Update_Event i 0 f t # evs) s = Inl Assertion_Failed"
  using events_machine [OF assms, of env evs] apply_event_machine [OF assms, of env "Update_Event i 0 f t"]
  by (cases "apply_event env s (Update_Event i 0 f t)") simp_all

definition demo_env :: environment where
  "demo_env n = \<lparr>ui_object_id = 0, ui_num_dims = 0, ui_timestamp = 0, ui_curcc = None\<rparr>"

definition demo_sim :: Sim where
  "demo_sim = Sim_init StackOnly ClassInfo_init"

lemma demo_sim_ok: "sim_ok demo_sim"
  by (simp add: demo_sim_def sim_ok_init sites_named_def ClassInfo_init_def)

lemma reader_implements_machine_witness:
  "map_sum id clock (map_sum id machine_of (foldR (apply_event demo_env)
     [Method_Event 1 7 1, Update_Event 7 8 3 1, Witness_Event 8 0 0] demo_sim)) = Inr 2"
proof -
  have "map_sum id clock (foldR (machine_event demo_env) [Method_Event 1 7 1, Update_Event 7 8 3 1, Witness_Event 8 0 0]
      (machine_of demo_sim)) = Inr 2"
    by (simp add: machine_of_def demo_sim_def Sim_init_def ExecState_new_def HeapState_init_def NowUp_def
        heap_objects_def heap_bytes_def touch_def fresh_def tick_def log_now_def)
  then show ?thesis
    using reader_implements_machine [OF demo_sim_ok, of demo_env "[Method_Event 1 7 1, Update_Event 7 8 3 1, Witness_Event 8 0 0]"]
    by metis
qed

section \<open>What reading a trace leaves behind\<close>

lemma read_ok: "read_trace_file_part1 env f d s = Inr s' \<Longrightarrow> sim_ok s \<Longrightarrow> sim_ok s'"
  unfolding read_trace_file_part1_def by (rule trace_lines.lines_keep)

text \<open>
  C33: No edge is ever made. Whatever the trace says, a reading that returns leaves a heap without
  edges and every object without fields: an update makes an edge only where there is one already.
\<close>
theorem reader_makes_no_edge:
  assumes "sites_named ci" and "read_trace_file_part1 env f d (Sim_init mode ci) = Inr s"
  shows "edge_cells (sim_heap s) = [] \<and> (\<forall>obj \<in> set (obj_cells (sim_heap s)). m_fields obj = [])"
  using read_ok [OF assms(2) sim_ok_init [OF assms(1)]] by (simp add: sim_ok_def reading_heap_def)

lemma small_trace: "\<exists>s. read_trace_file_part1 demo_env ''M 1 7 1'' E_SPACE (Sim_init StackOnly ClassInfo_init) = Inr s"
proof -
  have "\<not> isl (read_trace_file_part1 demo_env ''M 1 7 1'' E_SPACE (Sim_init StackOnly ClassInfo_init))"
    by code_simp
  then show ?thesis by (metis isl_def sum.exhaust)
qed

lemma demo_sites: "sites_named ClassInfo_init"
  by (simp add: sites_named_def ClassInfo_init_def)

lemma reader_makes_no_edge_witness:
  "\<exists>s. read_trace_file_part1 demo_env ''M 1 7 1'' E_SPACE (Sim_init StackOnly ClassInfo_init) = Inr s \<and>
     edge_cells (sim_heap s) = []"
  using small_trace reader_makes_no_edge [OF demo_sites] by blast

text \<open>
  C29: What the reader counts. After any reading that returns, the answer \<open>total_objects\<close> is the
  number of objects created, the allocation clock is the sum of their sizes, and (for at most
  \<open>2 ^ 32\<close> objects) the live size and the maximal live size are that sum too: no death is ever
  recorded while the trace is read.
\<close>
theorem reader_totals:
  assumes "sites_named ci" and "read_trace_file_part1 env f d (Sim_init mode ci) = Inr s"
    and "length (obj_cells (sim_heap s)) \<le> 2 ^ 32"
  shows "total_objects s = of_nat (length (obj_cells (sim_heap s))) \<and>
    m_alloc_time (sim_heap s) = of_nat (heap_bytes (sim_heap s)) \<and>
    unat (m_liveSize (sim_heap s)) = heap_bytes (sim_heap s) \<and>
    m_maxLiveSize (sim_heap s) = m_liveSize (sim_heap s)"
proof -
  have ok: "sim_ok s" by (rule read_ok [OF assms(2) sim_ok_init [OF assms(1)]])
  then obtain hs where run: "heap_run (sim_heap s # hs)"
    by (auto simp: sim_ok_def reading_heap_def)
  have "live_bytes (sim_heap s) = heap_bytes (sim_heap s)"
    unfolding live_bytes_def heap_bytes_def using ok
    by (intro arg_cong [where f = sum_list] map_cong) (auto simp: sim_ok_def reading_heap_def)
  then show ?thesis
    using heap_run_facts [OF run] assms(3) ok by (simp add: sim_ok_def reading_heap_def)
qed

lemma reader_totals_witness:
  "\<exists>s. read_trace_file_part1 demo_env ''M 1 7 1'' E_SPACE (Sim_init StackOnly ClassInfo_init) = Inr s \<and>
     total_objects s = 1 \<and> m_liveSize (sim_heap s) = m_maxLiveSize (sim_heap s)"
proof -
  obtain s where s: "read_trace_file_part1 demo_env ''M 1 7 1'' E_SPACE (Sim_init StackOnly ClassInfo_init) = Inr s"
    using small_trace by blast
  have "length (obj_cells (sim_heap (projr (read_trace_file_part1 demo_env ''M 1 7 1'' E_SPACE (Sim_init StackOnly ClassInfo_init))))) = 1"
    by code_simp
  then have "length (obj_cells (sim_heap s)) = 1" by (simp add: s)
  then show ?thesis using reader_totals [OF demo_sites s] s by simp
qed

text \<open>The order of the records: their times are the values of a clock that never runs back.\<close>

definition machine_clocked :: "Machine \<Rightarrow> bool" where
  "machine_clocked a \<longleftrightarrow> length (times a) < 2 ^ 32 \<longrightarrow>
     unat (clock a) \<le> length (times a) \<and> sorted (times a) \<and> (\<forall>x \<in> set (times a). x \<le> clock a) \<and>
     (\<forall>i sz x. objects a i = Some (sz, x) \<longrightarrow> x \<le> clock a)"

lemma clock_tick:
  "unat (c :: u32) \<le> n \<Longrightarrow> Suc n < 2 ^ 32 \<Longrightarrow> unat (c + 1) \<le> Suc n \<and> c \<le> c + 1"
proof -
  assume "unat c \<le> n" "Suc n < 2 ^ 32"
  then have "unat (c + 1) = unat c + 1"
    by (simp add: unat_word_ariths)
  then show ?thesis
    using \<open>unat c \<le> n\<close> by (simp add: word_le_nat_alt)
qed

lemma machine_event_clocked:
  assumes "machine_clocked a" and "machine_event env a ev = Inr b"
  shows "machine_clocked b"
proof -
  consider (stay) "times b = times a @ [clock a]" "clock b = clock a" "\<forall>i y. objects b i = Some y \<longrightarrow> objects a i = Some y \<or> snd y = clock a"
    | (move) "times b = times a @ [clock a + 1]" "clock b = clock a + 1"
        "\<forall>i y. objects b i = Some y \<longrightarrow> objects a i = Some y \<or> snd y = clock a + 1"
    | (after) "times b = times a @ [clock a]" "clock b = clock a + 1" "\<forall>i y. objects b i = Some y \<longrightarrow> objects a i = Some y \<or> snd y = clock a"
    using assms(2)
    by (cases ev) (auto simp: Let_def touch_def fresh_def tick_def log_now_def fault_simps split: if_splits option.splits)
  then show ?thesis
  proof cases
    case stay
    then show ?thesis
      using assms(1) unfolding machine_clocked_def by (fastforce simp: sorted_append)
  next
    case move
    then show ?thesis
      using assms(1) clock_tick [of "clock a" "length (times a)"] unfolding machine_clocked_def
      by (fastforce simp: sorted_append intro: order_trans)
  next
    case after
    then show ?thesis
      using assms(1) clock_tick [of "clock a" "length (times a)"] unfolding machine_clocked_def
      by (fastforce simp: sorted_append intro: order_trans)
  qed
qed

lemma apply_event_clocked:
  "sim_ok s \<and> machine_clocked (machine_of s) \<Longrightarrow> apply_event env s ev = Inr s' \<Longrightarrow>
   sim_ok s' \<and> machine_clocked (machine_of s')"
  using apply_event_machine [of s env ev] machine_event_clocked [of "machine_of s" env ev "machine_of s'"] by simp

lemma trace_line_clocked:
  "sim_ok s \<and> machine_clocked (machine_of s) \<Longrightarrow> trace_line env s tk = Inr s' \<Longrightarrow>
   sim_ok s' \<and> machine_clocked (machine_of s')"
proof -
  assume ok: "sim_ok s \<and> machine_clocked (machine_of s)" and step: "trace_line env s tk = Inr s'"
  obtain eo where eo: "parse_line tk = Inr eo" "(case eo of None \<Rightarrow> Inr s | Some e \<Rightarrow> apply_event env s e) = Inr s'"
    using step by (auto simp: trace_line_def bindR_Inr_iff)
  show ?thesis
  proof (cases eo)
    case None
    then show ?thesis using ok eo(2) by simp
  next
    case (Some e)
    then show ?thesis using apply_event_clocked [OF ok] eo(2) by simp
  qed
qed

interpretation clocked_lines: line_handler "trace_line env" "\<lambda>s. sim_ok s \<and> machine_clocked (machine_of s)" for env
  by unfold_locales (rule trace_line_clocked)

lemma clocked_init: "machine_clocked (machine_of (Sim_init mode ci))"
  by (simp add: machine_clocked_def machine_of_def Sim_init_def ExecState_new_def NowUp_def HeapState_init_def heap_objects_def)

lemma read_clocked:
  assumes "sites_named ci" and "read_trace_file_part1 env f d (Sim_init mode ci) = Inr s"
  shows "sim_ok s \<and> machine_clocked (machine_of s)"
  using clocked_lines.lines_keep [of _ env] sim_ok_init [OF assms(1)] clocked_init assms(2)
  unfolding read_trace_file_part1_def by blast

text \<open>
  C17: The trace is in order. After a reading of fewer than \<open>2 ^ 32\<close> records that returns, the
  times of the records never decrease, none lies after the final clock, and neither does the last
  timestamp of any object in the heap.
\<close>
theorem reader_times_sorted:
  assumes "sites_named ci" and "read_trace_file_part1 env f d (Sim_init mode ci) = Inr s"
    and "length (sim_trace s) < 2 ^ 32"
  shows "sorted (map get_ET_timestamp (sim_trace s)) \<and>
    (\<forall>r \<in> set (sim_trace s). get_ET_timestamp r \<le> NowUp (sim_exec s)) \<and>
    (\<forall>i p. map_of (m_objects (sim_heap s)) i = Some p \<longrightarrow>
       m_last_timestamp (obj_cells (sim_heap s) ! p) \<le> NowUp (sim_exec s))"
proof -
  have "x \<le> NowUp (sim_exec s)" if "heap_objects (sim_heap s) i = Some (sz, x)" for i sz x
    using that read_clocked [OF assms(1,2)] assms(3) by (auto simp: machine_clocked_def)
  then show ?thesis
    using read_clocked [OF assms(1,2)] assms(3) by (auto simp: machine_clocked_def heap_objects_def)
qed

lemma reader_times_sorted_witness:
  "\<exists>s. read_trace_file_part1 demo_env ''M 1 7 1'' E_SPACE (Sim_init StackOnly ClassInfo_init) = Inr s \<and>
     sorted (map get_ET_timestamp (sim_trace s))"
proof -
  obtain s where s: "read_trace_file_part1 demo_env ''M 1 7 1'' E_SPACE (Sim_init StackOnly ClassInfo_init) = Inr s"
    using small_trace by blast
  have "length (sim_trace (projr (read_trace_file_part1 demo_env ''M 1 7 1'' E_SPACE (Sim_init StackOnly ClassInfo_init)))) = 1"
    by code_simp
  then have "length (sim_trace s) < 2 ^ 32" by (simp add: s)
  from reader_times_sorted [OF demo_sites s this] s show ?thesis by blast
qed

section \<open>Printed traces\<close>

text \<open>A line as the tracing agent prints it.\<close>

fun print_event :: "Event \<Rightarrow> string list" where
  "print_event (Method_Event m i t) = [''M'', show_dec m, show_dec i, show_dec t]"
| "print_event (Exit_Event m t) = [''E'', show_dec m, show_dec t]"
| "print_event (Alloc_Event k i sz c site len t ds) =
     [[k], show_dec i, show_dec sz, show_dec c, show_dec site, show_dec len, show_dec t] @
     (if k = CHR ''A'' then [ds] else [])"
| "print_event (Update_Event i tgt f t) = [''U'', show_dec i, show_dec tgt, show_dec f, show_dec t]"
| "print_event (Witness_Event i c ts) = [''W'', show_dec i, show_dec c, show_dec ts]"

fun event_fits :: "Event \<Rightarrow> bool" where
  "event_fits (Method_Event m i t) = (fits m \<and> fits i \<and> fits t)"
| "event_fits (Exit_Event m t) = (fits m \<and> fits t)"
| "event_fits (Alloc_Event k i sz c site len t ds) =
     ((k = CHR ''A'' \<or> k = CHR ''N'' \<and> ds = []) \<and> fits i \<and> fits sz \<and> fits c \<and> fits site \<and> fits len \<and> fits t)"
| "event_fits (Update_Event i tgt f t) = (fits i \<and> fits tgt \<and> fits f \<and> fits t)"
| "event_fits (Witness_Event i c ts) = (fits i \<and> fits c \<and> fits ts)"

lemma getChar_printed:
  "tokenizer_ok tk \<Longrightarrow> tokens tk = (c # cs) # xs \<Longrightarrow> getChar tk 0 = c"
  by (rule getChar_token [of tk 0 c cs 0]) simp_all

lemma parse_print_event:
  assumes ok: "tokenizer_ok tk" and toks: "tokens tk = print_event ev" and fit: "event_fits ev"
  shows "parse_line tk = Inr (Some ev)"
proof -
  note num = numTokens_tokens [OF ok, unfolded toks]
  note int = getInt_printed [OF ok, unfolded toks]
  note char = getChar_printed [OF ok, unfolded toks]
  have str: "getString tk 7 = (if 7 < length (print_event ev) then Some (print_event ev ! 7) else None)"
    using getString_token [of 7, OF _ ok] by (simp add: toks)
  show ?thesis
  proof (cases ev)
    case (Method_Event m i t)
    then show ?thesis
      using fit num char int [of 1 m 1] int [of 2 i 2] int [of 3 t 3]
      by (simp add: parse_line_def parse_method_def)
  next
    case (Exit_Event m t)
    then show ?thesis
      using fit num char int [of 1 m 1] int [of 2 t 2]
      by (simp add: parse_line_def parse_exit_def)
  next
    case (Alloc_Event k i sz c site len t ds)
    then show ?thesis
      using fit num str char int [of 1 i 1] int [of 2 sz 2] int [of 3 c 3] int [of 4 site 4]
        int [of 5 len 5] int [of 6 t 6]
      by (auto simp: parse_line_def parse_alloc_def to_string_def nth_append)
  next
    case (Update_Event i tgt f t)
    then show ?thesis
      using fit num char int [of 1 i 1] int [of 2 tgt 2] int [of 3 f 3] int [of 4 t 4]
      by (simp add: parse_line_def parse_update_def)
  next
    case (Witness_Event i c ts)
    then show ?thesis
      using fit num char int [of 1 i 1] int [of 2 c 2] int [of 3 ts 3]
      by (simp add: parse_line_def parse_witness_def)
  qed
qed

lemma read_printed_trace:
  assumes "\<forall>ev \<in> set evs. event_fits ev \<and> printable (print_event ev)"
  shows "read_trace_file_part1 env (print_file (map print_event evs)) E_SPACE s = foldR (apply_event env) evs s"
  unfolding read_trace_file_part1_def
proof (rule read_print_file)
  show "\<forall>ev \<in> set evs. printable (print_event ev)" using assms by blast
  show "trace_line env s tk = apply_event env s ev"
    if "tokenizer_ok tk" "ev \<in> set evs" "tokens tk = print_event ev" for s tk ev
    using parse_print_event [OF that(1,3)] that(2) assms by (simp add: trace_line_def)
qed (simp_all add: Tokenizer_new_def)

text \<open>
  C16: A printed trace is read as printed. On a file that holds a list of events, one on a line
  with its fields in decimal below \<open>2 ^ 31\<close>, \<open>read_trace_file_part1\<close> applies exactly these events in
  order; the first that faults ends the reading.
\<close>
theorem printed_trace_is_applied:
  assumes "\<forall>ev \<in> set evs. event_fits ev \<and> printable (print_event ev)"
  shows "read_trace_file_part1 env (print_file (map print_event evs)) E_SPACE s = foldR (apply_event env) evs s"
  by (rule read_printed_trace [OF assms])

lemma printed_trace_is_applied_witness:
  "read_trace_file_part1 demo_env (print_file [print_event (Method_Event 1 7 1), print_event (Update_Event 7 0 3 1)])
     E_SPACE demo_sim = Inl Assertion_Failed"
proof -
  have "printable (print_event (Method_Event 1 7 1))" "printable (print_event (Update_Event 7 0 3 1))"
    by code_simp+
  moreover have "foldR (apply_event demo_env) [Method_Event 1 7 1, Update_Event 7 0 3 1] demo_sim = Inl Assertion_Failed"
    by code_simp
  ultimately show ?thesis
    using printed_trace_is_applied [of "[Method_Event 1 7 1, Update_Event 7 0 3 1]" demo_env demo_sim]
    by (simp add: fits_def del: print_event.simps foldR.simps)
qed

section \<open>How reading can stop\<close>

lemma foldR_getInt_fault: "foldR (\<lambda>_ i. bindR (getInt tk (int i)) (\<lambda>_. Inr ())) xs u = Inl e \<Longrightarrow> e = Bad_Conversion"
  by (induction xs) (auto simp: fault_simps dest: getInt_fault)

lemma parse_line_fault:
  assumes "tokenizer_ok tk" and "parse_line tk = Inl e"
  shows "e \<in> {Assertion_Failed, Bad_Conversion}"
proof -
  have "getString tk 7 \<noteq> None" if "numTokens tk = 8"
    using that by (simp add: getString_def has_token_def numTokens_def)
  then have "parse_alloc tk = Inl e \<Longrightarrow> e \<in> {Assertion_Failed, Bad_Conversion}"
    by (auto simp: parse_alloc_def Let_def fault_simps to_string_def dest: getInt_fault split: if_splits option.splits)
  moreover have "parse_method tk = Inl e \<Longrightarrow> e \<in> {Assertion_Failed, Bad_Conversion}"
    "parse_exit tk = Inl e \<Longrightarrow> e \<in> {Assertion_Failed, Bad_Conversion}"
    "parse_update tk = Inl e \<Longrightarrow> e \<in> {Assertion_Failed, Bad_Conversion}"
    "parse_witness tk = Inl e \<Longrightarrow> e \<in> {Assertion_Failed, Bad_Conversion}"
    by (auto simp: parse_method_def parse_exit_def parse_update_def parse_witness_def fault_simps
        dest: getInt_fault foldR_getInt_fault split: if_splits)
  moreover have "map_sum id Some r = Inl e \<longleftrightarrow> r = Inl e" for r :: "Event result"
    by (cases r) auto
  ultimately show ?thesis
    using assms(2) by (auto simp: parse_line_def Let_def split: if_splits)
qed

lemma machine_event_fault:
  "machine_event env a ev = Inl e \<Longrightarrow> e \<in> {Assertion_Failed, Invalid_Argument, Out_Of_Range}"
  by (cases ev) (auto simp: Let_def fault_simps num_dims_of_def stoi_def split: if_splits option.splits)

lemma read_faults:
  assumes "sim_ok s" and "read_trace_file_part1 env f d s = Inl e"
  shows "e \<in> {Assertion_Failed, Bad_Conversion, Out_Of_Bounds, Invalid_Argument, Out_Of_Range}"
proof -
  have "e = Out_Of_Bounds \<or> (\<exists>s tk. sim_ok s \<and> tokenizer_ok tk \<and> tokens tk \<noteq> [] \<and> trace_line env s tk = Inl e)"
    using trace_lines.lines_fault [OF assms(1)] assms(2) unfolding read_trace_file_part1_def .
  moreover have "e \<in> {Assertion_Failed, Bad_Conversion, Invalid_Argument, Out_Of_Range}"
    if ok: "sim_ok s" "tokenizer_ok tk" and line: "trace_line env s tk = Inl e" for s tk
  proof -
    consider "parse_line tk = Inl e" | ev where "apply_event env s ev = Inl e"
      using line by (auto simp: trace_line_def bindR_Inl_iff split: option.splits)
    then show ?thesis
    proof cases
      case 1
      then show ?thesis using parse_line_fault [OF ok(2)] by blast
    next
      case (2 ev)
      then have "machine_event env (machine_of s) ev = Inl e"
        using apply_event_machine [OF ok(1), of env ev] by simp
      then show ?thesis using machine_event_fault by blast
    qed
  qed
  ultimately show ?thesis by blast
qed

text \<open>
  How a reading can stop. When every allocation site of the class tables has a name, reading
  any file either returns or stops in one of five ways: a failed assertion, a number that does not
  fit an \<open>int\<close>, the token array overrun by a line of more than 50 tokens, or an exception of
  \<open>stoi\<close>. No NULL or dangling pointer is followed.
\<close>
theorem reader_faults:
  assumes "sites_named ci" and "read_trace_file_part1 env f d (Sim_init mode ci) = Inl e"
  shows "e \<in> {Assertion_Failed, Bad_Conversion, Out_Of_Bounds, Invalid_Argument, Out_Of_Range}"
  using read_faults [OF sim_ok_init [OF assms(1)] assms(2)] .

lemma reader_faults_witness:
  "\<exists>e. read_trace_file_part1 demo_env ''U 7 0 3 1'' E_SPACE (Sim_init StackOnly ClassInfo_init) = Inl e \<and>
     e \<in> {Assertion_Failed, Bad_Conversion, Out_Of_Bounds, Invalid_Argument, Out_Of_Range}"
proof -
  have "isl (read_trace_file_part1 demo_env ''U 7 0 3 1'' E_SPACE (Sim_init StackOnly ClassInfo_init))"
    by code_simp
  then show ?thesis using reader_faults [OF demo_sites] by (metis isl_def)
qed

end
