(* ===== verification/Merlin.thy ===== *)
theory Merlin
  imports Trace_Reader
begin

text \<open>
  The Merlin pass (\<open>simulator/simulator.cpp\<close>, lines 135 to 293): the two checks of the order of time
  stamps, the depth-first search that propagates the last timestamp of every object along its
  edges and turns it into a death time, and the merge of death records into the trace. The search
  keeps the deques and the set of the source; \<open>std::sort\<close>, which leaves the order of equivalent
  elements open, is an argument. Messages to \<open>cerr\<close> are left out.
\<close>

section \<open>Checks of the order\<close>

fun verify_trace_loop :: "u32 \<Rightarrow> TraceRecord list \<Rightarrow> bool" where
  "verify_trace_loop rec_timestamp [] = True"
| "verify_trace_loop rec_timestamp (r # rs) =
     (let prev_timestamp = rec_timestamp;
          rec_timestamp = get_ET_timestamp r
      in if rec_timestamp < prev_timestamp then False else verify_trace_loop rec_timestamp rs)"

definition verify_trace :: "TraceRecord list \<Rightarrow> bool" where
  "verify_trace trace = verify_trace_loop 0 trace"

text \<open>An object out of order is only reported: the check answers true all the same.\<close>

fun garbage_order_loop :: "HeapState \<Rightarrow> u32 \<Rightarrow> obj_ptr list \<Rightarrow> bool result" where
  "garbage_order_loop h rec_timestamp [] = Inr True"
| "garbage_order_loop h rec_timestamp (p # ps) =
     bindR (deref (obj_cells h) p) (\<lambda>obj. garbage_order_loop h (m_last_timestamp obj) ps)"

definition verify_garbage_order :: "HeapState \<Rightarrow> obj_ptr list \<Rightarrow> bool result" where
  "verify_garbage_order h garbage = garbage_order_loop h 0 garbage"

section \<open>Death records\<close>

text \<open>The state of the merge: \<open>prev_timestamp\<close>, \<open>rec_timestamp\<close>, the records from \<open>reciter\<close> on, \<open>tlist\<close>.\<close>

type_synonym merge = "u32 \<times> u32 \<times> TraceRecord list \<times> TraceRecord list"

fun take_records :: "u32 \<Rightarrow> u32 \<Rightarrow> u32 \<Rightarrow> TraceRecord list \<Rightarrow> TraceRecord list \<Rightarrow> merge" where
  "take_records ettime prev_timestamp rec_timestamp [] tlist = (prev_timestamp, rec_timestamp, [], tlist)"
| "take_records ettime prev_timestamp rec_timestamp (r # rs) tlist =
     (let prev_timestamp = rec_timestamp;
          rec_timestamp = get_ET_timestamp r
      in if ettime < rec_timestamp then (prev_timestamp, rec_timestamp, r # rs, tlist)
         else take_records ettime prev_timestamp rec_timestamp rs (tlist @ [r]))"

definition death_step :: "HeapState \<Rightarrow> merge \<Rightarrow> u32 \<times> obj_ptr \<Rightarrow> merge result" where
  "death_step h m entry =
     (let (prev_timestamp, rec_timestamp, reciter, tlist) = m; (object_id, p) = entry in
      bindR (deref (obj_cells h) p) (\<lambda>obj.
      let (prev_timestamp, rec_timestamp, reciter, tlist) =
            take_records (m_last_timestamp obj) prev_timestamp rec_timestamp reciter tlist
      in Inr (prev_timestamp, rec_timestamp, reciter,
              tlist @ [Death_Rec (DeathRecord_new object_id 0 prev_timestamp)])))"

definition insert_death_records_into_trace :: "TraceRecord list \<Rightarrow> HeapState \<Rightarrow> TraceRecord list result" where
  "insert_death_records_into_trace trace h =
     bindR (foldR (death_step h) (m_objects h) (0, 0, trace, [])) (\<lambda>(_, _, _, tlist). Inr tlist)"

section \<open>The search\<close>

text \<open>One edge out of the object that is visited: NULL edges and edges without target are passed over.\<close>

fun merlin_edge :: "u32 \<Rightarrow> HeapState \<times> obj_ptr list \<Rightarrow> u32 \<times> edge_ptr option \<Rightarrow> (HeapState \<times> obj_ptr list) result" where
  "merlin_edge tstamp_max (h, mystack) (k, None) = Inr (h, mystack)"
| "merlin_edge tstamp_max (h, mystack) (k, Some e) =
     bindR (upd_edge e (setEndTime tstamp_max) h) (\<lambda>h.
     bindR (deref_edge h e) (\<lambda>edge.
     case m_target edge of
       None \<Rightarrow> Inr (h, mystack)
     | Some mytgt \<Rightarrow>
         bindR (deref (obj_cells h) mytgt) (\<lambda>tgt.
         bindR (if m_last_timestamp tgt < tstamp_max
                then upd_object mytgt (\<lambda>tgt. setDeathTime tstamp_max (setLastTimestamp tstamp_max tgt)) h
                else Inr h) (\<lambda>h.
         Inr (h, mytgt # mystack)))))"

text \<open>The state of the search: the heap, the garbage, the labeled objects, the stack.\<close>

type_synonym search = "HeapState \<times> obj_ptr list \<times> obj_ptr set \<times> obj_ptr list"

definition merlin_visit :: "obj_ptr \<Rightarrow> search \<Rightarrow> search result" where
  "merlin_visit objtmp st =
     (let (h, garbage, labeled, mystack) = st in
      bindR (deref (obj_cells h) objtmp) (\<lambda>obj.
      let tstamp_max = m_last_timestamp obj in
      bindR (upd_object objtmp (setDeathTime tstamp_max) h) (\<lambda>h.
      let garbage = remove1 objtmp garbage in
      if objtmp \<in> labeled then Inr (h, garbage, labeled, mystack)
      else bindR (foldR (merlin_edge tstamp_max) (m_fields obj) (h, mystack)) (\<lambda>(h, mystack).
           Inr (h, garbage, insert objtmp labeled, mystack)))))"

lemma merlin_edge_length:
  "merlin_edge t st x = Inr st' \<Longrightarrow> length (obj_cells (fst st')) = length (obj_cells (fst st))"
  by (cases "(t, st, x)" rule: merlin_edge.cases)
    (auto simp: heap_simps fault_simps upd_edge_def upd_object_def split: option.splits if_splits)

interpretation merlin_edges: loop_body "merlin_edge t" "\<lambda>st. length (obj_cells (fst st)) = n" for t n
  by unfold_locales (auto dest: merlin_edge_length)

lemma merlin_visit_shape:
  assumes "merlin_visit p (h, g, L, s) = Inr (h', g', L', s')"
  shows "length (obj_cells h') = length (obj_cells h)" "p < length (obj_cells h)" "g' = remove1 p g"
    "p \<in> L \<and> L' = L \<and> s' = s \<or> p \<notin> L \<and> L' = insert p L"
  using assms
  by (auto simp: merlin_visit_def Let_def fault_simps heap_simps split: if_splits dest!: merlin_edges.loop_keeps [OF refl])

text \<open>The loop ends: a visit labels an object of the heap or only takes one from the stack.\<close>

function merlin_search :: "search \<Rightarrow> (HeapState \<times> obj_ptr list) result" where
  "merlin_search (h, garbage, labeled, []) = Inr (h, garbage)"
| "merlin_search (h, garbage, labeled, objtmp # mystack) =
     bindR (merlin_visit objtmp (h, garbage, labeled, mystack)) merlin_search"
  by pat_completeness auto
termination
proof (relation "measures [\<lambda>(h, g, L, s). card ({..<length (obj_cells h)} - L), \<lambda>(h, g, L, s). length s]")
  fix h :: HeapState and g L p s st
  assume visit: "merlin_visit p (h, g, L, s) = Inr st"
  obtain h' g' L' s' where st: "st = (h', g', L', s')"
    by (cases st)
  note v = merlin_visit_shape [OF visit [unfolded st]]
  have "card ({..<length (obj_cells h)} - insert p L) < card ({..<length (obj_cells h)} - L)" if "p \<notin> L"
    using v(2) that by (intro psubset_card_mono) auto
  then show "(st, h, g, L, p # s) \<in> measures [\<lambda>(h, g, L, s). card ({..<length (obj_cells h)} - L), \<lambda>(h, g, L, s). length s]"
    unfolding st using v(1,4) by (elim disjE) simp_all
qed simp

declare merlin_search.simps [simp del]

lemma merlin_search_garbage: "merlin_search st = Inr (h', g') \<Longrightarrow> length g' \<le> length (fst (snd st))"
proof (induction st rule: merlin_search.induct)
  case (2 h garbage labeled objtmp mystack)
  then obtain st where v: "merlin_visit objtmp (h, garbage, labeled, mystack) = Inr st" "merlin_search st = Inr (h', g')"
    by (auto simp: fault_simps merlin_search.simps)
  then have "length (fst (snd st)) \<le> length garbage"
    by (cases st) (auto dest!: merlin_visit_shape(3) simp: length_remove1)
  with 2(1) [OF v(1) v(2)] show ?case by simp
qed (simp add: merlin_search.simps)

function merlin_rounds :: "HeapState \<Rightarrow> obj_ptr list \<Rightarrow> HeapState result" where
  "merlin_rounds h [] = Inr h"
| "merlin_rounds h (cur # garbage) =
     bindR (merlin_search (h, garbage, {}, [cur])) (\<lambda>(h, garbage). merlin_rounds h garbage)"
  by pat_completeness auto
termination
  by (relation "measure (\<lambda>(h, garbage). length garbage)") (auto dest: merlin_search_garbage)

definition apply_merlin ::
  "((obj_ptr \<Rightarrow> obj_ptr \<Rightarrow> bool) \<Rightarrow> obj_ptr list \<Rightarrow> obj_ptr list) \<Rightarrow> TraceRecord list \<Rightarrow> HeapState \<Rightarrow> HeapState result" where
  "apply_merlin std_sort trace h =
     (let garbage = map snd (m_objects h);
          garbage = std_sort (\<lambda>left right. m_last_timestamp (obj_cells h ! right) < m_last_timestamp (obj_cells h ! left)) garbage
      in bindR (verify_garbage_order h garbage) (\<lambda>ok.
         bindR (assertR ok) (\<lambda>_.
         bindR (merlin_rounds h garbage) (\<lambda>h.
         bindR (insert_death_records_into_trace trace h) (\<lambda>trace_list. Inr h)))))"

section \<open>Sorting\<close>

text \<open>
  What the standard promises of \<open>std::sort\<close>, as an interface: for a strict weak order it delivers
  a permutation in which no element precedes one that should come before it.
\<close>

definition strict_weak :: "('a \<Rightarrow> 'a \<Rightarrow> bool) \<Rightarrow> bool" where
  "strict_weak cmp \<longleftrightarrow> (\<forall>x. \<not> cmp x x) \<and> (\<forall>x y z. cmp x y \<longrightarrow> cmp y z \<longrightarrow> cmp x z) \<and>
     (\<forall>x y z. cmp x z \<longrightarrow> cmp x y \<or> cmp y z)"

locale sorting =
  fixes std_sort :: "('a \<Rightarrow> 'a \<Rightarrow> bool) \<Rightarrow> 'a list \<Rightarrow> 'a list"
  assumes permutes: "strict_weak cmp \<Longrightarrow> mset (std_sort cmp xs) = mset xs"
    and ordered: "strict_weak cmp \<Longrightarrow> sorted_wrt (\<lambda>x y. \<not> cmp y x) (std_sort cmp xs)"
begin

lemma strict_weak_key: "strict_weak (\<lambda>x y. (key y :: 'k::linorder) < key x)"
  by (auto simp: strict_weak_def)

lemma same_elements: "strict_weak cmp \<Longrightarrow> set (std_sort cmp xs) = set xs"
  using permutes mset_eq_setD by blast

lemma by_key:
  "mset (std_sort (\<lambda>x y. (key y :: 'k::linorder) < key x) xs) = mset xs"
  "sorted_wrt (\<lambda>x y. key y \<le> key x) (std_sort (\<lambda>x y. key y < key x) xs)"
  using permutes [OF strict_weak_key, of key xs] ordered [OF strict_weak_key, of key xs] by (auto simp: not_less)

end

text \<open>An implementation of the interface: insertion into a sorted list.\<close>

fun insert_by :: "('a \<Rightarrow> 'a \<Rightarrow> bool) \<Rightarrow> 'a \<Rightarrow> 'a list \<Rightarrow> 'a list" where
  "insert_by cmp x [] = [x]"
| "insert_by cmp x (y # ys) = (if cmp y x then y # insert_by cmp x ys else x # y # ys)"

definition sort_by :: "('a \<Rightarrow> 'a \<Rightarrow> bool) \<Rightarrow> 'a list \<Rightarrow> 'a list" where
  "sort_by cmp xs = foldr (insert_by cmp) xs []"

lemma mset_insert_by [simp]: "mset (insert_by cmp x ys) = add_mset x (mset ys)"
  by (induction ys) auto

lemma sorted_insert_by:
  assumes "strict_weak cmp" and "sorted_wrt (\<lambda>x y. \<not> cmp y x) ys"
  shows "sorted_wrt (\<lambda>x y. \<not> cmp y x) (insert_by cmp x ys)"
  using assms(2)
proof (induction ys)
  case (Cons y ys)
  have "set (insert_by cmp x ys) = insert x (set ys)"
    using mset_insert_by [of cmp x ys] by (metis set_mset_mset set_mset_add_mset_insert)
  moreover have "\<not> cmp x y" if "cmp y x"
    using assms(1) that unfolding strict_weak_def by metis
  moreover have "\<not> cmp z x" if "\<not> cmp y x" "\<not> cmp z y" for z
    using assms(1) that unfolding strict_weak_def by metis
  ultimately show ?case
    using Cons by simp
qed simp

interpretation insertion: sorting sort_by
proof
  fix cmp :: "'a \<Rightarrow> 'a \<Rightarrow> bool" and xs
  assume "strict_weak cmp"
  then show "mset (sort_by cmp xs) = mset xs" "sorted_wrt (\<lambda>x y. \<not> cmp y x) (sort_by cmp xs)"
    by (induction xs) (auto simp: sort_by_def sorted_insert_by)
qed

section \<open>The checks and the merge\<close>

lemma verify_trace_loop_sorted: "verify_trace_loop t rs \<longleftrightarrow> sorted (t # map get_ET_timestamp rs)"
  by (induction rs arbitrary: t) (auto simp: Let_def not_less intro: order.trans)

lemma verify_trace_sorted: "verify_trace rs \<longleftrightarrow> sorted (map get_ET_timestamp rs)"
  by (auto simp: verify_trace_def verify_trace_loop_sorted)

lemma garbage_order_true: "\<forall>p \<in> set ps. p < length (obj_cells h) \<Longrightarrow> garbage_order_loop h t ps = Inr True"
  by (induction ps arbitrary: t) (auto simp: deref_valid)

lemma verify_garbage_order_true: "\<forall>p \<in> set ps. p < length (obj_cells h) \<Longrightarrow> verify_garbage_order h ps = Inr True"
  by (simp add: verify_garbage_order_def garbage_order_true)

definition up_to :: "u32 \<Rightarrow> TraceRecord list \<Rightarrow> TraceRecord list" where
  "up_to t rs = takeWhile (\<lambda>r. get_ET_timestamp r \<le> t) rs"

definition from_on :: "u32 \<Rightarrow> TraceRecord list \<Rightarrow> TraceRecord list" where
  "from_on t rs = dropWhile (\<lambda>r. get_ET_timestamp r \<le> t) rs"

lemma take_records_split:
  "\<exists>a b. take_records t p q rs out = (a, b, from_on t rs, out @ up_to t rs)"
  by (induction t p q rs out rule: take_records.induct) (auto simp: Let_def up_to_def from_on_def)

text \<open>The records up to the first that is later than every time of a set.\<close>

definition up_to_any :: "u32 set \<Rightarrow> TraceRecord list \<Rightarrow> TraceRecord list" where
  "up_to_any T rs = takeWhile (\<lambda>r. \<exists>t \<in> T. get_ET_timestamp r \<le> t) rs"

lemma up_to_any_none: "up_to_any {} rs = []"
  by (simp add: up_to_any_def takeWhile_eq_Nil_iff)

lemma up_to_any_insert: "up_to_any (insert t T) rs = up_to t rs @ up_to_any T (from_on t rs)"
proof (induction rs)
  case (Cons r rs)
  show ?case
  proof (cases "get_ET_timestamp r \<le> t")
    case False
    have "(\<exists>s \<in> insert t T. get_ET_timestamp x \<le> s) = (\<exists>s \<in> T. get_ET_timestamp x \<le> s)"
      if later: "\<exists>s \<in> T. get_ET_timestamp r \<le> s" for x
    proof -
      obtain s where "s \<in> T" "t \<le> s"
        using later False by fastforce
      then show ?thesis
        by (auto intro: order.trans)
    qed
    then show ?thesis
      using False by (cases "\<exists>s \<in> T. get_ET_timestamp r \<le> s") (auto simp: up_to_any_def up_to_def from_on_def)
  qed (use Cons in \<open>simp add: up_to_any_def up_to_def from_on_def\<close>)
qed (simp add: up_to_any_def up_to_def from_on_def)

definition is_death_record :: "TraceRecord \<Rightarrow> bool" where
  "is_death_record r = (case r of Death_Rec _ \<Rightarrow> True | _ \<Rightarrow> False)"

definition death_of :: "TraceRecord \<Rightarrow> u32" where
  "death_of r = (case r of Death_Rec d \<Rightarrow> m_objectId_d d | _ \<Rightarrow> 0)"

text \<open>The times of last use of a list of objects.\<close>

definition stamps :: "HeapState \<Rightarrow> (u32 \<times> obj_ptr) list \<Rightarrow> u32 set" where
  "stamps h os = (\<lambda>(i, p). m_last_timestamp (obj_cells h ! p)) ` set os"

lemma merge_fold:
  assumes "\<forall>(i, p) \<in> set os. p < length (obj_cells h)" and "\<forall>r \<in> set rs. \<not> is_death_record r"
  shows "\<exists>a b rest ds. foldR (death_step h) os (p0, q0, rs, out) = Inr (a, b, rest, out @ ds) \<and>
    filter (\<lambda>r. \<not> is_death_record r) ds = up_to_any (stamps h os) rs \<and>
    map death_of (filter is_death_record ds) = map fst os"
  using assms
proof (induction os arbitrary: p0 q0 rs out)
  case Nil
  then show ?case by (simp add: stamps_def up_to_any_none)
next
  case (Cons e os)
  obtain i p where e: "e = (i, p)" by (cases e)
  define t where "t = m_last_timestamp (obj_cells h ! p)"
  obtain a b where take: "take_records t p0 q0 rs out = (a, b, from_on t rs, out @ up_to t rs)"
    using take_records_split by blast
  define d where "d = Death_Rec (DeathRecord_new i 0 a)"
  have d: "is_death_record d" "death_of d = i"
    by (simp_all add: d_def is_death_record_def death_of_def DeathRecord_new_def)
  have plain: "\<forall>r \<in> set (up_to t rs). \<not> is_death_record r" "\<forall>r \<in> set (from_on t rs). \<not> is_death_record r"
    using Cons.prems(2) by (auto simp: up_to_def from_on_def dest: set_takeWhileD set_dropWhileD)
  have later: "\<forall>(i, p) \<in> set os. p < length (obj_cells h)"
    using Cons.prems(1) by simp
  have "foldR (death_step h) (e # os) (p0, q0, rs, out) =
      foldR (death_step h) os (a, b, from_on t rs, (out @ up_to t rs) @ [d])"
    using Cons.prems(1) take by (simp add: e death_step_def deref_valid t_def [symmetric] d_def)
  moreover obtain a' b' rest ds where
    "foldR (death_step h) os (a, b, from_on t rs, (out @ up_to t rs) @ [d]) = Inr (a', b', rest, ((out @ up_to t rs) @ [d]) @ ds)"
    "filter (\<lambda>r. \<not> is_death_record r) ds = up_to_any (stamps h os) (from_on t rs)"
    "map death_of (filter is_death_record ds) = map fst os"
    using Cons.IH [OF later plain(2), of a b "(out @ up_to t rs) @ [d]"] by blast
  moreover have "stamps h (e # os) = insert t (stamps h os)"
    by (simp add: stamps_def e t_def)
  ultimately show ?case
    using plain(1) d by (intro exI [of _ a'] exI [of _ b'] exI [of _ rest] exI [of _ "up_to t rs @ d # ds"])
      (simp add: up_to_any_insert filter_id_conv e)
qed

text \<open>The two times the loop over the records leaves: that of the record read before the last, and of the last.\<close>

lemma take_records_times:
  "take_records t p q rs out =
     ((case from_on t rs of
         [] \<Rightarrow> (case rev rs of [] \<Rightarrow> p | [_] \<Rightarrow> q | _ # r # _ \<Rightarrow> get_ET_timestamp r)
       | _ # _ \<Rightarrow> if up_to t rs = [] then q else get_ET_timestamp (last (up_to t rs))),
      (case from_on t rs of
         [] \<Rightarrow> if rs = [] then q else get_ET_timestamp (last rs)
       | r # _ \<Rightarrow> get_ET_timestamp r),
      from_on t rs, out @ up_to t rs)"
proof (induction t p q rs out rule: take_records.induct)
  case (2 t p q r rs out)
  show ?case
  proof (cases "t < get_ET_timestamp r")
    case True
    then show ?thesis by (simp add: up_to_def from_on_def not_le)
  next
    case False
    then have cut: "up_to t (r # rs) = r # up_to t rs" "from_on t (r # rs) = from_on t rs"
      by (simp_all add: up_to_def from_on_def)
    have "take_records t p q (r # rs) out = take_records t q (get_ET_timestamp r) rs (out @ [r])"
      using False by simp
    also have "\<dots> = ((case from_on t rs of
         [] \<Rightarrow> (case rev rs of [] \<Rightarrow> q | [_] \<Rightarrow> get_ET_timestamp r | _ # r' # _ \<Rightarrow> get_ET_timestamp r')
       | _ # _ \<Rightarrow> if up_to t rs = [] then get_ET_timestamp r else get_ET_timestamp (last (up_to t rs))),
      (case from_on t rs of
         [] \<Rightarrow> if rs = [] then get_ET_timestamp r else get_ET_timestamp (last rs)
       | r' # _ \<Rightarrow> get_ET_timestamp r'),
      from_on t rs, (out @ [r]) @ up_to t rs)"
      using "2.IH" False by simp
    finally show ?thesis
      unfolding cut by (cases rs rule: rev_cases; simp split: list.split)
  qed
qed (simp add: up_to_def from_on_def)

lemma up_to_any_union: "up_to_any (T \<union> U) rs = up_to_any T rs @ up_to_any U (drop (length (up_to_any T rs)) rs)"
proof (induction rs)
  case (Cons r rs)
  show ?case
  proof (cases "\<exists>t \<in> T. get_ET_timestamp r \<le> t")
    case True
    then show ?thesis using Cons by (auto simp: up_to_any_def)
  next
    case False
    have "(\<exists>s \<in> T \<union> U. get_ET_timestamp x \<le> s) = (\<exists>s \<in> U. get_ET_timestamp x \<le> s)"
      if later: "\<exists>s \<in> U. get_ET_timestamp r \<le> s" for x
    proof -
      obtain s where "s \<in> U" "\<forall>t \<in> T. t \<le> s" using later False by fastforce
      then show ?thesis by (auto intro: order.trans)
    qed
    then show ?thesis
      using False by (cases "\<exists>s \<in> U. get_ET_timestamp r \<le> s") (auto simp: up_to_any_def)
  qed
qed (simp add: up_to_any_def)

text \<open>How many records stand before the death of the \<open>k\<close>-th object, and the time of that death record.\<close>

definition records_before :: "HeapState \<Rightarrow> TraceRecord list \<Rightarrow> (u32 \<times> obj_ptr) list \<Rightarrow> nat \<Rightarrow> nat" where
  "records_before h trace os k = length (up_to_any (stamps h (take (Suc k) os)) trace)"

definition records_until :: "HeapState \<Rightarrow> TraceRecord list \<Rightarrow> (u32 \<times> obj_ptr) list \<Rightarrow> nat \<Rightarrow> nat" where
  "records_until h trace os k = (case k of 0 \<Rightarrow> 0 | Suc j \<Rightarrow> records_before h trace os j)"

text \<open>
  Let the death of the \<open>k\<close>-th object follow the first \<open>n\<close> records, of which \<open>m\<close> stand before the death
  of the object before it. If the trace goes on, the time is that of the last record taken (the
  right one), or, if none was taken, of the record that comes next (0 for the first object). If the trace is
  used up, it is the time of the record before the last, or again that of the last if it
  alone was taken now, or what the death record before got.
\<close>

fun death_record_time :: "HeapState \<Rightarrow> TraceRecord list \<Rightarrow> (u32 \<times> obj_ptr) list \<Rightarrow> nat \<Rightarrow> u32" where
  "death_record_time h trace os k =
     (let m = records_until h trace os k; n = records_before h trace os k; time = (\<lambda>i. get_ET_timestamp (trace ! i)) in
      if n < length trace then (if m < n then time (n - 1) else if k = 0 then 0 else time n)
      else if m + 1 < n then time (n - 2)
      else if m < n then (if k = 0 then 0 else time (n - 1))
      else (case k of 0 \<Rightarrow> 0 | Suc j \<Rightarrow> death_record_time h trace os j))"

declare death_record_time.simps [simp del]

definition merged :: "HeapState \<Rightarrow> TraceRecord list \<Rightarrow> (u32 \<times> obj_ptr) list \<Rightarrow> nat \<Rightarrow> TraceRecord list" where
  "merged h trace os k =
     drop (records_until h trace os k) (take (records_before h trace os k) trace) @
     [Death_Rec (DeathRecord_new (fst (os ! k)) 0 (death_record_time h trace os k))]"

text \<open>What is said of an object does not depend on the objects after it.\<close>

lemma merged_prefix:
  assumes "k < length os"
  shows "records_before h trace (os @ es) k = records_before h trace os k"
    and "records_until h trace (os @ es) k = records_until h trace os k"
    and "death_record_time h trace (os @ es) k = death_record_time h trace os k"
    and "merged h trace (os @ es) k = merged h trace os k"
proof -
  have before: "records_before h trace (os @ es) j = records_before h trace os j" if "j < length os" for j
    using that by (simp add: records_before_def)
  then have until: "records_until h trace (os @ es) j = records_until h trace os j" if "j < length os" for j
    using that by (simp add: records_until_def split: nat.split)
  have time: "death_record_time h trace (os @ es) k = death_record_time h trace os k"
    using assms
  proof (induction k)
    case 0
    then show ?case by (subst (1 2) death_record_time.simps) (simp add: Let_def before until)
  next
    case (Suc k)
    then show ?case by (subst (1 2) death_record_time.simps) (simp add: Let_def before until)
  qed
  show "records_before h trace (os @ es) k = records_before h trace os k"
    "records_until h trace (os @ es) k = records_until h trace os k"
    "death_record_time h trace (os @ es) k = death_record_time h trace os k"
    "merged h trace (os @ es) k = merged h trace os k"
    using before [OF assms] until [OF assms] time assms by (simp_all add: merged_def nth_append)
qed

lemma up_to_any_take: "up_to_any T rs = take (length (up_to_any T rs)) rs"
  by (simp add: up_to_any_def takeWhile_eq_take [symmetric])

lemma records_until_end: "records_until h trace os (length os) = length (up_to_any (stamps h os) trace)"
  by (cases os rule: rev_cases) (simp_all add: records_until_def records_before_def stamps_def up_to_any_none)

lemma last_taken: "m < n \<Longrightarrow> n \<le> length xs \<Longrightarrow> last (drop m (take n xs)) = xs ! (n - 1)"
  by (simp add: last_conv_nth)

lemma rev_drop_two:
  assumes "m + 1 < length xs"
  shows "\<exists>y ys. rev (drop m xs) = y # xs ! (length xs - 2) # ys"
proof -
  obtain ys y z where "xs = ys @ [y, z]"
    using assms by (cases xs rule: rev_cases, simp, rename_tac us u, case_tac us rule: rev_cases) auto
  then show ?thesis
    using assms by (auto simp: nth_append)
qed

text \<open>The two times after the death of an object \<open>e\<close> that follows the objects \<open>os\<close>, from those before (\<open>a\<close> and \<open>b\<close>).\<close>

lemma death_times:
  assumes m: "records_until h trace (os @ [e]) (length os) = m" and n: "records_before h trace (os @ [e]) (length os) = n"
    and a: "a = (case length os of 0 \<Rightarrow> 0 | Suc j \<Rightarrow> death_record_time h trace os j)"
    and b: "b = (if os = [] \<or> trace = [] then 0 else get_ET_timestamp (trace ! (if m < length trace then m else length trace - 1)))"
    and order: "m \<le> n" "n \<le> length trace"
  shows "(case drop n trace of
      [] \<Rightarrow> (case rev (drop m trace) of [] \<Rightarrow> a | [_] \<Rightarrow> b | _ # r # _ \<Rightarrow> get_ET_timestamp r)
    | _ # _ \<Rightarrow> if drop m (take n trace) = [] then b else get_ET_timestamp (last (drop m (take n trace)))) =
    death_record_time h trace (os @ [e]) (length os)"
    and "(case drop n trace of
      [] \<Rightarrow> if drop m trace = [] then b else get_ET_timestamp (last (drop m trace))
    | r # _ \<Rightarrow> get_ET_timestamp r) =
    (if trace = [] then 0 else get_ET_timestamp (trace ! (if n < length trace then n else length trace - 1)))"
proof -
  show "(case drop n trace of
      [] \<Rightarrow> (case rev (drop m trace) of [] \<Rightarrow> a | [_] \<Rightarrow> b | _ # r # _ \<Rightarrow> get_ET_timestamp r)
    | _ # _ \<Rightarrow> if drop m (take n trace) = [] then b else get_ET_timestamp (last (drop m (take n trace)))) =
    death_record_time h trace (os @ [e]) (length os)"
  proof (cases "n < length trace")
    case True
    then have "drop n trace = trace ! n # drop (Suc n) trace" by (simp add: Cons_nth_drop_Suc)
    then show ?thesis
      using True order last_taken [of m n trace]
      by (subst death_record_time.simps) (auto simp: m n b Let_def)
  next
    case False
    then have end_reached: "n = length trace" using order by simp
    consider "m + 1 < length trace" | "m + 1 = length trace" | "length trace \<le> m" by linarith
    then show ?thesis
    proof cases
      case 1
      then show ?thesis
        using rev_drop_two [OF 1] end_reached
        by (subst death_record_time.simps) (auto simp: m n Let_def)
    next
      case 2
      then have "drop m trace = [trace ! m]"
        using Cons_nth_drop_Suc [of m trace] by simp
      moreover have "m = length trace - 1" using 2 by simp
      ultimately show ?thesis
        using 2 end_reached by (subst death_record_time.simps) (auto simp: m n b Let_def)
    next
      case 3
      then show ?thesis
        using end_reached by (subst death_record_time.simps) (simp add: m n a Let_def merged_prefix(3) split: nat.split)
    qed
  qed
  show "(case drop n trace of
      [] \<Rightarrow> if drop m trace = [] then b else get_ET_timestamp (last (drop m trace))
    | r # _ \<Rightarrow> get_ET_timestamp r) =
    (if trace = [] then 0 else get_ET_timestamp (trace ! (if n < length trace then n else length trace - 1)))"
  proof (cases "n < length trace")
    case True
    then have "drop n trace = trace ! n # drop (Suc n) trace" by (simp add: Cons_nth_drop_Suc)
    then show ?thesis using True by auto
  next
    case False
    have "m = 0" if "os = []" using that by (simp add: m [symmetric] records_until_def)
    with False show ?thesis
      using order by (auto simp: b last_conv_nth)
  qed
qed

lemma merge_exact:
  assumes "\<forall>(i, p) \<in> set os. p < length (obj_cells h)"
  shows "foldR (death_step h) os (0, 0, trace, []) =
    (let n = records_until h trace os (length os) in
     Inr (case length os of 0 \<Rightarrow> 0 | Suc j \<Rightarrow> death_record_time h trace os j,
       if os = [] \<or> trace = [] then 0 else get_ET_timestamp (trace ! (if n < length trace then n else length trace - 1)),
       drop n trace, concat (map (merged h trace os) [0..<length os])))"
  using assms
proof (induction os rule: rev_induct)
  case Nil
  then show ?case by (simp add: records_until_def)
next
  case (snoc e os)
  obtain i p where e: "e = (i, p)" by fastforce
  let ?os = "os @ [e]" and ?k = "length os" and ?N = "length trace"
  define t where "t = m_last_timestamp (obj_cells h ! p)"
  define m where "m = records_until h trace os ?k"
  define n where "n = records_before h trace ?os ?k"
  define a where "a = (case ?k of 0 \<Rightarrow> 0 | Suc j \<Rightarrow> death_record_time h trace os j)"
  define b where "b = (if os = [] \<or> trace = [] then 0 else get_ET_timestamp (trace ! (if m < ?N then m else ?N - 1)))"
  have m: "m = length (up_to_any (stamps h os) trace)" by (simp add: m_def records_until_end)
  have "stamps h ?os = stamps h os \<union> {t}" by (auto simp: stamps_def e t_def)
  then have taken: "up_to_any (stamps h ?os) trace = up_to_any (stamps h os) trace @ up_to t (drop m trace)"
    by (simp only: up_to_any_union m [symmetric]) (simp add: up_to_any_def up_to_def)
  have len: "n = length (up_to_any (stamps h ?os) trace)" by (simp add: n_def records_before_def)
  have n: "n = m + length (up_to t (drop m trace))" by (simp add: len taken m [symmetric])
  have le: "n \<le> ?N" unfolding len up_to_any_def by (rule length_takeWhile_le)
  have until: "records_until h trace ?os ?k = m"
    by (simp add: m_def records_until_def records_before_def split: nat.split)
  have parts: "up_to t (drop m trace) @ from_on t (drop m trace) = drop m trace" by (simp add: up_to_def from_on_def)
  have up: "up_to t (drop m trace) = drop m (take n trace)"
    using parts n by (metis add_diff_cancel_left' append_eq_conv_conj drop_take)
  have on: "from_on t (drop m trace) = drop n trace"
    using parts n by (metis add.commute append_eq_conv_conj drop_drop)
  have run: "foldR (death_step h) os (0, 0, trace, []) = Inr (a, b, drop m trace, concat (map (merged h trace os) [0..<?k]))"
    using snoc by (simp add: Let_def a_def b_def m_def)
  note times = take_records_times [of t a b "drop m trace", unfolded up on]
  note times = times [unfolded death_times [OF until n_def [symmetric] a_def b_def le_add1 [of m "length (up_to t (drop m trace))", folded n] le]]
  have "foldR (death_step h) ?os (0, 0, trace, []) =
      death_step h (a, b, drop m trace, concat (map (merged h trace os) [0..<?k])) e"
    using run by (simp add: foldR_append) (simp add: bindR_def split: sum.split)
  also have "\<dots> = Inr (death_record_time h trace ?os ?k, if trace = [] then 0 else get_ET_timestamp (trace ! (if n < ?N then n else ?N - 1)),
      drop n trace, concat (map (merged h trace os) [0..<?k]) @ merged h trace ?os ?k)"
  proof -
    have "merged h trace ?os ?k = drop m (take n trace) @ [Death_Rec (DeathRecord_new i 0 (death_record_time h trace ?os ?k))]"
      by (simp add: merged_def until n_def) (simp add: e)
    moreover have "p < length (obj_cells h)"
      using snoc.prems by (simp add: e)
    moreover note times [of "concat (map (merged h trace os) [0..<?k])"]
    ultimately show ?thesis
      unfolding e by (simp add: death_step_def deref_valid t_def [symmetric] del: if_split)
  qed
  also have "concat (map (merged h trace os) [0..<?k]) = concat (map (merged h trace ?os) [0..<?k])"
    using merged_prefix(4) [of _ os h trace "[e]"] by (intro arg_cong [of _ _ concat] map_cong) simp_all
  finally show ?case
    using records_until_end [of h trace ?os] by (simp add: Let_def len)
qed

text \<open>
  C20: What the merge makes of a trace. It returns the deaths of the objects of the map in the order of
  their identifiers (not of their deaths), each right after the records up to the first that is later
  than the last uses of this object and of all objects before it; records later than the last use of
  every object are lost. A death record has the time of the last record before it only if that one was
  taken for it and a record is left; otherwise it has the wrong times of \<open>death_record_time\<close>.
\<close>
theorem death_records_merged:
  assumes "heap_ok h" and "\<forall>r \<in> set trace. \<not> is_death_record r"
  shows "\<exists>tlist. insert_death_records_into_trace trace h = Inr tlist \<and>
    tlist = concat (map (merged h trace (m_objects h)) [0..<length (m_objects h)]) \<and>
    filter (\<lambda>r. \<not> is_death_record r) tlist = up_to_any (stamps h (m_objects h)) trace \<and>
    map death_of (filter is_death_record tlist) = map fst (m_objects h)"
proof -
  have valid: "\<forall>(i, p) \<in> set (m_objects h). p < length (obj_cells h)"
    using assms(1) by (auto simp: heap_ok_def om_wf_lookup)
  from merge_fold [OF this assms(2), of 0 0 "[]"] merge_exact [OF valid, of trace] show ?thesis
    by (auto simp: insert_death_records_into_trace_def Let_def)
qed

section \<open>What the search computes\<close>

text \<open>The objects of the map, and the references between objects: an edge of a field with a target.\<close>

definition heap_ptrs :: "HeapState \<Rightarrow> obj_ptr set" where
  "heap_ptrs h = snd ` set (m_objects h)"

definition refs :: "HeapState \<Rightarrow> (obj_ptr \<times> obj_ptr) set" where
  "refs h = {(p, q). \<exists>k e d. (k, Some e) \<in> set (m_fields (obj_cells h ! p)) \<and> edge_cells h ! e = Some d \<and> m_target d = Some q}"

text \<open>
  The heaps the search is for: fields are maps, every field owns its edge, and the objects of the map
  refer only to objects of the map.
\<close>

definition merlin_heap :: "HeapState \<Rightarrow> bool" where
  "merlin_heap h \<longleftrightarrow> heap_ok h \<and> edges_owned h \<and> (\<forall>obj \<in> set (obj_cells h). om_wf (m_fields obj)) \<and>
     refs h `` heap_ptrs h \<subseteq> heap_ptrs h"

text \<open>The latest time stamp among the objects from which an object can be reached.\<close>

definition merlin_time :: "HeapState \<Rightarrow> obj_ptr \<Rightarrow> u32" where
  "merlin_time h p = Max {m_last_timestamp (obj_cells h ! q) |q. q \<in> heap_ptrs h \<and> (q, p) \<in> (refs h)\<^sup>*}"

definition settled :: "HeapState \<Rightarrow> obj_ptr \<Rightarrow> Object" where
  "settled h p = setDeathTime (merlin_time h p) (setLastTimestamp (merlin_time h p) (obj_cells h ! p))"

lemma merlin_heapD:
  assumes "merlin_heap h"
  shows "p \<in> heap_ptrs h \<Longrightarrow> p < length (obj_cells h)"
    and "p \<in> heap_ptrs h \<Longrightarrow> (p, q) \<in> refs h \<Longrightarrow> q \<in> heap_ptrs h"
    and "p < length (obj_cells h) \<Longrightarrow> (k, Some e) \<in> set (m_fields (obj_cells h ! p)) \<Longrightarrow> (p, k, e) \<in> field_edges h"
    and "(p, k, e) \<in> field_edges h \<Longrightarrow> e < length (edge_cells h) \<and> (\<exists>d. edge_cells h ! e = Some d)"
    and "(p, k, e) \<in> field_edges h \<Longrightarrow> (p', k', e) \<in> field_edges h \<Longrightarrow> p = p'"
  using assms
      apply (auto simp: merlin_heap_def heap_ok_def heap_ptrs_def om_wf_lookup) [1]
     apply (use assms in \<open>auto simp: merlin_heap_def\<close>) [1]
    apply (use assms in \<open>auto simp: merlin_heap_def field_edges_def om_wf_lookup\<close>) [1]
   apply (use assms in \<open>auto simp: merlin_heap_def edges_owned_def\<close>) [1]
  apply (use assms in \<open>auto simp: merlin_heap_def edges_owned_def\<close>) [1]
  done

lemma finite_heap_ptrs [simp]: "finite (heap_ptrs h)"
  by (simp add: heap_ptrs_def)

lemma merlin_time_le: "q \<in> heap_ptrs h \<Longrightarrow> (q, p) \<in> (refs h)\<^sup>* \<Longrightarrow> m_last_timestamp (obj_cells h ! q) \<le> merlin_time h p"
  unfolding merlin_time_def by (rule Max_ge) auto

lemma merlin_time_mono:
  assumes "p \<in> heap_ptrs h" and "(p, q) \<in> refs h"
  shows "merlin_time h p \<le> merlin_time h q"
  unfolding merlin_time_def
proof (rule Max_mono)
  show "{m_last_timestamp (obj_cells h ! r) |r. r \<in> heap_ptrs h \<and> (r, p) \<in> (refs h)\<^sup>*} \<noteq> {}"
    using assms(1) by blast
qed (use assms(2) in \<open>auto intro: rtrancl_into_rtrancl\<close>)

lemma merlin_time_eq:
  assumes "cur \<in> heap_ptrs h" and "(cur, p) \<in> (refs h)\<^sup>*"
    and "\<And>q. q \<in> heap_ptrs h \<Longrightarrow> (q, p) \<in> (refs h)\<^sup>* \<Longrightarrow> m_last_timestamp (obj_cells h ! q) \<le> m_last_timestamp (obj_cells h ! cur)"
  shows "merlin_time h p = m_last_timestamp (obj_cells h ! cur)"
  unfolding merlin_time_def by (rule Max_eqI) (use assms in auto)

text \<open>What the search changes: time stamps, death times, and end times of edges.\<close>

definition same_shape :: "HeapState \<Rightarrow> HeapState \<Rightarrow> bool" where
  "same_shape h0 h \<longleftrightarrow> h\<lparr>obj_cells := obj_cells h0, edge_cells := edge_cells h0\<rparr> = h0 \<and>
     map m_fields (obj_cells h) = map m_fields (obj_cells h0) \<and>
     map (map_option (setEndTime 0)) (edge_cells h) = map (map_option (setEndTime 0)) (edge_cells h0)"

text \<open>The objects during the search: those of \<open>Y\<close> are settled, those of \<open>S\<close> have their final time stamp.\<close>

definition cells_inv :: "HeapState \<Rightarrow> obj_ptr set \<Rightarrow> obj_ptr set \<Rightarrow> HeapState \<Rightarrow> bool" where
  "cells_inv h0 Y S h \<longleftrightarrow> (\<forall>p < length (obj_cells h0).
     (if p \<in> Y then obj_cells h ! p = settled h0 p
      else if p \<in> S then obj_cells h ! p = settled h0 p \<or>
             obj_cells h ! p = obj_cells h0 ! p \<and> m_last_timestamp (obj_cells h0 ! p) = merlin_time h0 p
      else obj_cells h ! p = obj_cells h0 ! p))"

definition edges_inv :: "HeapState \<Rightarrow> obj_ptr set \<Rightarrow> HeapState \<Rightarrow> bool" where
  "edges_inv h0 Y h \<longleftrightarrow> (\<forall>p k e. (p, k, e) \<in> field_edges h0 \<longrightarrow> p \<in> Y \<longrightarrow>
     map_option m_endTime (edge_cells h ! e) = Some (merlin_time h0 p))"

lemma same_shape_refl [simp]: "same_shape h h"
  by (simp add: same_shape_def)

lemma setters_shape [simp]:
  "m_fields (setDeathTime t obj) = m_fields obj" "m_fields (setLastTimestamp t obj) = m_fields obj"
  "setEndTime s (setEndTime t d) = setEndTime s d" "m_target (setEndTime t d) = m_target d" "m_endTime (setEndTime t d) = t"
  "m_last_timestamp (setDeathTime t obj) = m_last_timestamp obj" "m_last_timestamp (setLastTimestamp t obj) = t"
  "setDeathTime s (setDeathTime t obj) = setDeathTime s obj"
  "setDeathTime s (setLastTimestamp (m_last_timestamp obj) obj) = setDeathTime s obj"
  by (simp_all add: setDeathTime_def setLastTimestamp_def setEndTime_def)

lemma same_shapeD:
  assumes "same_shape h0 h"
  shows "length (obj_cells h) = length (obj_cells h0)" "length (edge_cells h) = length (edge_cells h0)"
    "m_objects h = m_objects h0"
    "p < length (obj_cells h0) \<Longrightarrow> m_fields (obj_cells h ! p) = m_fields (obj_cells h0 ! p)"
    "e < length (edge_cells h0) \<Longrightarrow> map_option (setEndTime 0) (edge_cells h ! e) = map_option (setEndTime 0) (edge_cells h0 ! e)"
proof -
  show len: "length (obj_cells h) = length (obj_cells h0)" "length (edge_cells h) = length (edge_cells h0)"
    using assms unfolding same_shape_def by (metis length_map)+
  have "m_objects (h\<lparr>obj_cells := obj_cells h0, edge_cells := edge_cells h0\<rparr>) = m_objects h0"
    using assms by (simp only: same_shape_def)
  then show "m_objects h = m_objects h0" by simp
  show "p < length (obj_cells h0) \<Longrightarrow> m_fields (obj_cells h ! p) = m_fields (obj_cells h0 ! p)"
    using assms len unfolding same_shape_def by (metis nth_map)
  show "e < length (edge_cells h0) \<Longrightarrow> map_option (setEndTime 0) (edge_cells h ! e) = map_option (setEndTime 0) (edge_cells h0 ! e)"
    using assms len unfolding same_shape_def by (metis nth_map)
qed

lemma same_shape_object:
  assumes "same_shape h0 h" and "\<And>obj. m_fields (f obj) = m_fields obj"
  shows "same_shape h0 (h\<lparr>obj_cells := (obj_cells h)[p := f (obj_cells h ! p)]\<rparr>)"
proof -
  have "map m_fields ((obj_cells h)[p := f (obj_cells h ! p)]) = map m_fields (obj_cells h)"
    by (cases "p < length (obj_cells h)"; rule nth_equalityI) (auto simp: nth_list_update assms(2) not_less list_update_beyond)
  then show ?thesis
    using assms(1) by (simp add: same_shape_def)
qed

lemma same_shape_edge:
  assumes "same_shape h0 h" and "e < length (edge_cells h)" and "edge_cells h ! e = Some d"
  shows "same_shape h0 (h\<lparr>edge_cells := (edge_cells h)[e := Some (setEndTime t d)]\<rparr>)"
proof -
  have "map (map_option (setEndTime 0)) ((edge_cells h)[e := Some (setEndTime t d)]) =
      map (map_option (setEndTime 0)) (edge_cells h)"
    using assms(2,3) by (intro nth_equalityI) (auto simp: nth_list_update)
  then show ?thesis
    using assms(1) by (simp add: same_shape_def)
qed

text \<open>One edge, then all edges of an object that is settled.\<close>

definition target_ready :: "HeapState \<Rightarrow> obj_ptr set \<Rightarrow> obj_ptr \<Rightarrow> bool" where
  "target_ready h0 Y p \<longleftrightarrow> (\<forall>y. (p, y) \<in> refs h0 \<longrightarrow> y \<notin> Y \<longrightarrow>
     m_last_timestamp (obj_cells h0 ! y) \<le> merlin_time h0 p \<and> merlin_time h0 y = merlin_time h0 p)"

lemma cells_inv_weaken:
  "cells_inv h0 Y S h \<Longrightarrow> y < length (obj_cells h0) \<Longrightarrow>
     m_last_timestamp (obj_cells h0 ! y) = merlin_time h0 y \<or> y \<in> Y \<or> y \<in> S \<Longrightarrow> cells_inv h0 Y (insert y S) h"
  unfolding cells_inv_def by (metis insert_iff)

lemma cells_inv_settle:
  "cells_inv h0 Y S h \<Longrightarrow> cells_inv h0 Y (insert y S) (h\<lparr>obj_cells := (obj_cells h)[y := settled h0 y]\<rparr>)"
  if "length (obj_cells h) = length (obj_cells h0)" for h0 h
  using that unfolding cells_inv_def by (intro allI impI, rename_tac p, case_tac "p = y") auto

lemma edge_effect:
  assumes "merlin_heap h0" and shape: "same_shape h0 h" and cells: "cells_inv h0 Y (set stk) h"
    and p: "p \<in> heap_ptrs h0" and e: "(k, Some e) \<in> set (m_fields (obj_cells h0 ! p))"
    and ready: "target_ready h0 (Y \<union> set stk) p"
  shows "\<exists>h' stk'. merlin_edge (merlin_time h0 p) (h, stk) (k, Some e) = Inr (h', stk') \<and> same_shape h0 h' \<and>
    cells_inv h0 Y (set stk') h' \<and> set stk \<subseteq> set stk' \<and> set stk' \<subseteq> set stk \<union> refs h0 `` {p} \<and>
    (\<forall>d y. edge_cells h0 ! e = Some d \<longrightarrow> m_target d = Some y \<longrightarrow> y \<in> set stk') \<and>
    (\<forall>e'. map_option m_endTime (edge_cells h' ! e') =
       (if e' = e then Some (merlin_time h0 p) else map_option m_endTime (edge_cells h ! e')))"
proof -
  define T where "T = merlin_time h0 p"
  note heap = merlin_heapD [OF assms(1)]
  note sh = same_shapeD [OF shape]
  have own: "(p, k, e) \<in> field_edges h0"
    using heap(1) [OF p] heap(3) e by blast
  obtain d0 where d0: "e < length (edge_cells h0)" "edge_cells h0 ! e = Some d0"
    using heap(4) [OF own] by blast
  obtain d where d: "edge_cells h ! e = Some d" "setEndTime 0 d = setEndTime 0 d0"
    using sh(5) [OF d0(1)] d0(2) by auto
  have tgt: "m_target d = m_target d0"
    using d(2) setters_shape(4) by metis
  define h1 where "h1 = h\<lparr>edge_cells := (edge_cells h)[e := Some (setEndTime T d)]\<rparr>"
  have h1: "upd_edge e (setEndTime T) h = Inr h1" "deref_edge h1 e = Inr (setEndTime T d)" "obj_cells h1 = obj_cells h"
    using d0(1) d(1) sh(2) by (simp_all add: upd_edge_def deref_edge_def deref_valid h1_def)
  have shape1: "same_shape h0 h1"
    unfolding h1_def using shape d0(1) d(1) sh(2) by (intro same_shape_edge) auto
  have cells1: "cells_inv h0 Y S h1 \<longleftrightarrow> cells_inv h0 Y S h" for S
    by (simp add: cells_inv_def h1(3))
  have ends: "map_option m_endTime (edge_cells h1 ! e') = (if e' = e then Some T else map_option m_endTime (edge_cells h ! e'))" for e'
    using d0(1) sh(2) by (simp add: h1_def nth_list_update)
  show ?thesis
  proof (cases "m_target d0")
    case None
    have "merlin_edge T (h, stk) (k, Some e) = Inr (h1, stk)"
      using None tgt by (simp add: h1)
    then show ?thesis
      using None d0(2) shape1 cells cells1 ends unfolding T_def by (intro exI [of _ h1] exI [of _ stk]) simp
  next
    case (Some y)
    have py: "(p, y) \<in> refs h0"
      using e d0(2) Some by (auto simp: refs_def)
    have y: "y < length (obj_cells h0)" and mono: "T \<le> merlin_time h0 y"
      using heap(1,2) p py merlin_time_mono [OF p py] by (auto simp: T_def)
    define h2 where "h2 = (if m_last_timestamp (obj_cells h ! y) < T
      then h1\<lparr>obj_cells := (obj_cells h1)[y := setDeathTime T (setLastTimestamp T (obj_cells h1 ! y))]\<rparr> else h1)"
    have run: "merlin_edge T (h, stk) (k, Some e) = Inr (h2, y # stk)"
      using y Some tgt sh(1) by (simp add: h1 deref_valid upd_object_def h2_def)
    have cell: "y \<in> Y \<Longrightarrow> obj_cells h ! y = settled h0 y"
      "y \<notin> Y \<Longrightarrow> y \<in> set stk \<Longrightarrow> obj_cells h ! y = settled h0 y \<or>
         obj_cells h ! y = obj_cells h0 ! y \<and> m_last_timestamp (obj_cells h0 ! y) = merlin_time h0 y"
      "y \<notin> Y \<Longrightarrow> y \<notin> set stk \<Longrightarrow> obj_cells h ! y = obj_cells h0 ! y"
      using cells y unfolding cells_inv_def by metis+
    have stamp: "m_last_timestamp (obj_cells h ! y) = merlin_time h0 y" if "y \<in> Y \<or> y \<in> set stk"
      using cell(1,2) that setters_shape(6,7) unfolding settled_def by metis
    have "cells_inv h0 Y (insert y (set stk)) h2"
    proof (cases "m_last_timestamp (obj_cells h ! y) < T")
      case True
      then have new: "y \<notin> Y" "y \<notin> set stk"
        using stamp mono by auto
      then have "merlin_time h0 y = T"
        using ready py by (simp add: target_ready_def T_def)
      then have "h2 = h1\<lparr>obj_cells := (obj_cells h1)[y := settled h0 y]\<rparr>"
        using True cell(3) [OF new] by (simp add: h2_def h1(3) settled_def)
      then show ?thesis
        using cells_inv_settle [of h1 h0 Y "set stk" y] cells cells1 sh(1) h1(3) by simp
    next
      case False
      have "m_last_timestamp (obj_cells h0 ! y) = merlin_time h0 y \<or> y \<in> Y \<or> y \<in> set stk"
        using False ready py cell(3) by (force simp: target_ready_def T_def)
      then show ?thesis
        using False cells_inv_weaken [OF cells y] cells1 by (simp add: h2_def)
    qed
    moreover have "same_shape h0 h2"
      using shape1 by (auto simp: h2_def intro!: same_shape_object [where f = "\<lambda>obj. setDeathTime T (setLastTimestamp T obj)"])
    moreover have "edge_cells h2 = edge_cells h1"
      by (simp add: h2_def)
    ultimately show ?thesis
      using run py Some d0(2) ends unfolding T_def by (intro exI [of _ h2] exI [of _ "y # stk"]) auto
  qed
qed

lemma target_ready_mono: "target_ready h0 Y p \<Longrightarrow> Y \<subseteq> Y' \<Longrightarrow> target_ready h0 Y' p"
  by (auto simp: target_ready_def)

lemma fields_effect:
  assumes "merlin_heap h0" and "p \<in> heap_ptrs h0" and "set fs \<subseteq> set (m_fields (obj_cells h0 ! p))"
    and "same_shape h0 h" and "cells_inv h0 Y (set stk) h" and "target_ready h0 (Y \<union> set stk) p"
  shows "\<exists>h' stk'. foldR (merlin_edge (merlin_time h0 p)) fs (h, stk) = Inr (h', stk') \<and> same_shape h0 h' \<and>
    cells_inv h0 Y (set stk') h' \<and> set stk \<subseteq> set stk' \<and> set stk' \<subseteq> set stk \<union> refs h0 `` {p} \<and>
    (\<forall>k e d y. (k, Some e) \<in> set fs \<longrightarrow> edge_cells h0 ! e = Some d \<longrightarrow> m_target d = Some y \<longrightarrow> y \<in> set stk') \<and>
    (\<forall>e'. map_option m_endTime (edge_cells h' ! e') =
       (if \<exists>k. (k, Some e') \<in> set fs then Some (merlin_time h0 p) else map_option m_endTime (edge_cells h ! e')))"
  using assms(3-6)
proof (induction fs arbitrary: h stk)
  case Nil
  then show ?case by auto
next
  case (Cons f fs)
  obtain k eo where f: "f = (k, eo)" by (cases f)
  show ?case
  proof (cases eo)
    case None
    have "set fs \<subseteq> set (m_fields (obj_cells h0 ! p))"
      using Cons.prems(1) by simp
    from Cons.IH [OF this Cons.prems(2-4)] show ?thesis
      by (simp add: f None)
  next
    case (Some e)
    have e: "(k, Some e) \<in> set (m_fields (obj_cells h0 ! p))" and fs: "set fs \<subseteq> set (m_fields (obj_cells h0 ! p))"
      using Cons.prems(1) f Some by auto
    obtain h1 stk1 where 1: "merlin_edge (merlin_time h0 p) (h, stk) (k, Some e) = Inr (h1, stk1)" "same_shape h0 h1"
      "cells_inv h0 Y (set stk1) h1" "set stk \<subseteq> set stk1" "set stk1 \<subseteq> set stk \<union> refs h0 `` {p}"
      "\<forall>d y. edge_cells h0 ! e = Some d \<longrightarrow> m_target d = Some y \<longrightarrow> y \<in> set stk1"
      "\<forall>e'. map_option m_endTime (edge_cells h1 ! e') =
         (if e' = e then Some (merlin_time h0 p) else map_option m_endTime (edge_cells h ! e'))"
      using edge_effect [OF assms(1) Cons.prems(2,3) assms(2) e Cons.prems(4)] by blast
    have "target_ready h0 (Y \<union> set stk1) p"
      using target_ready_mono [OF Cons.prems(4)] 1(4) by blast
    from Cons.IH [OF fs 1(2,3) this]
    obtain h2 stk2 where 2: "foldR (merlin_edge (merlin_time h0 p)) fs (h1, stk1) = Inr (h2, stk2)" "same_shape h0 h2"
      "cells_inv h0 Y (set stk2) h2" "set stk1 \<subseteq> set stk2" "set stk2 \<subseteq> set stk1 \<union> refs h0 `` {p}"
      "\<forall>k e d y. (k, Some e) \<in> set fs \<longrightarrow> edge_cells h0 ! e = Some d \<longrightarrow> m_target d = Some y \<longrightarrow> y \<in> set stk2"
      "\<forall>e'. map_option m_endTime (edge_cells h2 ! e') =
         (if \<exists>k. (k, Some e') \<in> set fs then Some (merlin_time h0 p) else map_option m_endTime (edge_cells h1 ! e'))"
      by blast
    have "foldR (merlin_edge (merlin_time h0 p)) (f # fs) (h, stk) = Inr (h2, stk2)"
      using 1(1) 2(1) by (simp add: f Some)
    moreover have "y \<in> set stk2" if "(k', Some e') \<in> set (f # fs)" "edge_cells h0 ! e' = Some d" "m_target d = Some y" for k' e' d y
      using that 1(6) 2(4,6) f Some by auto
    moreover have "map_option m_endTime (edge_cells h2 ! e') =
        (if \<exists>k. (k, Some e') \<in> set (f # fs) then Some (merlin_time h0 p) else map_option m_endTime (edge_cells h ! e'))" for e'
      using 1(7) 2(7) f Some by auto
    ultimately show ?thesis
      using 1(4,5) 2(2-5) by (intro exI [of _ h2] exI [of _ stk2]) blast
  qed
qed

text \<open>A visit, the search from one object, and all searches.\<close>

definition search_inv :: "HeapState \<Rightarrow> obj_ptr set \<Rightarrow> obj_ptr \<Rightarrow> obj_ptr list \<Rightarrow> search \<Rightarrow> bool" where
  "search_inv h0 X cur g0 st \<longleftrightarrow> (let (h, g, L, stk) = st in
     same_shape h0 h \<and> cells_inv h0 (X \<union> L) (set stk) h \<and> edges_inv h0 (X \<union> L) h \<and>
     L \<union> set stk \<subseteq> (refs h0)\<^sup>* `` {cur} \<and> cur \<in> L \<union> set stk \<and> refs h0 `` L \<subseteq> L \<union> set stk \<and>
     g = filter (\<lambda>p. p \<notin> L) g0)"

text \<open>What holds of the objects settled before and of the next root.\<close>

definition root_ok :: "HeapState \<Rightarrow> obj_ptr set \<Rightarrow> obj_ptr \<Rightarrow> obj_ptr list \<Rightarrow> bool" where
  "root_ok h0 X cur g0 \<longleftrightarrow> merlin_heap h0 \<and> cur \<in> heap_ptrs h0 \<and> refs h0 `` X \<subseteq> X \<and> distinct g0 \<and>
     (\<forall>q \<in> heap_ptrs h0 - X. m_last_timestamp (obj_cells h0 ! q) \<le> m_last_timestamp (obj_cells h0 ! cur))"

lemma closed_rtrancl: "r `` X \<subseteq> X \<Longrightarrow> (q, p) \<in> r\<^sup>* \<Longrightarrow> q \<in> X \<Longrightarrow> p \<in> X"
  by (metis Image_closed_trancl ImageI)

lemma reachable_objects:
  assumes "root_ok h0 X cur g0" and "(cur, p) \<in> (refs h0)\<^sup>*"
  shows "p \<in> heap_ptrs h0" and "p \<notin> X \<Longrightarrow> merlin_time h0 p = m_last_timestamp (obj_cells h0 ! cur)"
proof -
  have heap: "merlin_heap h0" "cur \<in> heap_ptrs h0"
    using assms(1) by (auto simp: root_ok_def)
  then have "refs h0 `` heap_ptrs h0 \<subseteq> heap_ptrs h0"
    by (simp add: merlin_heap_def)
  from closed_rtrancl [OF this assms(2) heap(2)] show "p \<in> heap_ptrs h0" .
  assume p: "p \<notin> X"
  have "refs h0 `` X \<subseteq> X"
    using assms(1) by (simp add: root_ok_def)
  then have "q \<notin> X" if "(q, p) \<in> (refs h0)\<^sup>*" for q
    using closed_rtrancl that p by fast
  then show "merlin_time h0 p = m_last_timestamp (obj_cells h0 ! cur)"
    using assms by (intro merlin_time_eq) (auto simp: root_ok_def)
qed

lemma reachable_ready:
  assumes "root_ok h0 X cur g0" and "(cur, p) \<in> (refs h0)\<^sup>*" and "X \<subseteq> Y"
  shows "target_ready h0 Y p"
  unfolding target_ready_def
proof (intro allI impI)
  fix y
  assume y: "(p, y) \<in> refs h0" "y \<notin> Y"
  have cur_y: "(cur, y) \<in> (refs h0)\<^sup>*" and "y \<notin> X" and "p \<notin> X"
    using assms y by (auto simp: root_ok_def intro: rtrancl_into_rtrancl)
  then show "m_last_timestamp (obj_cells h0 ! y) \<le> merlin_time h0 p \<and> merlin_time h0 y = merlin_time h0 p"
    using reachable_objects [OF assms(1) cur_y] reachable_objects(2) [OF assms(1,2)] assms(1)
    by (auto simp: root_ok_def)
qed

lemma remove1_filter: "distinct xs \<Longrightarrow> remove1 p (filter (\<lambda>q. q \<notin> L) xs) = filter (\<lambda>q. q \<notin> insert p L) xs"
  by (induction xs) (auto simp: remove1_idem)

lemma visit_effect:
  assumes root: "root_ok h0 X cur g0" and inv: "search_inv h0 X cur g0 (h, g, L, p # stk)"
  shows "\<exists>st. merlin_visit p (h, g, L, stk) = Inr st \<and> search_inv h0 X cur g0 st"
proof -
  have heap: "merlin_heap h0" and X: "refs h0 `` X \<subseteq> X" and dist: "distinct g0"
    using root by (auto simp: root_ok_def)
  have shape: "same_shape h0 h" and cells: "cells_inv h0 (X \<union> L) (insert p (set stk)) h" and edges: "edges_inv h0 (X \<union> L) h"
    and reach: "insert p (L \<union> set stk) \<subseteq> (refs h0)\<^sup>* `` {cur}" and cur: "cur \<in> insert p (L \<union> set stk)"
    and closed: "refs h0 `` L \<subseteq> insert p (L \<union> set stk)" and g: "g = filter (\<lambda>p. p \<notin> L) g0"
    using inv by (auto simp: search_inv_def)
  have cur_p: "(cur, p) \<in> (refs h0)\<^sup>*" and p: "p \<in> heap_ptrs h0"
    using reach reachable_objects(1) [OF root] by auto
  have len: "p < length (obj_cells h0)"
    using merlin_heapD(1) [OF heap p] .
  note sh = same_shapeD [OF shape]
  define T where "T = merlin_time h0 p"
  have "obj_cells h ! p = settled h0 p \<or>
      obj_cells h ! p = obj_cells h0 ! p \<and> m_last_timestamp (obj_cells h0 ! p) = T"
    using cells len unfolding cells_inv_def T_def by (metis insertI1)
  then have stamp: "m_last_timestamp (obj_cells h ! p) = T" and set_p: "setDeathTime T (obj_cells h ! p) = settled h0 p"
    using setters_shape(6-9) unfolding settled_def T_def by metis+
  define h1 where "h1 = h\<lparr>obj_cells := (obj_cells h)[p := setDeathTime T (obj_cells h ! p)]\<rparr>"
  have shape1: "same_shape h0 h1"
    unfolding h1_def by (rule same_shape_object [OF shape]) simp
  have cells1: "cells_inv h0 (X \<union> insert p L) (set stk) h1"
    using cells len sh(1) unfolding cells_inv_def h1_def set_p by (auto simp: nth_list_update)
  have visit: "merlin_visit p (h, g, L, stk) =
    (if p \<in> L then Inr (h1, remove1 p g, L, stk)
     else bindR (foldR (merlin_edge T) (m_fields (obj_cells h0 ! p)) (h1, stk)) (\<lambda>(h, mystack).
          Inr (h, remove1 p g, insert p L, mystack)))"
    using len sh(1) sh(4) [OF len] by (simp add: merlin_visit_def deref_valid upd_object_def stamp h1_def Let_def)
  have g1: "remove1 p g = filter (\<lambda>q. q \<notin> insert p L) g0"
    using remove1_filter [OF dist] g by simp
  show ?thesis
  proof (cases "p \<in> L")
    case True
    then have "search_inv h0 X cur g0 (h1, remove1 p g, L, stk)"
      using shape1 cells1 edges reach cur closed g1 by (simp add: search_inv_def insert_absorb h1_def edges_inv_def)
    with True visit show ?thesis by simp
  next
    case False
    have ready: "target_ready h0 (X \<union> insert p L \<union> set stk) p"
      by (rule reachable_ready [OF root cur_p]) auto
    obtain h2 stk2 where 2: "foldR (merlin_edge T) (m_fields (obj_cells h0 ! p)) (h1, stk) = Inr (h2, stk2)" "same_shape h0 h2"
      "cells_inv h0 (X \<union> insert p L) (set stk2) h2" "set stk \<subseteq> set stk2" "set stk2 \<subseteq> set stk \<union> refs h0 `` {p}"
      "\<forall>k e d y. (k, Some e) \<in> set (m_fields (obj_cells h0 ! p)) \<longrightarrow> edge_cells h0 ! e = Some d \<longrightarrow> m_target d = Some y \<longrightarrow> y \<in> set stk2"
      "\<forall>e'. map_option m_endTime (edge_cells h2 ! e') =
         (if \<exists>k. (k, Some e') \<in> set (m_fields (obj_cells h0 ! p)) then Some T else map_option m_endTime (edge_cells h1 ! e'))"
      unfolding T_def using fields_effect [OF heap p subset_refl shape1 cells1 ready] by blast
    have "edges_inv h0 (X \<union> insert p L) h2"
      unfolding edges_inv_def
    proof (intro allI impI)
      fix q k e
      assume qe: "(q, k, e) \<in> field_edges h0" "q \<in> X \<union> insert p L"
      show "map_option m_endTime (edge_cells h2 ! e) = Some (merlin_time h0 q)"
      proof (cases "\<exists>k. (k, Some e) \<in> set (m_fields (obj_cells h0 ! p))")
        case True
        then have "p = q"
          using merlin_heapD(3,5) [OF heap] len qe(1) by metis
        with True 2(7) show ?thesis by (simp add: T_def)
      next
        case other: False
        then have "q \<noteq> p"
          using qe(1) heap len by (auto simp: field_edges_def merlin_heap_def om_wf_lookup)
        with other qe edges 2(7) show ?thesis by (auto simp: edges_inv_def h1_def)
      qed
    qed
    moreover have "refs h0 `` insert p L \<subseteq> insert p L \<union> set stk2"
    proof -
      have "refs h0 `` {p} \<subseteq> set stk2"
        using 2(6) by (auto simp: refs_def)
      with closed 2(4) show ?thesis by blast
    qed
    moreover have "insert p L \<union> set stk2 \<subseteq> (refs h0)\<^sup>* `` {cur}"
      using reach 2(5) cur_p by (auto intro: rtrancl_into_rtrancl)
    moreover have "cur \<in> insert p L \<union> set stk2"
      using cur 2(4) by auto
    ultimately have "search_inv h0 X cur g0 (h2, remove1 p g, insert p L, stk2)"
      using 2(2,3) g1 by (simp add: search_inv_def)
    with False visit 2(1) show ?thesis by simp
  qed
qed

lemma search_effect:
  assumes "root_ok h0 X cur g0" and "search_inv h0 X cur g0 st"
  shows "\<exists>h. merlin_search st = Inr (h, filter (\<lambda>p. p \<notin> (refs h0)\<^sup>* `` {cur}) g0) \<and> same_shape h0 h \<and>
    cells_inv h0 (X \<union> (refs h0)\<^sup>* `` {cur}) {} h \<and> edges_inv h0 (X \<union> (refs h0)\<^sup>* `` {cur}) h"
  using assms(2)
proof (induction st rule: merlin_search.induct)
  case (1 h garbage labeled)
  then have L: "labeled \<subseteq> (refs h0)\<^sup>* `` {cur}" "cur \<in> labeled" "refs h0 `` labeled \<subseteq> labeled"
    by (auto simp: search_inv_def)
  have "(refs h0)\<^sup>* `` {cur} \<subseteq> labeled"
    using closed_rtrancl [OF L(3) _ L(2)] by blast
  with L(1) have "labeled = (refs h0)\<^sup>* `` {cur}"
    by (rule subset_antisym)
  with 1 show ?case
    by (auto simp: search_inv_def merlin_search.simps)
next
  case (2 h garbage labeled objtmp mystack)
  from visit_effect [OF assms(1) 2(2)]
  obtain st where st: "merlin_visit objtmp (h, garbage, labeled, mystack) = Inr st" "search_inv h0 X cur g0 st"
    by blast
  from 2(1) [OF st] st(1) show ?case
    by (simp add: merlin_search.simps)
qed

lemma insert_returns:
  assumes "\<forall>(i, p) \<in> set (m_objects h). p < length (obj_cells h)"
  shows "\<exists>out. insert_death_records_into_trace trace h = Inr out"
proof -
  have "\<exists>m'. foldR (death_step h) os m = Inr m'" if "set os \<subseteq> set (m_objects h)" for os m
    using that
  proof (induction os arbitrary: m)
    case (Cons e os)
    then have "snd e < length (obj_cells h)"
      using assms by auto
    moreover obtain a b c d where m: "m = (a, b, c, d)"
      by (cases m)
    moreover obtain a' b' where "take_records (m_last_timestamp (obj_cells h ! snd e)) a b c d =
        (a', b', from_on (m_last_timestamp (obj_cells h ! snd e)) c, d @ up_to (m_last_timestamp (obj_cells h ! snd e)) c)"
      using take_records_split by blast
    ultimately obtain m1 where "death_step h m e = Inr m1"
      by (cases e) (simp add: death_step_def deref_valid)
    with Cons show ?case by simp
  qed (simp del: split_paired_Ex)
  then obtain m' where "foldR (death_step h) (m_objects h) (0, 0, trace, []) = Inr m'" by blast
  then show ?thesis
    by (cases m') (simp add: insert_death_records_into_trace_def)
qed

lemma search_inv_start:
  assumes "same_shape h0 h" and "cells_inv h0 X {} h" and "edges_inv h0 X h"
    and "m_last_timestamp (obj_cells h0 ! cur) = merlin_time h0 cur"
  shows "search_inv h0 X cur g0 (h, g0, {}, [cur])"
  using assms(1-3) cells_inv_weaken [OF assms(2), of cur] assms(4)
  by (cases "cur < length (obj_cells h0)") (auto simp: search_inv_def cells_inv_def)

lemma rounds_effect:
  assumes "merlin_heap h0" and "same_shape h0 h" and "X = heap_ptrs h0 - set g"
    and "cells_inv h0 X {} h" and "edges_inv h0 X h" and "refs h0 `` X \<subseteq> X"
    and "sorted_wrt (\<lambda>x y. m_last_timestamp (obj_cells h0 ! y) \<le> m_last_timestamp (obj_cells h0 ! x)) g"
    and "distinct g" and "set g \<subseteq> heap_ptrs h0"
  shows "\<exists>h'. merlin_rounds h g = Inr h' \<and> same_shape h0 h' \<and> cells_inv h0 (heap_ptrs h0) {} h' \<and>
    edges_inv h0 (heap_ptrs h0) h'"
  using assms(2-)
proof (induction "length g" arbitrary: h X g rule: less_induct)
  case less
  show ?case
  proof (cases g)
    case Nil
    with less.prems show ?thesis by auto
  next
    case (Cons cur g0)
    define R where "R = (refs h0)\<^sup>* `` {cur}"
    define g1 where "g1 = filter (\<lambda>p. p \<notin> R) g0"
    have root: "root_ok h0 X cur g0"
      using assms(1) less.prems unfolding root_ok_def Cons by auto
    have R: "R \<subseteq> heap_ptrs h0" "refs h0 `` R \<subseteq> R"
      using reachable_objects(1) [OF root] by (auto simp: R_def intro: rtrancl_into_rtrancl)
    have "cur \<notin> X"
      using less.prems(2) Cons by simp
    then have "m_last_timestamp (obj_cells h0 ! cur) = merlin_time h0 cur"
      using reachable_objects(2) [OF root, of cur] by simp
    from search_effect [OF root search_inv_start [OF less.prems(1,3,4) this]]
    obtain h1 where 1: "merlin_search (h, g0, {}, [cur]) = Inr (h1, g1)" "same_shape h0 h1"
        "cells_inv h0 (X \<union> R) {} h1" "edges_inv h0 (X \<union> R) h1"
      unfolding R_def g1_def by blast
    have X1: "X \<union> R = heap_ptrs h0 - set g1"
      using less.prems(2,8) R(1) unfolding Cons g1_def by (auto simp: R_def)
    have "\<exists>h'. merlin_rounds h1 g1 = Inr h' \<and> same_shape h0 h' \<and> cells_inv h0 (heap_ptrs h0) {} h' \<and>
        edges_inv h0 (heap_ptrs h0) h'"
    proof (rule less.hyps [OF _ 1(2) X1 1(3,4)])
      show "length g1 < length g"
        by (simp add: Cons g1_def le_imp_less_Suc)
      show "refs h0 `` (X \<union> R) \<subseteq> X \<union> R"
        using less.prems(5) R(2) by blast
    qed (use less.prems Cons in \<open>auto simp: g1_def intro: sorted_wrt_filter\<close>)
    then show ?thesis
      by (simp add: Cons 1(1))
  qed
qed

lemma apply_merlin_effect:
  assumes "sorting std_sort" and "merlin_heap h"
  shows "\<exists>h'. apply_merlin std_sort trace h = Inr h' \<and> same_shape h h' \<and> cells_inv h (heap_ptrs h) {} h' \<and>
    edges_inv h (heap_ptrs h) h'"
proof -
  define g where "g = std_sort (\<lambda>l r. m_last_timestamp (obj_cells h ! r) < m_last_timestamp (obj_cells h ! l)) (map snd (m_objects h))"
  have ok: "heap_ok h"
    using assms(2) by (simp add: merlin_heap_def)
  have perm: "mset g = mset (map snd (m_objects h))"
    and sorted: "sorted_wrt (\<lambda>x y. m_last_timestamp (obj_cells h ! y) \<le> m_last_timestamp (obj_cells h ! x)) g"
    unfolding g_def using sorting.by_key [OF assms(1), of "\<lambda>p. m_last_timestamp (obj_cells h ! p)" "map snd (m_objects h)"] by auto
  have set_g: "set g = heap_ptrs h"
    using mset_eq_setD [OF perm] by (simp add: heap_ptrs_def)
  have distinct: "distinct g"
    using mset_eq_imp_distinct_iff [OF perm] object_pointers_distinct [OF ok] by simp
  obtain h' where h': "merlin_rounds h g = Inr h'" "same_shape h h'" "cells_inv h (heap_ptrs h) {} h'" "edges_inv h (heap_ptrs h) h'"
    using rounds_effect [OF assms(2) same_shape_refl, of "{}" g] set_g distinct sorted
    by (auto simp: cells_inv_def edges_inv_def)
  have "verify_garbage_order h g = Inr True"
    using verify_garbage_order_true merlin_heapD(1) [OF assms(2)] set_g by simp
  moreover have "\<exists>out. insert_death_records_into_trace trace h' = Inr out"
  proof -
    have "\<forall>(i, p) \<in> set (m_objects h'). p < length (obj_cells h')"
      using ok same_shapeD(1,3) [OF h'(2)] by (auto simp: heap_ok_def om_wf_lookup)
    from insert_returns [OF this] show ?thesis .
  qed
  ultimately have "apply_merlin std_sort trace h = Inr h'"
    using h'(1) by (auto simp: apply_merlin_def g_def [symmetric])
  with h'(2-) show ?thesis by blast
qed

lemma merlin_run:
  assumes "sorting std_sort" and "merlin_heap h"
  shows "\<exists>h'. apply_merlin std_sort trace h = Inr h' \<and> m_objects h' = m_objects h \<and>
    (\<forall>p < length (obj_cells h). obj_cells h' ! p =
       (if p \<in> heap_ptrs h then setDeathTime (merlin_time h p) (setLastTimestamp (merlin_time h p) (obj_cells h ! p))
        else obj_cells h ! p)) \<and>
    (\<forall>p k e. (p, k, e) \<in> field_edges h \<longrightarrow> p \<in> heap_ptrs h \<longrightarrow>
       map_option m_endTime (edge_cells h' ! e) = Some (merlin_time h p))"
proof -
  obtain h' where h': "apply_merlin std_sort trace h = Inr h'" "same_shape h h'" "cells_inv h (heap_ptrs h) {} h'"
      "edges_inv h (heap_ptrs h) h'"
    using apply_merlin_effect [OF assms] by blast
  then show ?thesis
    using same_shapeD(3) [OF h'(2)] by (auto simp: cells_inv_def edges_inv_def settled_def)
qed

text \<open>
  C1: The search computes death times. On a heap whose fields own their edges and whose objects
  refer to objects of the map only, and for any \<open>std::sort\<close>, \<open>apply_merlin\<close> returns; every object of
  the map then has as last time stamp and as death time the latest time stamp among the objects
  from which it can be reached, every edge out of it ends at that time, and nothing else changes.
\<close>
theorem merlin_death_times:
  assumes "sorting std_sort" and "merlin_heap h"
  shows "\<exists>h'. apply_merlin std_sort trace h = Inr h' \<and> m_objects h' = m_objects h \<and>
    (\<forall>p < length (obj_cells h). obj_cells h' ! p =
       (if p \<in> heap_ptrs h then setDeathTime (merlin_time h p) (setLastTimestamp (merlin_time h p) (obj_cells h ! p))
        else obj_cells h ! p)) \<and>
    (\<forall>p k e. (p, k, e) \<in> field_edges h \<longrightarrow> p \<in> heap_ptrs h \<longrightarrow>
       map_option m_endTime (edge_cells h' ! e) = Some (merlin_time h p))"
  by (rule merlin_run [OF assms])

text \<open>A heap of four objects: 1 and 2 refer to each other, 2 refers to 3, and 4 to 3.\<close>

definition demo_object :: "u32 \<Rightarrow> u32 \<Rightarrow> (u32, edge_ptr option) omap \<Rightarrow> Object" where
  "demo_object i t fs =
     (Object_new i 8 CHR ''N'' ''T'' None ''NONAME'' ''NONAME'' 1 None 0 True 0)\<lparr>m_fields := fs, m_last_timestamp := t\<rparr>"

definition demo_graph :: HeapState where
  "demo_graph = HeapState_init
     \<lparr>obj_cells := [demo_object 1 5 [(0, Some 0)], demo_object 2 9 [(0, Some 1), (1, Some 2), (2, None)],
                    demo_object 3 2 [], demo_object 4 7 [(3, Some 3)]],
      m_objects := [(1, 0), (2, 1), (3, 2), (4, 3)], m_liveset := {0, 1, 2, 3},
      edge_cells := map Some [Edge_new (Some 0) 0 (Some 1) 1, Edge_new (Some 1) 0 (Some 0) 1,
                              Edge_new (Some 1) 1 (Some 2) 1, Edge_new (Some 3) 3 (Some 2) 1]\<rparr>"

lemma demo_graph_parts [simp]:
  "m_fields (demo_object i t fs) = fs" "m_id_o (demo_object i t fs) = i"
  "m_target (Edge_new s k y t) = y" "map_of (m_objects demo_graph) = [1 \<mapsto> 0, 2 \<mapsto> 1, 3 \<mapsto> 2, 4 \<mapsto> 3]"
  "heap_ptrs demo_graph = {0, 1, 2, 3}" "length (obj_cells demo_graph) = 4" "length (edge_cells demo_graph) = 4"
  by (auto simp: demo_object_def Edge_new_def Object_new_def demo_graph_def heap_ptrs_def)

lemma demo_graph_fields:
  "p < 4 \<Longrightarrow> (k, Some e) \<in> set (m_fields (obj_cells demo_graph ! p)) \<Longrightarrow> (p, k, e) \<in> {(0, 0, 0), (1, 0, 1), (1, 1, 2), (3, 3, 3)}"
  by (auto simp: demo_graph_def less_Suc_eq numeral_eq_Suc)

lemma demo_graph_edges: "e < 4 \<Longrightarrow> \<exists>d. edge_cells demo_graph ! e = Some d \<and> m_target d \<in> {Some 0, Some 1, Some 2}"
  by (auto simp: demo_graph_def less_Suc_eq numeral_eq_Suc)

lemma demo_graph_ok: "merlin_heap demo_graph"
proof -
  have "heap_ok demo_graph"
    by (auto simp: heap_ok_def om_wf_def split: if_splits) (auto simp: demo_graph_def)
  moreover have wf: "\<forall>obj \<in> set (obj_cells demo_graph). om_wf (m_fields obj)"
    by (auto simp: demo_graph_def om_wf_def)
  moreover have "edges_owned demo_graph"
  proof -
    have fields: "(p, k, e) \<in> field_edges demo_graph \<Longrightarrow> (p, k, e) \<in> {(0, 0, 0), (1, 0, 1), (1, 1, 2), (3, 3, 3)}" for p k e
      using demo_graph_fields [of p k e] by (auto simp: field_edges_def dest: map_of_SomeD)
    have "edge_cells demo_graph ! e \<noteq> None" if "e < 4" for e
      using demo_graph_edges [OF that] by auto
    then show ?thesis
      unfolding edges_owned_def by (auto dest!: fields)
  qed
  moreover have "q \<in> {0, 1, 2, 3}" if "p \<in> {0, 1, 2, 3}" "(p, q) \<in> refs demo_graph" for p q
  proof -
    obtain k e d where e: "(k, Some e) \<in> set (m_fields (obj_cells demo_graph ! p))" "edge_cells demo_graph ! e = Some d" "m_target d = Some q"
      using \<open>(p, q) \<in> refs demo_graph\<close> unfolding refs_def by blast
    have "e < 4"
      using demo_graph_fields [OF _ e(1)] \<open>p \<in> {0, 1, 2, 3}\<close> by auto
    with demo_graph_edges [OF this] e(2,3) show ?thesis by auto
  qed
  ultimately show ?thesis by (auto simp: merlin_heap_def)
qed

lemma merlin_death_times_witness:
  "(\<exists>h'. apply_merlin sort_by [] demo_graph = Inr h' \<and> m_objects h' = m_objects demo_graph \<and>
     obj_cells h' ! 2 = setDeathTime (merlin_time demo_graph 2) (setLastTimestamp (merlin_time demo_graph 2) (obj_cells demo_graph ! 2))) \<and>
   map_sum id (\<lambda>h. map m_deathTime (obj_cells h)) (apply_merlin sort_by [] demo_graph) = Inr [9, 9, 9, 7]"
proof
  show "\<exists>h'. apply_merlin sort_by [] demo_graph = Inr h' \<and> m_objects h' = m_objects demo_graph \<and>
     obj_cells h' ! 2 = setDeathTime (merlin_time demo_graph 2) (setLastTimestamp (merlin_time demo_graph 2) (obj_cells demo_graph ! 2))"
  proof -
    have "2 < length (obj_cells demo_graph)" "2 \<in> heap_ptrs demo_graph"
      by (simp_all add: demo_graph_def heap_ptrs_def)
    with merlin_death_times [OF insertion.sorting_axioms demo_graph_ok, of "[]"] show ?thesis
      by auto
  qed
qed code_simp

text \<open>
  C19: What an object refers to outlives it. After \<open>apply_merlin\<close> on such a heap the death time of an
  object is never later than that of any object that one of its fields refers to, directly or
  over other objects, and objects that refer to each other die at the same time.
\<close>
theorem referents_outlive:
  assumes "sorting std_sort" and "merlin_heap h" and "apply_merlin std_sort trace h = Inr h'"
    and "p \<in> heap_ptrs h" and "(p, q) \<in> (refs h)\<^sup>*"
  shows "m_deathTime (obj_cells h' ! p) \<le> m_deathTime (obj_cells h' ! q) \<and>
    ((q, p) \<in> (refs h)\<^sup>* \<longrightarrow> m_deathTime (obj_cells h' ! p) = m_deathTime (obj_cells h' ! q))"
proof -
  have closed: "refs h `` heap_ptrs h \<subseteq> heap_ptrs h"
    using assms(2) by (simp add: merlin_heap_def)
  then have q: "q \<in> heap_ptrs h"
    by (rule closed_rtrancl [OF _ assms(5,4)])
  have death: "m_deathTime (obj_cells h' ! r) = merlin_time h r" if "r \<in> heap_ptrs h" for r
    using apply_merlin_effect [OF assms(1,2), of trace] assms(3) that merlin_heapD(1) [OF assms(2) that]
    by (auto simp: cells_inv_def settled_def setDeathTime_def)
  have "merlin_time h p \<le> merlin_time h q" if "(p, q) \<in> (refs h)\<^sup>*" "p \<in> heap_ptrs h" for p q
    using that
  proof (induction rule: rtrancl_induct)
    case (step y z)
    then have "y \<in> heap_ptrs h"
      using closed_rtrancl [OF closed step(1)] by blast
    with step merlin_time_mono show ?case
      by (blast intro: order.trans)
  qed simp
  then show ?thesis
    using assms(4,5) q death by (auto intro: antisym)
qed

lemma refsI:
  "(k, Some e) \<in> set (m_fields (obj_cells h ! p)) \<Longrightarrow> edge_cells h ! e = Some d \<Longrightarrow> m_target d = Some q \<Longrightarrow> (p, q) \<in> refs h"
  by (auto simp: refs_def)

lemma referents_outlive_witness:
  "\<exists>h'. apply_merlin sort_by [] demo_graph = Inr h' \<and>
     m_deathTime (obj_cells h' ! 0) \<le> m_deathTime (obj_cells h' ! 2) \<and> m_deathTime (obj_cells h' ! 0) = m_deathTime (obj_cells h' ! 1)"
proof -
  obtain h' where h': "apply_merlin sort_by [] demo_graph = Inr h'"
    using apply_merlin_effect [OF insertion.sorting_axioms demo_graph_ok] by blast
  have "(0, 1) \<in> refs demo_graph" "(1, 0) \<in> refs demo_graph" "(1, 2) \<in> refs demo_graph"
    using refsI [where h = demo_graph and p = 0 and k = 0 and e = 0] refsI [where h = demo_graph and p = 1 and k = 0 and e = 1]
      refsI [where h = demo_graph and p = 1 and k = 1 and e = 2] by (simp_all add: demo_graph_def)
  then have "(0, 2) \<in> (refs demo_graph)\<^sup>*" "(0, 1) \<in> (refs demo_graph)\<^sup>*" "(1, 0) \<in> (refs demo_graph)\<^sup>*"
    by (auto intro: converse_rtrancl_into_rtrancl)
  with referents_outlive [OF insertion.sorting_axioms demo_graph_ok h', of 0 2]
    referents_outlive [OF insertion.sorting_axioms demo_graph_ok h', of 0 1] h' show ?thesis
    by (intro exI [of _ h']) simp
qed

text \<open>A trace of three records, and two objects last used at times 4 and 2.\<close>

definition demo_records :: "TraceRecord list" where
  "demo_records = [Exit_Rec (ExitRecord_new 1 1 2), Exit_Rec (ExitRecord_new 1 1 4), Exit_Rec (ExitRecord_new 1 1 6)]"

definition demo_deaths :: HeapState where
  "demo_deaths = HeapState_init\<lparr>obj_cells := [demo_object 7 4 [], demo_object 8 2 []], m_objects := [(7, 0), (8, 1)], m_liveset := {0, 1}\<rparr>"

lemma death_records_merged_witness:
  "(\<exists>tlist. insert_death_records_into_trace demo_records demo_deaths = Inr tlist \<and>
     filter (\<lambda>r. \<not> is_death_record r) tlist = up_to_any {4, 2} demo_records) \<and>
   map_sum id (map (\<lambda>r. (getRecordType r, get_ET_timestamp r))) (insert_death_records_into_trace demo_records demo_deaths) =
     Inr [(CHR ''E'', 2), (CHR ''E'', 4), (CHR ''D'', 4), (CHR ''D'', 6)]"
proof
  have "heap_ok demo_deaths"
    by (auto simp: heap_ok_def demo_deaths_def om_wf_def less_Suc_eq split: if_splits)
  moreover have "\<forall>r \<in> set demo_records. \<not> is_death_record r"
    by (simp add: demo_records_def is_death_record_def)
  moreover have "stamps demo_deaths (m_objects demo_deaths) = {4, 2}"
    by (simp add: stamps_def demo_deaths_def demo_object_def)
  ultimately show "\<exists>tlist. insert_death_records_into_trace demo_records demo_deaths = Inr tlist \<and>
     filter (\<lambda>r. \<not> is_death_record r) tlist = up_to_any {4, 2} demo_records"
    using death_records_merged [of demo_deaths demo_records] by auto
qed code_simp

end
