(* ===== verification/Merlin_Graph.thy ===== *)
theory Merlin_Graph
  imports Merlin
begin

text \<open>
  What the Merlin pass computes, said without a heap. A graph of objects is built by the operations of the
  heap that the reader and the pass use (\<open>allocate\<close>, \<open>make_edge\<close> with \<open>updateField\<close>, \<open>setLastTimestamp\<close>); the
  abstract graph has a stamp for every object and a target for every field. After \<open>apply_merlin\<close> the death
  time of an object is the latest stamp of the objects that lead to it in the abstract graph.
\<close>

section \<open>Building a graph\<close>

text \<open>A new object that is stamped, a field that is set to an object, an object that is stamped again.\<close>

datatype mutation =
    Create u32 u32
  | Assign u32 u32 u32 u32
  | Touch u32 u32

text \<open>The operations of the heap, as the handlers of the reader compose them.\<close>

definition create_object :: "ClassInfo \<Rightarrow> u32 \<Rightarrow> u32 \<Rightarrow> HeapState \<Rightarrow> HeapState result" where
  "create_object ci i t h =
     bindR (assertR (getObject h i = None)) (\<lambda>_.
     bindR (allocate ci i 4 CHR ''N'' [] None [] 1 None True t h) (\<lambda>(p, h).
     upd_object p (setLastTimestamp t) h))"

definition assign_field :: "u32 \<Rightarrow> u32 \<Rightarrow> u32 \<Rightarrow> u32 \<Rightarrow> HeapState \<Rightarrow> HeapState result" where
  "assign_field i k j t h =
     (case (getObject h i, getObject h j) of
        (Some obj, Some target) \<Rightarrow>
          (let (new_edge, h) = make_edge (Some obj) k (Some target) t h in updateField obj (Some new_edge) k h)
      | _ \<Rightarrow> Inl Assertion_Failed)"

definition touch_object :: "u32 \<Rightarrow> u32 \<Rightarrow> HeapState \<Rightarrow> HeapState result" where
  "touch_object i t h =
     (case getObject h i of
        None \<Rightarrow> Inl Assertion_Failed
      | Some p \<Rightarrow> upd_object p (setLastTimestamp t) h)"

fun mutate :: "ClassInfo \<Rightarrow> HeapState \<Rightarrow> mutation \<Rightarrow> HeapState result" where
  "mutate ci h (Create i t) = create_object ci i t h"
| "mutate ci h (Assign i k j t) = assign_field i k j t h"
| "mutate ci h (Touch i t) = touch_object i t h"

section \<open>The abstract graph\<close>

record Graph =
  stamps_of :: "u32 \<Rightarrow> u32 option"
  link :: "u32 \<Rightarrow> u32 \<Rightarrow> u32 option"

definition empty_graph :: Graph where
  "empty_graph = \<lparr>stamps_of = (\<lambda>_. None), link = (\<lambda>_ _. None)\<rparr>"

fun possible :: "Graph \<Rightarrow> mutation \<Rightarrow> bool" where
  "possible g (Create i t) \<longleftrightarrow> stamps_of g i = None"
| "possible g (Assign i k j t) \<longleftrightarrow> stamps_of g i \<noteq> None \<and> stamps_of g j \<noteq> None"
| "possible g (Touch i t) \<longleftrightarrow> stamps_of g i \<noteq> None"

fun change :: "mutation \<Rightarrow> Graph \<Rightarrow> Graph" where
  "change (Create i t) g = g\<lparr>stamps_of := (stamps_of g)(i \<mapsto> t)\<rparr>"
| "change (Assign i k j t) g = g\<lparr>link := (link g)(i := (link g i)(k \<mapsto> j))\<rparr>"
| "change (Touch i t) g = g\<lparr>stamps_of := (stamps_of g)(i \<mapsto> t)\<rparr>"

fun all_possible :: "Graph \<Rightarrow> mutation list \<Rightarrow> bool" where
  "all_possible g [] = True"
| "all_possible g (m # ms) = (possible g m \<and> all_possible (change m g) ms)"

definition leads :: "Graph \<Rightarrow> (u32 \<times> u32) set" where
  "leads g = {(i, j). \<exists>k. link g i k = Some j}"

text \<open>The latest stamp of the objects that lead to one.\<close>

definition graph_time :: "Graph \<Rightarrow> u32 \<Rightarrow> u32" where
  "graph_time g i = Max {t. \<exists>j. stamps_of g j = Some t \<and> (j, i) \<in> (leads g)\<^sup>*}"

section \<open>The heap represents the graph\<close>

definition field_target :: "HeapState \<Rightarrow> obj_ptr \<Rightarrow> u32 \<Rightarrow> obj_ptr option" where
  "field_target h p k =
     (case map_of (m_fields (obj_cells h ! p)) k of
        Some (Some e) \<Rightarrow> Option.bind (edge_cells h ! e) m_target
      | _ \<Rightarrow> None)"

definition represents :: "HeapState \<Rightarrow> Graph \<Rightarrow> bool" where
  "represents h g \<longleftrightarrow> heap_ok h \<and> edges_owned h \<and> (\<forall>obj \<in> set (obj_cells h). om_wf (m_fields obj)) \<and>
     (\<forall>i. stamps_of g i = map_option (\<lambda>p. m_last_timestamp (obj_cells h ! p)) (getObject h i)) \<and>
     (\<forall>i k. case getObject h i of
        None \<Rightarrow> link g i k = None
      | Some p \<Rightarrow> (case link g i k of
            None \<Rightarrow> field_target h p k = None
          | Some j \<Rightarrow> getObject h j \<noteq> None \<and> field_target h p k = getObject h j))"

lemma representsD:
  assumes "represents h g"
  shows "heap_ok h" "edges_owned h" "\<And>p. p < length (obj_cells h) \<Longrightarrow> om_wf (m_fields (obj_cells h ! p))"
    and "stamps_of g i = map_option (\<lambda>p. m_last_timestamp (obj_cells h ! p)) (getObject h i)"
    and "getObject h i = None \<Longrightarrow> link g i k = None"
    and "getObject h i = Some p \<Longrightarrow> link g i k = None \<Longrightarrow> field_target h p k = None"
    and "getObject h i = Some p \<Longrightarrow> link g i k = Some j \<Longrightarrow> \<exists>q. getObject h j = Some q \<and> field_target h p k = Some q"
proof -
  have "case getObject h i of
        None \<Rightarrow> link g i k = None
      | Some p \<Rightarrow> (case link g i k of
            None \<Rightarrow> field_target h p k = None
          | Some j \<Rightarrow> getObject h j \<noteq> None \<and> field_target h p k = getObject h j)"
    using assms unfolding represents_def by blast
  then show "getObject h i = None \<Longrightarrow> link g i k = None"
    and "getObject h i = Some p \<Longrightarrow> link g i k = None \<Longrightarrow> field_target h p k = None"
    and "getObject h i = Some p \<Longrightarrow> link g i k = Some j \<Longrightarrow> \<exists>q. getObject h j = Some q \<and> field_target h p k = Some q"
    by auto
qed (use assms in \<open>auto simp: represents_def\<close>)

lemma getObject_ptr:
  assumes "represents h g" and "getObject h i = Some p"
  shows "p < length (obj_cells h)" "m_id_o (obj_cells h ! p) = i" "p \<in> heap_ptrs h"
  using heap_okD [OF representsD(1) [OF assms(1)]] assms(2) map_of_SomeD [of "m_objects h" i p]
  by (force simp: getObject_def heap_ptrs_def)+

lemma getObject_inj: "represents h g \<Longrightarrow> getObject h i = Some p \<Longrightarrow> getObject h j = Some p \<Longrightarrow> i = j"
  using getObject_ptr(2) by metis

lemma represents_touch:
  assumes "represents h g"
  shows "touch_object i t h = (if stamps_of g i = None then Inl Assertion_Failed
      else Inr (h\<lparr>obj_cells := (obj_cells h)[the (getObject h i) := setLastTimestamp t (obj_cells h ! the (getObject h i))]\<rparr>))"
    and "stamps_of g i \<noteq> None \<Longrightarrow> represents
      (h\<lparr>obj_cells := (obj_cells h)[the (getObject h i) := setLastTimestamp t (obj_cells h ! the (getObject h i))]\<rparr>)
      (g\<lparr>stamps_of := (stamps_of g)(i \<mapsto> t)\<rparr>)"
proof -
  note d = representsD [OF assms]
  show "touch_object i t h = (if stamps_of g i = None then Inl Assertion_Failed
      else Inr (h\<lparr>obj_cells := (obj_cells h)[the (getObject h i) := setLastTimestamp t (obj_cells h ! the (getObject h i))]\<rparr>))"
    using d(4) [of i] getObject_ptr(1) [OF assms]
    by (auto simp: touch_object_def upd_object_def deref_valid split: option.split)
  assume "stamps_of g i \<noteq> None"
  then obtain p where p: "getObject h i = Some p" using d(4) [of i] by auto
  note v = getObject_ptr [OF assms p]
  define h' where "h' = h\<lparr>obj_cells := (obj_cells h)[p := setLastTimestamp t (obj_cells h ! p)]\<rparr>"
  have same: "getObject h' = getObject h" "edge_cells h' = edge_cells h" "length (obj_cells h') = length (obj_cells h)"
    by (simp_all add: h'_def getObject_def fun_eq_iff)
  have cells: "m_fields (obj_cells h' ! q) = m_fields (obj_cells h ! q)" "m_id_o (obj_cells h' ! q) = m_id_o (obj_cells h ! q)"
    "m_last_timestamp (obj_cells h' ! q) = (if q = p then t else m_last_timestamp (obj_cells h ! q))"
    for q using v(1) by (cases "q = p"; simp add: h'_def setLastTimestamp_def)+
  have fields: "field_target h' q k = field_target h q k" for q k by (simp add: field_target_def cells(1) same(2) cong: option.case_cong)
  have "field_edges h' = field_edges h" by (simp add: field_edges_def cells(1) same(3))
  then have "edges_owned h'" using d(2) by (simp add: edges_owned_def same(2))
  moreover have "heap_ok h'" by (rule heap_ok_same_ids [OF d(1) same(3) cells(2)]) (simp_all add: h'_def)
  moreover have "om_wf (m_fields obj)" if "obj \<in> set (obj_cells h')" for obj
    using that d(3) cells(1) same(3) by (auto simp: in_set_conv_nth)
  moreover have "((stamps_of g)(i \<mapsto> t)) j = map_option (\<lambda>q. m_last_timestamp (obj_cells h' ! q)) (getObject h' j)" for j
    using d(4) [of j] p getObject_inj [OF assms p, of j] by (cases "getObject h j") (auto simp: same(1) cells(3))
  ultimately have "represents h' (g\<lparr>stamps_of := (stamps_of g)(i \<mapsto> t)\<rparr>)"
    using assms by (simp add: represents_def fields same(1) cong: option.case_cong)
  then show "represents
      (h\<lparr>obj_cells := (obj_cells h)[the (getObject h i) := setLastTimestamp t (obj_cells h ! the (getObject h i))]\<rparr>)
      (g\<lparr>stamps_of := (stamps_of g)(i \<mapsto> t)\<rparr>)" by (simp add: p h'_def)
qed

lemma represents_create:
  assumes "represents h g"
  shows "stamps_of g i \<noteq> None \<Longrightarrow> create_object ci i t h = Inl Assertion_Failed"
    and "stamps_of g i = None \<Longrightarrow>
      \<exists>h'. create_object ci i t h = Inr h' \<and> represents h' (g\<lparr>stamps_of := (stamps_of g)(i \<mapsto> t)\<rparr>)"
proof -
  note d = representsD [OF assms]
  show "stamps_of g i \<noteq> None \<Longrightarrow> create_object ci i t h = Inl Assertion_Failed"
    using d(4) [of i] by (auto simp: create_object_def)
  assume "stamps_of g i = None"
  then have fresh: "getObject h i = None" using d(4) [of i] by simp
  let ?p = "length (obj_cells h)"
  obtain p1 h1 where alloc: "allocate ci i 4 CHR ''N'' [] None [] 1 None True t h = Inr (p1, h1)"
    by (simp add: allocate_def allocsite_name_def Let_def)
  then have p1: "p1 = ?p" by (auto simp: allocate_Inr)
  define h' where "h' = h1\<lparr>obj_cells := (obj_cells h1)[?p := setLastTimestamp t (obj_cells h1 ! ?p)]\<rparr>"
  have h1: "length (obj_cells h1) = Suc ?p" using alloc by (auto simp: allocate_Inr note_live_def Let_def)
  then have run: "create_object ci i t h = Inr h'"
    using alloc fresh p1 by (simp add: create_object_def upd_object_def deref_valid h'_def)
  have cells: "length (obj_cells h') = Suc ?p" "edge_cells h' = edge_cells h" "m_objects h' = om_put i ?p (m_objects h)"
    "m_liveset h' = insert ?p (m_liveset h)" "\<And>q. q < ?p \<Longrightarrow> obj_cells h' ! q = obj_cells h ! q"
    "m_id_o (obj_cells h' ! ?p) = i" "m_last_timestamp (obj_cells h' ! ?p) = t" "m_fields (obj_cells h' ! ?p) = []"
    using alloc by (auto simp: allocate_Inr note_live_def Let_def h'_def setLastTimestamp_def nth_append)
  have get: "getObject h' = (getObject h)(i \<mapsto> ?p)" by (simp add: getObject_def fun_eq_iff cells(3))
  have old: "q < ?p" if "getObject h j = Some q" for j q using getObject_ptr(1) [OF assms that] .
  have fields: "field_target h' q k = (if q = ?p then None else field_target h q k)" if "q < Suc ?p" for q k
    using that cells(5) [of q] by (auto simp: field_target_def cells(2,8) less_Suc_eq cong: option.case_cong)
  have "field_edges h' = field_edges h"
    using cells(1,5,8) by (auto simp: field_edges_def less_Suc_eq)
  then have "edges_owned h'" using d(2) by (simp add: edges_owned_def cells(2))
  moreover have "heap_ok h'"
    using d(1) cells(6) old cells(5) unfolding heap_ok_def
    by (auto simp: cells(1,3,4) getObject_def split: if_splits) (metis less_SucI)+
  moreover have "om_wf (m_fields obj)" if "obj \<in> set (obj_cells h')" for obj
    using that d(3) cells(1,5,8) by (auto simp: in_set_conv_nth less_Suc_eq)
  moreover have "((stamps_of g)(i \<mapsto> t)) j = map_option (\<lambda>q. m_last_timestamp (obj_cells h' ! q)) (getObject h' j)" for j
    using d(4) [of j] old [of j] cells(5,7) by (cases "getObject h j") (auto simp: get)
  moreover have "case getObject h' j of
        None \<Rightarrow> link g j k = None
      | Some p \<Rightarrow> (case link g j k of
            None \<Rightarrow> field_target h' p k = None
          | Some l \<Rightarrow> getObject h' l \<noteq> None \<and> field_target h' p k = getObject h' l)" for j k
  proof (cases "j = i")
    case True
    then show ?thesis using d(5) [OF fresh] fields [of ?p k] by (simp add: get)
  next
    case False
    show ?thesis
    proof (cases "getObject h j")
      case None then show ?thesis using False d(5) by (simp add: get)
    next
      case (Some q)
      then show ?thesis
        using False d(6) [OF Some, of k] d(7) [OF Some, of k] fields [of q k] old [OF Some] fresh
        by (cases "link g j k") (auto simp: get)
    qed
  qed
  ultimately have "represents h' (g\<lparr>stamps_of := (stamps_of g)(i \<mapsto> t)\<rparr>)"
    by (simp add: represents_def cong: option.case_cong)
  with run show "\<exists>h'. create_object ci i t h = Inr h' \<and> represents h' (g\<lparr>stamps_of := (stamps_of g)(i \<mapsto> t)\<rparr>)" by blast
qed

lemma represents_assign:
  assumes "represents h g"
  shows "\<not> (stamps_of g i \<noteq> None \<and> stamps_of g j \<noteq> None) \<Longrightarrow> assign_field i k j t h = Inl Assertion_Failed"
    and "stamps_of g i \<noteq> None \<and> stamps_of g j \<noteq> None \<Longrightarrow>
      \<exists>h'. assign_field i k j t h = Inr h' \<and> represents h' (g\<lparr>link := (link g)(i := (link g i)(k \<mapsto> j))\<rparr>)"
proof -
  note d = representsD [OF assms]
  show "\<not> (stamps_of g i \<noteq> None \<and> stamps_of g j \<noteq> None) \<Longrightarrow> assign_field i k j t h = Inl Assertion_Failed"
    using d(4) [of i] d(4) [of j] by (auto simp: assign_field_def split: option.split)
  assume "stamps_of g i \<noteq> None \<and> stamps_of g j \<noteq> None"
  then obtain p q where p: "getObject h i = Some p" and q: "getObject h j = Some q"
    using d(4) [of i] d(4) [of j] by auto
  note v = getObject_ptr(1) [OF assms p]
  let ?e = "length (edge_cells h)"
  define h1 where "h1 = snd (make_edge (Some p) k (Some q) t h)"
  define h' where "h' = field_updated p ?e k h1"
  have h1: "obj_cells h1 = obj_cells h" "edge_cells h1 = edge_cells h @ [Some (Edge_new (Some p) k (Some q) t)]"
    "m_objects h1 = m_objects h" "m_liveset h1 = m_liveset h" by (simp_all add: h1_def make_edge_def)
  have fe: "field_edges h1 = field_edges h" by (simp add: field_edges_def h1)
  have old: "e < ?e" "edge_cells h ! e \<noteq> None" if "(r, l, e) \<in> field_edges h" for r l e
    using d(2) that unfolding edges_owned_def by blast+
  have owned: "edges_owned h1" using d(2) old by (auto simp: edges_owned_def fe h1 nth_append less_Suc_eq)
  have run: "assign_field i k j t h = Inr h'"
    using updateField_run [OF owned, of p ?e k] v by (simp add: assign_field_def p q make_edge_def h1_def h'_def)
  have "edges_owned h'"
    using updateField_effect [OF owned, of p ?e k] updateField_run [OF owned, of p ?e k] v old(1)
    by (auto simp: h1 h'_def fe)
  have same: "getObject h' = getObject h" "length (obj_cells h') = length (obj_cells h)" "m_objects h' = m_objects h"
    "m_liveset h' = m_liveset h" by (simp_all add: h'_def field_updated_def h1 getObject_def fun_eq_iff)
  have cells: "obj_cells h' ! r = (if r = p then (obj_cells h ! p)\<lparr>m_fields := om_put k (Some ?e) (m_fields (obj_cells h ! p))\<rparr>
      else obj_cells h ! r)" for r
    using v by (simp add: h'_def field_updated_def h1)
  have other: "edge_cells h' ! e = edge_cells h ! e" if "(r, l, e) \<in> field_edges h" "(r, l) \<noteq> (p, k)" for r l e
  proof -
    have "e \<noteq> o'" if "map_of (m_fields (obj_cells h ! p)) k = Some (Some o')" for o'
      using d(2) \<open>(r, l, e) \<in> field_edges h\<close> \<open>(r, l) \<noteq> (p, k)\<close> that v unfolding edges_owned_def field_edges_def by blast
    then show ?thesis
      using old(1) [OF that(1)] by (auto simp: h'_def field_updated_def h1 nth_append split: option.split)
  qed
  have new: "edge_cells h' ! ?e = Some (Edge_new (Some p) k (Some q) t)"
  proof -
    have "o' \<noteq> ?e" if "map_of (m_fields (obj_cells h ! p)) k = Some (Some o')" for o'
      using old(1) [of p k o'] that v by (auto simp: field_edges_def)
    then show ?thesis by (auto simp: h'_def field_updated_def h1 nth_append split: option.split)
  qed
  have fields: "field_target h' r l = (if r = p \<and> l = k then Some q else field_target h r l)" if r: "r < length (obj_cells h)" for r l
  proof (cases "r = p \<and> l = k")
    case True then show ?thesis by (simp add: field_target_def cells new Edge_new_def)
  next
    case False
    then have m: "map_of (m_fields (obj_cells h' ! r)) l = map_of (m_fields (obj_cells h ! r)) l" by (simp add: cells)
    show ?thesis
    proof (cases "\<exists>e. map_of (m_fields (obj_cells h ! r)) l = Some (Some e)")
      case True
      then obtain e where e: "map_of (m_fields (obj_cells h ! r)) l = Some (Some e)" by blast
      then have "edge_cells h' ! e = edge_cells h ! e" using other [of r l e] False r by (auto simp: field_edges_def)
      then show ?thesis using False m e by (auto simp: field_target_def)
    next
      case no: False
      then show ?thesis using False m by (auto simp: field_target_def split: option.split)
    qed
  qed
  have "heap_ok h'" using d(1) by (rule heap_ok_same_ids) (simp_all add: same cells)
  moreover have "om_wf (m_fields obj)" if "obj \<in> set (obj_cells h')" for obj
    using that d(3) same(2) v by (auto simp: in_set_conv_nth cells)
  moreover have "stamps_of g l = map_option (\<lambda>r. m_last_timestamp (obj_cells h' ! r)) (getObject h' l)" for l
    using d(4) [of l] by (cases "getObject h l") (auto simp: same(1) cells)
  moreover have "case getObject h' l of
        None \<Rightarrow> ((link g)(i := (link g i)(k \<mapsto> j))) l f = None
      | Some r \<Rightarrow> (case ((link g)(i := (link g i)(k \<mapsto> j))) l f of
            None \<Rightarrow> field_target h' r f = None
          | Some n \<Rightarrow> getObject h' n \<noteq> None \<and> field_target h' r f = getObject h' n)" for l f
  proof (cases "getObject h l")
    case None
    then show ?thesis using d(5) [OF None] p by (auto simp: same(1))
  next
    case (Some r)
    have "r = p \<longleftrightarrow> l = i" using getObject_inj [OF assms, of l p i] Some p by auto
    then show ?thesis
      using d(6,7) [OF Some, of f] fields [OF getObject_ptr(1) [OF assms Some], of f] q Some
      by (cases "link g l f") (auto simp: same(1))
  qed
  ultimately have "represents h' (g\<lparr>link := (link g)(i := (link g i)(k \<mapsto> j))\<rparr>)"
    using \<open>edges_owned h'\<close> by (simp add: represents_def cong: option.case_cong)
  with run show "\<exists>h'. assign_field i k j t h = Inr h' \<and> represents h' (g\<lparr>link := (link g)(i := (link g i)(k \<mapsto> j))\<rparr>)" by blast
qed

lemma represents_mutate:
  assumes "represents h g"
  shows "if possible g m then \<exists>h'. mutate ci h m = Inr h' \<and> represents h' (change m g) else mutate ci h m = Inl Assertion_Failed"
proof (cases m)
  case (Create i t) then show ?thesis using represents_create [OF assms, of i ci t] by simp
next
  case (Assign i k j t) then show ?thesis using represents_assign [OF assms, of i j k t] by auto
next
  case (Touch i t) then show ?thesis using represents_touch [OF assms, of i t] by auto
qed

lemma represents_init: "represents HeapState_init empty_graph"
  by (simp add: represents_def heap_ok_init [unfolded HeapState_init_def] empty_graph_def HeapState_init_def edges_owned_def field_edges_def getObject_def)

lemma represents_run:
  "represents h g \<Longrightarrow> (case foldR (mutate ci) ms h of
      Inl e \<Rightarrow> e = Assertion_Failed \<and> \<not> all_possible g ms
    | Inr h' \<Rightarrow> all_possible g ms \<and> represents h' (fold change ms g))"
proof (induction ms arbitrary: h g)
  case (Cons m ms)
  show ?case
  proof (cases "possible g m")
    case True
    then obtain h' where "mutate ci h m = Inr h'" "represents h' (change m g)"
      using represents_mutate [OF Cons.prems, of m ci] by auto
    then show ?thesis using Cons.IH [of h' "change m g"] True by (simp split: sum.splits)
  next
    case False
    then show ?thesis using represents_mutate [OF Cons.prems, of m ci] by simp
  qed
qed simp

section \<open>The search on a heap that represents a graph\<close>

lemma heap_ptrs_iff: "represents h g \<Longrightarrow> p \<in> heap_ptrs h \<longleftrightarrow> (\<exists>i. getObject h i = Some p)"
  using representsD(1) by (force simp: heap_ptrs_def getObject_def heap_ok_def om_wf_lookup)

lemma refs_iff:
  assumes "represents h g" and "getObject h i = Some p"
  shows "(p, q) \<in> refs h \<longleftrightarrow> (\<exists>j. (i, j) \<in> leads g \<and> getObject h j = Some q)"
proof -
  note v = getObject_ptr(1) [OF assms]
  have wf: "om_wf (m_fields (obj_cells h ! p))" by (rule representsD(3) [OF assms(1) v])
  have "field_target h p k = Some q \<longleftrightarrow> (\<exists>e d. map_of (m_fields (obj_cells h ! p)) k = Some (Some e) \<and>
      edge_cells h ! e = Some d \<and> m_target d = Some q)" for k
    by (auto simp: field_target_def bind_eq_Some_conv split: option.splits)
  then have "(p, q) \<in> refs h \<longleftrightarrow> (\<exists>k. field_target h p k = Some q)"
    by (simp add: refs_def om_wf_lookup [OF wf])
  also have "\<dots> \<longleftrightarrow> (\<exists>j. (i, j) \<in> leads g \<and> getObject h j = Some q)"
  proof
    assume "\<exists>k. field_target h p k = Some q"
    then obtain k where k: "field_target h p k = Some q" ..
    then obtain j where "link g i k = Some j" using representsD(6) [OF assms, of k] by (cases "link g i k") auto
    then show "\<exists>j. (i, j) \<in> leads g \<and> getObject h j = Some q"
      using representsD(7) [OF assms, of k j] k by (auto simp: leads_def)
  next
    assume "\<exists>j. (i, j) \<in> leads g \<and> getObject h j = Some q"
    then show "\<exists>k. field_target h p k = Some q" using representsD(7) [OF assms] by (fastforce simp: leads_def)
  qed
  finally show ?thesis .
qed

lemma leads_objects: "represents h g \<Longrightarrow> (i, j) \<in> leads g \<Longrightarrow> getObject h i \<noteq> None \<and> getObject h j \<noteq> None"
  using representsD(5,7) by (fastforce simp: leads_def)

lemma represents_merlin_heap:
  assumes "represents h g"
  shows "merlin_heap h"
proof -
  have "q \<in> heap_ptrs h" if "p \<in> heap_ptrs h" "(p, q) \<in> refs h" for p q
    using that refs_iff [OF assms] unfolding heap_ptrs_iff [OF assms] by blast
  then show ?thesis
    using representsD(1,2) [OF assms] assms by (auto simp: merlin_heap_def represents_def)
qed

lemma reaches_iff:
  assumes "represents h g" and "getObject h i = Some p" and "getObject h j = Some q"
  shows "(p, q) \<in> (refs h)\<^sup>* \<longleftrightarrow> (i, j) \<in> (leads g)\<^sup>*"
proof
  assume "(p, q) \<in> (refs h)\<^sup>*"
  then have "\<exists>l. getObject h l = Some q \<and> (i, l) \<in> (leads g)\<^sup>*"
  proof (induction rule: rtrancl_induct)
    case base then show ?case using assms(2) by blast
  next
    case (step r s)
    then show ?case using refs_iff [OF assms(1)] by (meson rtrancl_into_rtrancl)
  qed
  then show "(i, j) \<in> (leads g)\<^sup>*" using getObject_inj [OF assms(1) _ assms(3)] by blast
next
  assume "(i, j) \<in> (leads g)\<^sup>*"
  then have "\<exists>r. getObject h j = Some r \<and> (p, r) \<in> (refs h)\<^sup>*"
  proof (induction rule: rtrancl_induct)
    case base then show ?case using assms(2) by blast
  next
    case (step k l)
    then obtain r s where "getObject h k = Some r" "(p, r) \<in> (refs h)\<^sup>*" "getObject h l = Some s"
      using leads_objects [OF assms(1) step(2)] by auto
    moreover then have "(r, s) \<in> refs h" using refs_iff [OF assms(1)] step(2) by blast
    ultimately show ?case by (meson rtrancl_into_rtrancl)
  qed
  then show "(p, q) \<in> (refs h)\<^sup>*" using assms(3) by simp
qed

lemma merlin_time_graph:
  assumes "represents h g" and "getObject h i = Some p"
  shows "merlin_time h p = graph_time g i"
proof -
  have "{m_last_timestamp (obj_cells h ! q) |q. q \<in> heap_ptrs h \<and> (q, p) \<in> (refs h)\<^sup>*} =
      {t. \<exists>j. stamps_of g j = Some t \<and> (j, i) \<in> (leads g)\<^sup>*}"
    using reaches_iff [OF assms(1) _ assms(2)] representsD(4) [OF assms(1)] heap_ptrs_iff [OF assms(1)] by fastforce
  then show ?thesis by (simp add: merlin_time_def graph_time_def)
qed

section \<open>Property\<close>

text \<open>
  C3: What the Merlin pass means. A heap is built from nothing by creating objects, setting fields and
  stamping objects, and the pass is run on it. The run fails (an assertion) exactly when some step names an
  object that is not there, or creates one that is. Otherwise the objects are those of the abstract graph,
  and each has as its death time and last time stamp the latest stamp of all objects from which it can be
  reached over the fields as they were last set.
\<close>
theorem merlin_meaning:
  assumes "sorting std_sort"
  shows "case bindR (foldR (mutate ci) ms HeapState_init) (apply_merlin std_sort trace) of
      Inl e \<Rightarrow> e = Assertion_Failed \<and> \<not> all_possible empty_graph ms
    | Inr h \<Rightarrow> all_possible empty_graph ms \<and>
        (\<forall>i. case stamps_of (fold change ms empty_graph) i of
           None \<Rightarrow> getObject h i = None
         | Some _ \<Rightarrow> \<exists>p. getObject h i = Some p \<and>
             m_deathTime (obj_cells h ! p) = graph_time (fold change ms empty_graph) i \<and>
             m_last_timestamp (obj_cells h ! p) = graph_time (fold change ms empty_graph) i)"
proof (cases "foldR (mutate ci) ms HeapState_init")
  case (Inl e)
  then show ?thesis using represents_run [OF represents_init, where ci = ci and ms = ms] by simp
next
  case (Inr h0)
  then have g: "all_possible empty_graph ms" "represents h0 (fold change ms empty_graph)"
    using represents_run [OF represents_init, where ci = ci and ms = ms] by simp_all
  obtain h where h: "apply_merlin std_sort trace h0 = Inr h" "m_objects h = m_objects h0"
    "\<And>p. p < length (obj_cells h0) \<Longrightarrow> p \<in> heap_ptrs h0 \<Longrightarrow> obj_cells h ! p = setDeathTime (merlin_time h0 p) (setLastTimestamp (merlin_time h0 p) (obj_cells h0 ! p))"
    using merlin_run [OF assms represents_merlin_heap [OF g(2)], of trace] by auto
  have get: "getObject h = getObject h0" using h(2) by (simp add: getObject_def fun_eq_iff)
  have "case stamps_of (fold change ms empty_graph) i of
           None \<Rightarrow> getObject h i = None
         | Some _ \<Rightarrow> \<exists>p. getObject h i = Some p \<and>
             m_deathTime (obj_cells h ! p) = graph_time (fold change ms empty_graph) i \<and>
             m_last_timestamp (obj_cells h ! p) = graph_time (fold change ms empty_graph) i" for i
  proof (cases "getObject h0 i")
    case None then show ?thesis using representsD(4) [OF g(2), of i] by (simp add: get)
  next
    case (Some p)
    then show ?thesis
      using representsD(4) [OF g(2), of i] h(3) getObject_ptr(1,3) [OF g(2) Some] merlin_time_graph [OF g(2) Some]
      by (simp add: get setDeathTime_def setLastTimestamp_def)
  qed
  then show ?thesis using Inr g(1) h(1) by simp
qed

text \<open>Object 1 refers to 2, and to 3 until its field is set to 2 again; 2 and 3 keep their stamps, 1 is used last.\<close>

definition demo_mutations :: "mutation list" where
  "demo_mutations = [Create 1 1, Create 2 2, Create 3 3, Assign 1 7 3 4, Assign 1 7 2 5, Touch 1 6]"

lemma merlin_meaning_witness:
  "\<exists>h. bindR (foldR (mutate ClassInfo_init) demo_mutations HeapState_init) (apply_merlin sort_by []) = Inr h \<and>
     (\<exists>p. getObject h 2 = Some p \<and> m_deathTime (obj_cells h ! p) = 6) \<and>
     (\<exists>p. getObject h 3 = Some p \<and> m_deathTime (obj_cells h ! p) = 3)"
proof -
  let ?g = "fold change demo_mutations empty_graph"
  have ok: "all_possible empty_graph demo_mutations" by (simp add: demo_mutations_def empty_graph_def)
  have st: "stamps_of ?g = [1 \<mapsto> 6, 2 \<mapsto> 2, 3 \<mapsto> 3]" by (auto simp: demo_mutations_def empty_graph_def fun_eq_iff)
  have leads: "leads ?g = {(1, 2)}" by (auto simp: demo_mutations_def empty_graph_def leads_def split: if_splits)
  have reach: "(j, i) \<in> (leads ?g)\<^sup>* \<longleftrightarrow> j = i \<or> j = 1 \<and> i = 2" for i j
  proof
    assume "(j, i) \<in> (leads ?g)\<^sup>*"
    then show "j = i \<or> j = 1 \<and> i = 2" unfolding leads by (induction rule: rtrancl_induct) simp_all
  next
    assume "j = i \<or> j = 1 \<and> i = 2"
    then show "(j, i) \<in> (leads ?g)\<^sup>*" unfolding leads by (elim disjE) (simp_all add: r_into_rtrancl)
  qed
  have "{t. \<exists>j. stamps_of ?g j = Some t \<and> (j, 2) \<in> (leads ?g)\<^sup>*} = {6, 2}"
    "{t. \<exists>j. stamps_of ?g j = Some t \<and> (j, 3) \<in> (leads ?g)\<^sup>*} = {3}"
    unfolding reach st by (auto split: if_splits intro: exI [of _ 2])
  then have times: "graph_time ?g 2 = 6" "graph_time ?g 3 = 3" by (simp_all add: graph_time_def)
  show ?thesis
  proof (cases "bindR (foldR (mutate ClassInfo_init) demo_mutations HeapState_init) (apply_merlin sort_by [])")
    case (Inl e)
    then show ?thesis using merlin_meaning [OF insertion.sorting_axioms, where ci = ClassInfo_init and ms = demo_mutations and trace = "[]"] ok by simp
  next
    case (Inr h)
    then have "case stamps_of ?g i of None \<Rightarrow> getObject h i = None
         | Some _ \<Rightarrow> \<exists>p. getObject h i = Some p \<and> m_deathTime (obj_cells h ! p) = graph_time ?g i \<and>
             m_last_timestamp (obj_cells h ! p) = graph_time ?g i" for i
      using merlin_meaning [OF insertion.sorting_axioms, where ci = ClassInfo_init and ms = demo_mutations and trace = "[]"] by (simp only: sum.case)
    from this [of 2] this [of 3] show ?thesis using Inr st times by auto
  qed
qed

end
