(* ===== verification/Class_Files.thy ===== *)
theory Class_Files
  imports Class_Info
begin

text \<open>
  What the files of version 2 mean: a classes file and a fields file, printed from lists of entries, and
  the tables that the readers of \<open>classinfo.cpp\<close> build from them.
\<close>

section \<open>A classes file is read as written\<close>

text \<open>A classes file holds a name and an identifier on every line; of equal names the first counts.\<close>

definition print_class :: "string \<times> u32 \<Rightarrow> string" where
  "print_class e = fst e @ CHR '','' # show_dec (snd e)"

definition class_file :: "(string \<times> u32) list \<Rightarrow> string" where
  "class_file es = concat (map (\<lambda>e. print_class e @ [CHR 0x0A]) es)"

definition class_entry :: "string \<times> u32 \<Rightarrow> bool" where
  "class_entry e \<longleftrightarrow> fst e \<noteq> [] \<and> {CHR '','', CHR 0x0A, NUL} \<inter> set (fst e) = {} \<and> unat (snd e) < 2 ^ 31 \<and>
     length (print_class e) < LINESIZE - 1"

fun first_entries :: "(string \<times> u32) list \<Rightarrow> (string \<times> u32) list" where
  "first_entries [] = []"
| "first_entries (e # es) = e # filter (\<lambda>d. fst d \<noteq> fst e) (first_entries es)"

definition class_named :: "ClassInfo \<Rightarrow> u32 \<Rightarrow> string option" where
  "class_named ci i =
     (case map_of (TheClasses ci) i of Some (Some p) \<Rightarrow> Some (m_name (class_cells ci ! p)) | _ \<Rightarrow> None)"

lemma class_named_frame [simp]:
  "class_named (ci\<lparr>rev_map := m\<rparr>) i = class_named ci i" "class_named (ci\<lparr>max_class_id := k\<rparr>) i = class_named ci i"
  by (simp_all add: class_named_def cong: option.case_cong)

lemma comma_tokens:
  assumes "s \<noteq> []" and "CHR '','' \<notin> set s"
  shows "tokens_of (isDelimiter E_COMMA) s = [s]"
proof -
  obtain c cs where s: "s = c # cs"
    using assms(1) by (cases s) auto
  have "\<not> isDelimiter E_COMMA d" if "d \<in> set s" for d
    using assms(2) that by (auto simp: isDelimiter_def)
  then have cut: "\<not> isDelimiter E_COMMA c" "takeWhile (\<lambda>x. \<not> isDelimiter E_COMMA x) cs = cs"
    "dropWhile (\<lambda>x. \<not> isDelimiter E_COMMA x) cs = []"
    by (auto simp: s takeWhile_eq_all_conv dropWhile_eq_Nil_conv)
  show ?thesis
    unfolding s tokens_of_run [where p = "isDelimiter E_COMMA", OF cut(1)] cut(2,3) by simp
qed

lemma comma_tokens_then:
  assumes "s \<noteq> []" and "CHR '','' \<notin> set s"
  shows "tokens_of (isDelimiter E_COMMA) (s @ CHR '','' # r) = s # tokens_of (isDelimiter E_COMMA) r"
proof -
  obtain c cs where s: "s = c # cs"
    using assms(1) by (cases s) auto
  have "\<forall>x \<in> set cs. \<not> isDelimiter E_COMMA x" "\<not> isDelimiter E_COMMA c" "isDelimiter E_COMMA (CHR '','')"
    using assms(2) by (auto simp: isDelimiter_def s)
  then show ?thesis
    by (simp add: s tokens_of_Cons takeWhile_upto dropWhile_upto)
qed

lemma show_dec_chars: "c \<in> set (show_dec w) \<Longrightarrow> is_dec_digit c"
  using show_base_digits [of "unat w"] by (auto simp: show_dec_def)

lemma class_line_says:
  assumes "class_entry e"
  shows "line_says E_COMMA (print_class e) [fst e, show_dec (snd e) @ [CHR 0x0A]]"
proof -
  have digits: "\<forall>c \<in> {CHR '','', CHR 0x0A, NUL}. c \<notin> set (show_dec (snd e))"
  proof (intro ballI notI)
    fix c
    assume "c \<in> {CHR '','', CHR 0x0A, NUL}" "c \<in> set (show_dec (snd e))"
    then show False
      using show_dec_chars [of c "snd e"] by (auto simp: is_dec_digit_def)
  qed
  have "tokens_of (isDelimiter E_COMMA) (print_class e @ [CHR 0x0A]) = [fst e, show_dec (snd e) @ [CHR 0x0A]]"
    using assms digits comma_tokens_then [of "fst e" "show_dec (snd e) @ [CHR 0x0A]"]
      comma_tokens [of "show_dec (snd e) @ [CHR 0x0A]"]
    by (auto simp: print_class_def class_entry_def)
  then show ?thesis
    using assms digits by (auto simp: line_says_def class_entry_def print_class_def TOKENSIZE_def)
qed

text \<open>What the reader does with an entry.\<close>

definition enter_class :: "ClassInfo \<Rightarrow> string \<times> u32 \<Rightarrow> ClassInfo result" where
  "enter_class ci e =
     (if map_of (rev_map ci) (fst e) \<noteq> None then Inr ci
      else
        let ci = ci\<lparr>rev_map := om_put (fst e) (snd e) (rev_map ci)\<rparr> in
        case map_of (TheClasses ci) (snd e) of
          None \<Rightarrow>
            let p = length (class_cells ci) in
            Inr (ci\<lparr>class_cells := class_cells ci @ [Class_new (snd e) (fst e) False],
                    max_class_id := max (max_class_id ci) (snd e),
                    TheClasses := om_put (snd e) (Some p) (TheClasses ci)\<rparr>)
        | Some cls \<Rightarrow> bindR (derefN (class_cells ci) cls) (\<lambda>_. Inr ci))"

lemma entry_read:
  assumes ok: "tokenizer_ok u" and "class_entry e" and toks: "tokens u = [fst e, show_dec (snd e) @ [CHR 0x0A]]"
  shows "getString u 0 = Some (fst e)" and "getInt u 1 = Inr (snd e)"
proof -
  show "getString u 0 = Some (fst e)"
    using getString_token [of 0, OF _ ok] by (simp add: toks)
  have scan: "scan_int (show_dec (snd e) @ [CHR 0x0A]) = Some (int (unat (snd e)))"
    by (rule scan_int_show_dec_then) (simp add: is_dec_digit_def)
  have fit: "fits_int (int n) \<longleftrightarrow> n < 2 ^ 31" for n
    by (simp add: fits_int_def)
  have tok: "1 < length (tokens u)" "tokens u ! 1 = show_dec (snd e) @ [CHR 0x0A]"
    by (simp_all add: toks)
  show "getInt u 1 = Inr (snd e)"
    using getInt_token [OF ok tok(1)] assms(2) fit by (simp only: tok(2) scan option.case class_entry_def if_True) simp
qed

lemma classes_line_enters:
  assumes "tokenizer_ok u" and "class_entry e" and "tokens u = [fst e, show_dec (snd e) @ [CHR 0x0A]]"
  shows "classes_line_et2 ci u = enter_class ci e"
  using entry_read [OF assms] by (simp add: classes_line_et2_def enter_class_def to_string_def Let_def)

lemma read_class_file:
  assumes "\<forall>e \<in> set es. class_entry e"
  shows "impl_read_classes_file_et2 (Some (class_file es)) ci = foldR enter_class es ci"
proof -
  have "read_lines classes_line_et2 (Tokenizer_new (class_file es) E_COMMA) ci = foldR enter_class es ci"
    by (rule read_file_of_lines [where pr = print_class and f = "\<lambda>e. [fst e, show_dec (snd e) @ [CHR 0x0A]]"])
      (use assms class_line_says classes_line_enters in \<open>auto simp: Tokenizer_new_def class_file_def\<close>)
  then show ?thesis by (simp add: impl_read_classes_file_et2_def)
qed

lemma first_entries_snoc:
  "first_entries (es @ [e]) = first_entries es @ (if fst e \<in> fst ` set es then [] else [e])"
  by (induction es) auto

lemma set_first_entries: "set (first_entries es) \<subseteq> set es"
  by (induction es) auto

text \<open>The tables after a list of entries.\<close>

definition tables_of :: "(string \<times> u32) list \<Rightarrow> ClassInfo \<Rightarrow> bool" where
  "tables_of es ci \<longleftrightarrow> class_tables_ok ci \<and> om_wf (rev_map ci) \<and> om_wf (TheClasses ci) \<and> map_of (rev_map ci) = map_of es \<and>
     (\<forall>i. class_named ci i = map_of (map prod.swap (first_entries es)) i) \<and>
     TheFields ci = [] \<and> (\<forall>c \<in> set (class_cells ci). m_fields_c c = [])"

lemma enter_class_tables:
  assumes "tables_of es ci"
  shows "\<exists>ci'. enter_class ci e = Inr ci' \<and> tables_of (es @ [e]) ci'"
proof -
  obtain n i where e: "e = (n, i)" by fastforce
  have old: "class_tables_ok ci" "om_wf (rev_map ci)" "om_wf (TheClasses ci)" "map_of (rev_map ci) = map_of es"
    "class_named ci j = map_of (map prod.swap (first_entries es)) j"
    "TheFields ci = []" "\<forall>c \<in> set (class_cells ci). m_fields_c c = []" for j
    using assms by (auto simp: tables_of_def)
  have known: "map_of es n = None \<longleftrightarrow> n \<notin> fst ` set es"
    by (simp add: map_of_eq_None_iff)
  consider (dup) y where "map_of es n = Some y"
    | (same) po where "map_of es n = None" "map_of (TheClasses ci) i = Some po"
    | (new) "map_of es n = None" "map_of (TheClasses ci) i = None"
    by (metis option.exhaust)
  then show ?thesis
  proof cases
    case dup
    then have "map_of (es @ [e]) = map_of es" "first_entries (es @ [e]) = first_entries es"
      using known by (auto simp: e map_add_def first_entries_snoc fun_eq_iff split: option.split)
    then show ?thesis
      using assms dup old(4) by (simp add: enter_class_def e tables_of_def)
  next
    case same
    obtain p where p: "po = Some p" "p < length (class_cells ci)"
      using class_tables_okD [OF old(1) same(2)] by metis
    have "class_named ci i \<noteq> None"
      using same(2) p by (simp add: class_named_def)
    then have "map_of (map prod.swap (first_entries es)) i \<noteq> None"
      by (simp add: old(5))
    then have "class_named ci j = map_of (map prod.swap (first_entries (es @ [e]))) j" for j
      using known same(1) old(5) by (auto simp: e first_entries_snoc map_add_def split: option.split)
    moreover have "map_of (es @ [e]) = (map_of es)(n \<mapsto> i)"
      using same(1) by (auto simp: e map_add_def fun_eq_iff split: option.split)
    moreover have "class_tables_ok (ci\<lparr>rev_map := om_put n i (rev_map ci)\<rparr>)"
      using same(2) by (intro class_tables_ok_name [OF old(1)]) simp
    ultimately show ?thesis
      using same p old(1-4,6,7) by (simp add: enter_class_def e tables_of_def deref_valid)
  next
    case new
    define ci1 where "ci1 = ci\<lparr>class_cells := class_cells ci @ [Class_new i n False],
        TheClasses := om_put i (Some (length (class_cells ci))) (TheClasses ci)\<rparr>"
    define ci2 where "ci2 = ci1\<lparr>rev_map := om_put n i (rev_map ci1)\<rparr>"
    have "class_tables_ok ci1"
      using class_tables_ok_register [OF old(1), of "Class_new i n False"] by (simp add: ci1_def)
    then have ok: "class_tables_ok ci2"
      unfolding ci2_def by (rule class_tables_ok_name) (simp add: ci1_def)
    have valid: "p < length (class_cells ci)" if "map_of (TheClasses ci) j = Some (Some p)" for j p
      using old(1) that by (elim class_tables_okD) auto
    have "class_named ci2 j = (if j = i then Some n else class_named ci j)" for j
      using valid by (auto simp: class_named_def ci2_def ci1_def nth_append split: option.split)
    moreover have "class_named ci i = None"
      using new(2) by (simp add: class_named_def)
    ultimately have "class_named ci2 j = map_of (map prod.swap (first_entries (es @ [e]))) j" for j
      using known new(1) old(5) by (auto simp: e first_entries_snoc map_add_def split: option.split)
    moreover have "map_of (es @ [e]) = (map_of es)(n \<mapsto> i)"
      using new(1) by (auto simp: e map_add_def fun_eq_iff split: option.split)
    ultimately have "tables_of (es @ [e]) ci2"
      using ok old by (simp add: tables_of_def ci2_def ci1_def Class_new_def)
    then have "tables_of (es @ [e]) (ci2\<lparr>max_class_id := max (max_class_id ci) i\<rparr>)"
      by (simp add: tables_of_def)
    moreover have "enter_class ci e = Inr (ci2\<lparr>max_class_id := max (max_class_id ci) i\<rparr>)"
      using new old(4) by (simp add: enter_class_def e ci2_def ci1_def Let_def)
    ultimately show ?thesis by blast
  qed
qed

lemma class_file_tables_from:
  assumes "\<forall>e \<in> set es. class_entry e" and "tables_of [] start"
  shows "\<exists>ci. impl_read_classes_file_et2 (Some (class_file es)) start = Inr ci \<and> tables_of es ci"
proof -
  have "\<exists>ci. foldR enter_class es start = Inr ci \<and> tables_of es ci"
  proof (induction es rule: rev_induct)
    case Nil
    then show ?case using assms(2) by simp
  next
    case (snoc e es)
    then obtain ci where ci: "foldR enter_class es start = Inr ci" "tables_of es ci" by blast
    obtain ci' where "enter_class ci e = Inr ci'" "tables_of (es @ [e]) ci'"
      using enter_class_tables [OF ci(2)] by blast
    then show ?case using ci(1) by (simp add: foldR_append)
  qed
  then show ?thesis using read_class_file [OF assms(1)] by simp
qed

lemma tables_of_start: "tables_of [] ClassInfo_init" "tables_of [] (unset_main_flag ClassInfo_init)"
  by (simp_all add: tables_of_def class_named_def ClassInfo_init_def class_tables_ok_def unset_main_flag_def)

lemmas class_file_tables = class_file_tables_from [OF _ tables_of_start(1)]

text \<open>A blank line is no end of the file in this mode: it enters a class whose name is the newline.\<close>

lemma blank_line_enters_class:
  "map_sum id (\<lambda>ci. (rev_map ci, map m_name (class_cells ci)))
     (impl_read_classes_file_et2 (Some [CHR 0x0A]) ClassInfo_init) = Inr ([([CHR 0x0A], 0)], [[CHR 0x0A]])"
  by code_simp


section \<open>A fields file is read as written\<close>

text \<open>The lines look alike: the path of a field, and its identifier. What the reader does with one is the code after
  its two tokens are read.\<close>

abbreviation fields_file :: "(string \<times> u32) list \<Rightarrow> string" where
  "fields_file \<equiv> class_file"

definition enter_field :: "ClassInfo \<times> (u32, string) omap \<Rightarrow> string \<times> u32 \<Rightarrow> (ClassInfo \<times> (u32, string) omap) result" where
  "enter_field st e =
     (if map_of (snd st) (snd e) \<noteq> None then Inr st
      else
        let (cls, ci) = class_of_field (fst st) (field_class_name (fst e));
            f = length (field_cells ci)
        in bindR (assertR (cls \<noteq> None)) (\<lambda>_.
           bindR (upd_class cls (addField (snd e) f)
                    (ci\<lparr>field_cells := field_cells ci @ [Field_new (snd e) cls (fst e) ''TODO'' False],
                        TheFields := om_put (snd e) (Some f) (TheFields ci)\<rparr>)) (\<lambda>ci.
           Inr (ci, om_put (snd e) (fst e) (snd st)))))"

lemma read_fields_file:
  assumes "\<forall>e \<in> set fs. class_entry e"
  shows "impl_read_fields_file_et2 (Some (fields_file fs)) ci = foldR enter_field fs (ci, [])"
proof -
  have "fields_line_et2 st u = enter_field st e"
    if "tokenizer_ok u" "class_entry e" "tokens u = [fst e, show_dec (snd e) @ [CHR 0x0A]]" for st u e
    using entry_read [OF that]
    by (cases st) (simp add: fields_line_et2_def enter_field_def to_string_def Let_def case_prod_beta)
  then have "read_lines fields_line_et2 (Tokenizer_new (fields_file fs) E_COMMA) (ci, []) = foldR enter_field fs (ci, [])"
    by (intro read_file_of_lines [where pr = print_class and f = "\<lambda>e. [fst e, show_dec (snd e) @ [CHR 0x0A]]"])
      (use assms class_line_says in \<open>auto simp: Tokenizer_new_def class_file_def\<close>)
  then show ?thesis by (simp add: impl_read_fields_file_et2_def)
qed

text \<open>The class a field belongs to by its path, when the classes file names it.\<close>

definition owner :: "ClassInfo \<Rightarrow> string \<Rightarrow> class_ptr option" where
  "owner ci path =
     Option.bind (map_of (rev_map ci) (field_class_name path)) (\<lambda>i. Option.bind (map_of (TheClasses ci) i) id)"

text \<open>The tables after a list of entries, from the tables \<open>base\<close>: of equal identifiers the first counts.\<close>

definition field_stored :: "ClassInfo \<Rightarrow> ClassInfo \<times> (u32, string) omap \<Rightarrow> u32 \<Rightarrow> bool" where
  "field_stored base st i \<longleftrightarrow>
     (case map_of (snd st) i of
        None \<Rightarrow> map_of (TheFields (fst st)) i = None
      | Some path \<Rightarrow> \<exists>f < length (field_cells (fst st)). map_of (TheFields (fst st)) i = Some (Some f) \<and>
          field_cells (fst st) ! f = Field_new i (owner base path) path ''TODO'' False)"

definition field_listed :: "ClassInfo \<Rightarrow> ClassInfo \<times> (u32, string) omap \<Rightarrow> class_ptr \<Rightarrow> u32 \<Rightarrow> bool" where
  "field_listed base st p i \<longleftrightarrow>
     map_of (m_fields_c (class_cells (fst st) ! p)) i =
       (if \<exists>path. map_of (snd st) i = Some path \<and> owner base path = Some p
        then Option.bind (map_of (TheFields (fst st)) i) id else None)"

definition fields_of :: "ClassInfo \<Rightarrow> (string \<times> u32) list \<Rightarrow> ClassInfo \<times> (u32, string) omap \<Rightarrow> bool" where
  "fields_of base fs st \<longleftrightarrow>
     map_of (snd st) = map_of (map prod.swap fs) \<and>
     rev_map (fst st) = rev_map base \<and> TheClasses (fst st) = TheClasses base \<and>
     map m_id (class_cells (fst st)) = map m_id (class_cells base) \<and>
     (\<forall>i. field_stored base st i) \<and> (\<forall>p < length (class_cells base). \<forall>i. field_listed base st p i)"

lemma enter_field_known:
  assumes "class_tables_ok base" and "fields_of base fs st" and "map_of (rev_map base) (field_class_name (fst e)) \<noteq> None"
  shows "\<exists>st'. enter_field st e = Inr st' \<and> fields_of base (fs @ [e]) st'"
proof -
  obtain path i where e: "e = (path, i)" by fastforce
  obtain ci fm where st: "st = (ci, fm)" by fastforce
  have old: "map_of fm = map_of (map prod.swap fs)" "rev_map ci = rev_map base" "TheClasses ci = TheClasses base"
    "map m_id (class_cells ci) = map m_id (class_cells base)" "field_stored base (ci, fm) j"
    "r < length (class_cells base) \<Longrightarrow> field_listed base (ci, fm) r j" for r j
    using assms(2) by (simp_all add: fields_of_def st)
  have len: "length (class_cells ci) = length (class_cells base)" using old(4) by (metis length_map)
  show ?thesis
  proof (cases "map_of fm i")
    case (Some x)
    then have same: "map_of (map prod.swap (fs @ [e])) = map_of (map prod.swap fs)"
      using old(1) by (auto simp: e map_add_def fun_eq_iff split: option.split)
    have "fields_of base (fs @ [e]) st" using assms(2) unfolding fields_of_def same .
    then show ?thesis using Some by (simp add: enter_field_def st e)
  next
    case None
    obtain c where c: "map_of (rev_map base) (field_class_name path) = Some c" using assms(3) by (auto simp: e)
    then have "map_of (TheClasses base) c \<noteq> None" using assms(1) by (auto simp: class_tables_ok_def)
    then obtain p where p: "map_of (TheClasses base) c = Some (Some p)" "p < length (class_cells base)"
      using class_tables_okD [OF assms(1)] by (metis option.exhaust)
    then have own: "owner base path = Some p" by (simp add: owner_def c)
    let ?f = "length (field_cells ci)"
    define ci' where "ci' = ci\<lparr>field_cells := field_cells ci @ [Field_new i (Some p) path ''TODO'' False],
      TheFields := om_put i (Some ?f) (TheFields ci),
      class_cells := (class_cells ci)[p := addField i ?f (class_cells ci ! p)]\<rparr>"
    have "class_of_field ci (field_class_name path) = (Some p, ci)"
      using c p old(2,3) by (simp add: class_of_field_def om_index_present)
    then have "enter_field st e = Inr (ci', om_put i path fm)"
      using None p(2) len by (simp add: enter_field_def st e upd_class_def deref_valid ci'_def Let_def)
    moreover have "fields_of base (fs @ [e]) (ci', om_put i path fm)"
    proof -
      have look: "map_of (om_put i path fm) = map_of (map prod.swap (fs @ [e]))"
        using None old(1) by (auto simp: e map_add_def fun_eq_iff split: option.split)
      have "field_stored base (ci', om_put i path fm) j" for j
        using old(5) [of j] own
        by (cases "map_of fm j"; cases "j = i") (force simp: field_stored_def ci'_def nth_append)+
      moreover have "field_listed base (ci', om_put i path fm) r j" if "r < length (class_cells base)" for r j
        using old(6) [of r j] own None that p(2) len
        by (auto simp: field_listed_def ci'_def nth_list_update addField_def)
      moreover have "map m_id (class_cells ci') = map m_id (class_cells base)"
        unfolding old(4) [symmetric] using p(2) len by (simp add: ci'_def map_update list_update_same_conv)
      ultimately show ?thesis using look old(2,3) by (simp add: fields_of_def ci'_def)
    qed
    ultimately show ?thesis by blast
  qed
qed

lemma fields_file_tables:
  assumes "class_tables_ok base" and "TheFields base = []" and "\<forall>c \<in> set (class_cells base). m_fields_c c = []"
    and "\<forall>e \<in> set fs. class_entry e \<and> map_of (rev_map base) (field_class_name (fst e)) \<noteq> None"
  shows "\<exists>st. impl_read_fields_file_et2 (Some (fields_file fs)) base = Inr st \<and> fields_of base fs st"
proof -
  have "\<exists>st. foldR enter_field fs (base, []) = Inr st \<and> fields_of base fs st"
    using assms(4)
  proof (induction fs rule: rev_induct)
    case Nil
    then show ?case using assms(2,3) by (simp add: fields_of_def field_stored_def field_listed_def)
  next
    case (snoc e fs)
    then obtain st where st: "foldR enter_field fs (base, []) = Inr st" "fields_of base fs st" by auto
    then show ?case
      using enter_field_known [OF assms(1) st(2), of e] snoc.prems by (auto simp: foldR_append)
  qed
  then show ?thesis using read_fields_file [of fs base] assms(4) by simp
qed

section \<open>Property\<close>

text \<open>What the tables say of a field, and of a class and a field.\<close>

definition field_known :: "ClassInfo \<Rightarrow> u32 \<Rightarrow> (string \<times> u32) option" where
  "field_known ci i =
     (case map_of (TheFields ci) i of
        Some (Some f) \<Rightarrow>
          map_option (\<lambda>p. (m_name (field_cells ci ! f), m_id (class_cells ci ! p))) (m_class_f (field_cells ci ! f))
      | _ \<Rightarrow> None)"

definition class_has_field :: "ClassInfo \<Rightarrow> u32 \<Rightarrow> u32 \<Rightarrow> bool" where
  "class_has_field ci c i =
     (case map_of (TheClasses ci) c of
        Some (Some p) \<Rightarrow> map_of (m_fields_c (class_cells ci ! p)) i \<noteq> None
      | _ \<Rightarrow> False)"

lemma fields_of_meaning:
  assumes "class_tables_ok base" and "fields_of base fs (ci, fm)"
    and "\<forall>e \<in> set fs. map_of (rev_map base) (field_class_name (fst e)) \<noteq> None"
  shows "field_known ci i = map_option (\<lambda>path. (path, the (map_of (rev_map base) (field_class_name path)))) (map_of (map prod.swap fs) i)"
    and "class_has_field ci c i \<longleftrightarrow>
      (\<exists>path. map_of (map prod.swap fs) i = Some path \<and> map_of (rev_map base) (field_class_name path) = Some c)"
proof -
  have st: "map_of fm = map_of (map prod.swap fs)" "TheClasses ci = TheClasses base"
    "map m_id (class_cells ci) = map m_id (class_cells base)"
    using assms(2) by (simp_all add: fields_of_def)
  have len: "length (class_cells ci) = length (class_cells base)" using st(3) by (metis length_map)
  have ids: "m_id (class_cells ci ! p) = m_id (class_cells base ! p)" if "p < length (class_cells base)" for p
    using st(3) that len by (metis nth_map)
  have own: "\<exists>p d. map_of (rev_map base) (field_class_name path) = Some d \<and> owner base path = Some p \<and>
      map_of (TheClasses base) d = Some (Some p) \<and> p < length (class_cells base) \<and> m_id (class_cells base ! p) = d"
    if "map_of (map prod.swap fs) j = Some path" for j path
  proof -
    have "(path, j) \<in> set fs" using map_of_SomeD [OF that] by auto
    then obtain d where d: "map_of (rev_map base) (field_class_name path) = Some d" using assms(3) by force
    then obtain po where "map_of (TheClasses base) d = Some po" using assms(1) unfolding class_tables_ok_def by blast
    then obtain p where "map_of (TheClasses base) d = Some (Some p)" "p < length (class_cells base)"
        "m_id (class_cells base ! p) = d"
      using class_tables_okD [OF assms(1)] by metis
    then show ?thesis using d by (simp add: owner_def)
  qed
  have stored: "field_stored base (ci, fm) i" using assms(2) by (simp add: fields_of_def)
  show "field_known ci i = map_option (\<lambda>path. (path, the (map_of (rev_map base) (field_class_name path)))) (map_of (map prod.swap fs) i)"
  proof (cases "map_of (map prod.swap fs) i")
    case None then show ?thesis using stored by (simp add: field_stored_def field_known_def st(1))
  next
    case (Some path)
    then show ?thesis using stored own [OF Some] ids by (auto simp: field_stored_def field_known_def Field_new_def st(1))
  qed
  show "class_has_field ci c i \<longleftrightarrow>
      (\<exists>path. map_of (map prod.swap fs) i = Some path \<and> map_of (rev_map base) (field_class_name path) = Some c)"
  proof (cases "\<exists>p. map_of (TheClasses base) c = Some (Some p)")
    case True
    then obtain p where p: "map_of (TheClasses base) c = Some (Some p)" by blast
    obtain q where q: "q = p" "p < length (class_cells base)" "m_id (class_cells base ! p) = c"
      using class_tables_okD [OF assms(1) p] by auto
    have "field_listed base (ci, fm) p i" using assms(2) q(2) by (simp add: fields_of_def)
    then have "class_has_field ci c i \<longleftrightarrow> (\<exists>path. map_of (map prod.swap fs) i = Some path \<and> owner base path = Some p)"
      using p st(1,2) stored by (auto simp: class_has_field_def field_listed_def field_stored_def)
    moreover have "owner base path = Some p \<longleftrightarrow> map_of (rev_map base) (field_class_name path) = Some c"
      if "map_of (map prod.swap fs) i = Some path" for path
      using own [OF that] p q(3) by (metis option.inject)
    ultimately show ?thesis by blast
  next
    case False
    then have "\<not> class_has_field ci c i" using st(2) by (auto simp: class_has_field_def split: option.splits)
    moreover have "map_of (rev_map base) (field_class_name path) \<noteq> Some c" if "map_of (map prod.swap fs) i = Some path" for path
      using own [OF that] False by auto
    ultimately show ?thesis by blast
  qed
qed

text \<open>
  C30: The names files are read as written. From the start, a classes file and a fields file that
  list entries one on a line (with paths of fields whose class is listed, and a methods file that can be
  read) give tables in which every identifier of a field leads to the path of its first entry and to the
  identifier of the class named in that path, and a class holds exactly the fields whose path names it.
\<close>
theorem names_files_read:
  assumes "\<forall>e \<in> set es. class_entry e" and "\<forall>e \<in> set fs. class_entry e \<and> field_class_name (fst e) \<in> fst ` set es"
    and "impl_read_methods_file_et2 methods = Inr mm"
  shows "\<exists>ci. read_names_file_et2 (Some (class_file es)) (Some (fields_file fs)) methods ClassInfo_init = Inr ci \<and>
    (\<forall>i. field_known ci i =
       map_option (\<lambda>path. (path, the (map_of es (field_class_name path)))) (map_of (map prod.swap fs) i)) \<and>
    (\<forall>c i. class_has_field ci c i \<longleftrightarrow>
       (\<exists>path. map_of (map prod.swap fs) i = Some path \<and> map_of es (field_class_name path) = Some c))"
proof -
  let ?start = "unset_main_flag ClassInfo_init"
  obtain base where base: "impl_read_classes_file_et2 (Some (class_file es)) ?start = Inr base" "tables_of es base"
    using class_file_tables_from [OF assms(1) tables_of_start(2)] by blast
  then have ok: "class_tables_ok base" "map_of (rev_map base) = map_of es" "TheFields base = []"
    "\<forall>c \<in> set (class_cells base). m_fields_c c = []"
    by (simp_all add: tables_of_def)
  have known: "\<forall>e \<in> set fs. class_entry e \<and> map_of (rev_map base) (field_class_name (fst e)) \<noteq> None"
    using assms(2) by (auto simp: ok(2) map_of_eq_None_iff)
  obtain ci fm where st: "impl_read_fields_file_et2 (Some (fields_file fs)) base = Inr (ci, fm)" "fields_of base fs (ci, fm)"
    using fields_file_tables [OF ok(1,3,4) known] by auto
  have "read_names_file_et2 (Some (class_file es)) (Some (fields_file fs)) methods ClassInfo_init = Inr ci"
    using base st assms(3)
    by (simp add: read_names_file_et2_def read_names_file_no_mainfunc_et2_def impl_read_names_file_et2_def)
  then show ?thesis
    using fields_of_meaning [OF ok(1) st(2)] known unfolding ok(2) by blast
qed

definition demo_classes :: "(string \<times> u32) list" where
  "demo_classes = [(''A'', 1), (''B'', 2)]"

definition demo_fields :: "(string \<times> u32) list" where
  "demo_fields = [(''A/f'', 7), (''q/B/g'', 8), (''A/h'', 8)]"

text \<open>Two classes, and three lines of fields of which the last repeats an identifier.\<close>

lemma names_files_read_witness:
  "\<exists>ci. read_names_file_et2 (Some (class_file demo_classes)) (Some (fields_file demo_fields)) (Some []) ClassInfo_init = Inr ci \<and>
     field_known ci 7 = Some (''A/f'', 1) \<and> field_known ci 8 = Some (''q/B/g'', 2) \<and> field_known ci 9 = None \<and>
     class_has_field ci 1 7 \<and> class_has_field ci 2 8 \<and> \<not> class_has_field ci 1 8"
proof -
  have owners: "field_class_name ''A/f'' = ''A''" "field_class_name ''q/B/g'' = ''B''" "field_class_name ''A/h'' = ''A''"
    by code_simp+
  have "length (show_dec (7 :: u32)) = 1" "length (show_dec (8 :: u32)) = 1" "length (show_dec (1 :: u32)) = 1"
    "length (show_dec (2 :: u32)) = 1"
    by code_simp+
  then have classes: "\<forall>e \<in> set demo_classes. class_entry e"
    and fields: "\<forall>e \<in> set demo_fields. class_entry e \<and> field_class_name (fst e) \<in> fst ` set demo_classes"
    by (simp_all add: demo_classes_def demo_fields_def class_entry_def print_class_def LINESIZE_def owners)
  have "impl_read_methods_file_et2 (Some []) = Inr []" by code_simp
  from names_files_read [OF classes fields this] obtain ci where
    "read_names_file_et2 (Some (class_file demo_classes)) (Some (fields_file demo_fields)) (Some []) ClassInfo_init = Inr ci"
    "\<And>i. field_known ci i = map_option (\<lambda>path. (path, the (map_of demo_classes (field_class_name path))))
       (map_of (map prod.swap demo_fields) i)"
    "\<And>c i. class_has_field ci c i \<longleftrightarrow> (\<exists>path. map_of (map prod.swap demo_fields) i = Some path \<and>
       map_of demo_classes (field_class_name path) = Some c)" by blast
  then show ?thesis by (simp add: demo_classes_def demo_fields_def owners)
qed

end
