(* ===== verification/Simulation.thy ===== *)
theory Simulation
  imports Merlin Class_Files
begin

text \<open>
  The program (\<open>simulator/simulator.cpp\<close>, from line 620 on): the table of all objects, the
  dispatch on the command line, and the runs of the four commands. The files are an argument, a
  map from names to contents (None: \<open>fopen\<close> fails); standard input is an argument. A result \<open>Inr\<close> is
  the state in which \<open>main\<close> returns or calls \<open>exit(0)\<close>; other exits are values \<open>Exit\<close> of the faults. Of
  the output the table of objects and the lines of the command \<open>CLASS\<close> are modelled, not the banners of a run,
  the messages and the version strings that the build generates.
\<close>

section \<open>Kinds of edge sources\<close>

datatype EdgeSrcType = STABLE | SERIAL_STABLE | UNSTABLE | UNKNOWN_SRC

fun edgesrctype2str :: "EdgeSrcType \<Rightarrow> string" where
  "edgesrctype2str STABLE = ''STABLE''"
| "edgesrctype2str SERIAL_STABLE = ''SERIAL_STABLE''"
| "edgesrctype2str UNSTABLE = ''UNSTABLE''"
| "edgesrctype2str UNKNOWN_SRC = ''UNKNOWN''"

fun edgesrctype2shortstr :: "EdgeSrcType \<Rightarrow> string" where
  "edgesrctype2shortstr STABLE = ''S''"
| "edgesrctype2shortstr SERIAL_STABLE = ''ST''"
| "edgesrctype2shortstr UNSTABLE = ''U''"
| "edgesrctype2shortstr UNKNOWN_SRC = ''X''"

section \<open>The table of objects\<close>

text \<open>The column names are set up and never written.\<close>

definition object_header :: "string list" where
  "object_header =
     [''objId'', ''createTime'', ''deathTime'', ''size'', ''type'',
      ''diedBy'', ''lastUpdate'', ''subCause'', ''clumpKind'',
      ''deathContext1'', ''deathContext2'', ''firstNonJavaLibMethod'',
      ''deatchContext_height'', ''allocContext2'', ''allocContextType'',
      ''createTime_alloc'', ''deathTime_alloc'',
      ''allocSiteName'', ''stability'', ''last_actual_timestamp'',
      ''nonJavaLibAllocSiteName'']"

definition dgroup_kind :: "Object \<Rightarrow> string" where
  "dgroup_kind obj =
     (case Object_getKeyType obj of
        CYCLE \<Rightarrow> ''CYC''
      | CYCLEKEY \<Rightarrow> ''CYCKEY''
      | DAG \<Rightarrow> ''DAG''
      | DAGKEY \<Rightarrow> ''DAGKEY''
      | UNKNOWN_KEYTYPE \<Rightarrow> ''CYC'')"

definition died_by :: "Object \<Rightarrow> string" where
  "died_by obj =
     (if Object_getDiedByStackFlag obj then ''S''
      else if Object_getDiedByHeapFlag obj then (if Object_wasLastUpdateFromStatic obj then ''G'' else ''H'')
      else ''E'')"

definition stability_code :: "Object \<Rightarrow> string" where
  "stability_code obj =
     (case Object_getRefTargetType obj of SINGLY_OWNED \<Rightarrow> ''S'' | MULTI_OWNED \<Rightarrow> ''M'' | UNKNOWN_REFTYPE \<Rightarrow> ''X'')"

text \<open>The fields of a row, in the order in which they are written with commas between them.\<close>

definition object_fields :: "u32 \<Rightarrow> Object \<Rightarrow> string list result" where
  "object_fields final_time obj =
     bindR (getDeathContextSiteName 1 obj) (\<lambda>death_method_l1.
     bindR (getDeathContextSiteName 2 obj) (\<lambda>death_method_l2.
     let dtime = Object_getDeathTime obj in
     Inr [show_dec (Object_getId obj), show_dec (Object_getCreateTime obj),
          show_dec (if 0 < dtime then dtime else final_time), show_dec (Object_getSize obj), Object_getType obj,
          died_by obj, (if wasLastUpdateNull obj then ''NULL'' else ''VAL''),
          (if Object_getDiedByStackFlag obj then (if Object_wasPointedAtByHeap obj then ''SHEAP'' else ''SONLY'')
           else ''H''),
          dgroup_kind obj, death_method_l1, death_method_l2, Object_get_nonJavaLib_last_action_context obj,
          ''TODO'', ''X'', show_dec (Object_getCreateTimeAlloc obj), show_dec (Object_getDeathTimeAlloc obj),
          Object_getAllocSiteName obj, stability_code obj, show_dec (Object_getLastTimestamp obj),
          Object_getNonJavaLibAllocSiteName obj]))"

definition object_row :: "u32 \<Rightarrow> Object \<Rightarrow> string result" where
  "object_row final_time obj = bindR (object_fields final_time obj) (\<lambda>fs. Inr (join CHR '','' fs))"

text \<open>The lines of the file: the rows between two banners; the sets of keys that are passed along are not used.\<close>

definition object_info_start :: string where
  "object_info_start = ''---------------[ OBJECT INFO ]--------------------------------------------------''"

definition object_info_end :: string where
  "object_info_end = ''---------------[ OBJECT INFO END ]----------------------------------------------''"

definition output_all_objects2 :: "HeapState \<Rightarrow> u32 \<Rightarrow> string list result" where
  "output_all_objects2 h final_time =
     bindR (foldR (\<lambda>rows (i, p). bindR (deref (obj_cells h) p) (\<lambda>obj.
              bindR (object_row final_time obj) (\<lambda>row. Inr (rows @ [row])))) (m_objects h) [object_info_start]) (\<lambda>rows.
     Inr (rows @ [object_info_end]))"

section \<open>The commands\<close>

type_synonym files = "string \<Rightarrow> string option"

definition trace_delimiter :: "string \<Rightarrow> DELIMITER_TYPE result" where
  "trace_delimiter trace_version =
     (if trace_version = ''QTR'' then Inr E_SPACE
      else if trace_version = ''ET'' then Inr E_SPACE
      else Inl (Exit 2))"

text \<open>The result of \<open>verify_trace\<close> is dropped. The output base name and the cycle option are not used.\<close>

definition sim_main ::
  "environment \<Rightarrow> ((obj_ptr \<Rightarrow> obj_ptr \<Rightarrow> bool) \<Rightarrow> obj_ptr list \<Rightarrow> obj_ptr list) \<Rightarrow> ExecMode \<Rightarrow> files \<Rightarrow> string \<Rightarrow>
   string list \<Rightarrow> Sim result" where
  "sim_main env std_sort cckind files stdin argv =
     bindR (trace_delimiter (argv ! 10)) (\<lambda>delimiter.
     let s = Sim_init cckind ClassInfo_init;
         s = (if argv ! 7 = ''OBJDEBUG'' then s\<lparr>sim_heap := enableObjectDebug (sim_heap s)\<rparr> else s)
     in bindR (read_names_file_et2 (files (argv ! 2)) (files (argv ! 3)) (files (argv ! 4)) (sim_classes s)) (\<lambda>ci.
        bindR (read_trace_file_part1 env stdin delimiter (s\<lparr>sim_classes := ci\<rparr>)) (\<lambda>s.
        bindR (apply_merlin std_sort (sim_trace s) (sim_heap s)) (\<lambda>h.
        Inr (s\<lparr>sim_heap := h\<rparr>)))))"

text \<open>What \<open>class_main\<close> prints: a line for every name of a class.\<close>

definition class_main :: "files \<Rightarrow> string list \<Rightarrow> (string list \<times> ClassInfo) result" where
  "class_main files argv =
     bindR (impl_read_classes_file_et2 (files (argv ! 2)) ClassInfo_init) (\<lambda>ci.
     Inr (map (\<lambda>(name, i). ''CLASS,'' @ name @ '','' @ show_dec i) (rev_map ci), ci))"

definition fields_main :: "files \<Rightarrow> string list \<Rightarrow> ClassInfo result" where
  "fields_main files argv =
     bindR (impl_read_fields_file_et2 (files (argv ! 2)) ClassInfo_init) (\<lambda>(ci, fields_map). Inr ci)"

definition methods_main :: "files \<Rightarrow> string list \<Rightarrow> ClassInfo result" where
  "methods_main files argv = Inr ClassInfo_init"

text \<open>What a run leaves: the state of the simulation, the printed classes, or the class tables.\<close>

datatype outcome = Simulated Sim | Classes "string list" ClassInfo | Tables ClassInfo

definition print_usage :: "outcome result" where
  "print_usage = Inl (Exit 1)"

definition main ::
  "environment \<Rightarrow> ((obj_ptr \<Rightarrow> obj_ptr \<Rightarrow> bool) \<Rightarrow> obj_ptr list \<Rightarrow> obj_ptr list) \<Rightarrow> ExecMode \<Rightarrow> files \<Rightarrow> string \<Rightarrow>
   string list \<Rightarrow> outcome result" where
  "main env std_sort cckind files stdin argv =
     (let argc = length argv in
      if argc = 12 \<and> argv ! 1 = ''SIM'' then map_sum id Simulated (sim_main env std_sort cckind files stdin argv)
      else if argc = 4 then
        (if argv ! 1 = ''CLASS'' then map_sum id (\<lambda>(out, ci). Classes out ci) (class_main files argv)
         else if argv ! 1 = ''FIELDS'' then map_sum id Tables (fields_main files argv)
         else if argv ! 1 = ''METHODS'' then map_sum id Tables (methods_main files argv)
         else print_usage)
      else print_usage)"

section \<open>Reading into the table\<close>

lemma split_join_fields:
  "xs \<noteq> [] \<Longrightarrow> last xs \<noteq> [] \<Longrightarrow> \<forall>x \<in> set xs. d \<notin> set x \<Longrightarrow> split (join d xs) d = xs"
proof (induction xs rule: join.induct)
  case (2 d x)
  then show ?case by (simp add: split_run)
next
  case (3 d x y ys)
  then show ?case by (simp add: split_cons)
qed simp

lemma show_dec_no_comma: "CHR '','' \<notin> set (show_dec n)"
  using show_base_digits [of "unat n"] no_comma by (auto simp: show_dec_def)

text \<open>The texts of an object that a row repeats, and when they keep the row readable.\<close>

definition row_texts :: "Object \<Rightarrow> string list" where
  "row_texts obj =
     [m_type obj, m_deathsite_name obj, m_deathsite_name_l2 obj, m_nonjavalib_last_action_context obj,
      m_allocsite_name obj, m_nonjavalib_allocsite_name obj]"

definition readable :: "Object \<Rightarrow> bool" where
  "readable obj \<longleftrightarrow> (\<forall>x \<in> set (row_texts obj). CHR '','' \<notin> set x) \<and> m_nonjavalib_allocsite_name obj \<noteq> []"

lemma object_fields_readable:
  assumes "readable obj"
  shows "\<exists>fs. object_fields t obj = Inr fs \<and> object_row t obj = Inr (join CHR '','' fs) \<and> length fs = 20 \<and>
    fs ! 0 = show_dec (m_id_o obj) \<and> fs ! 18 = show_dec (m_last_timestamp obj) \<and> split (join CHR '','' fs) CHR '','' = fs"
proof -
  obtain fs where fs: "object_fields t obj = Inr fs" "length fs = 20" "fs ! 0 = show_dec (m_id_o obj)"
    "fs ! 18 = show_dec (m_last_timestamp obj)" "last fs = m_nonjavalib_allocsite_name obj"
    "\<forall>x \<in> set fs. CHR '','' \<notin> set x"
    using assms
    by (auto simp: object_fields_def getDeathContextSiteName_def Let_def readable_def row_texts_def show_dec_no_comma
        died_by_def dgroup_kind_def stability_code_def split: KeyType.split ObjectRefType.split)
  then have "split (join CHR '','' fs) CHR '','' = fs"
    using assms by (intro split_join_fields) (auto simp: readable_def)
  with fs show ?thesis
    by (simp add: object_row_def)
qed

text \<open>
  C27: The table of objects can be read back. When the type, site and context texts of the objects are
  free of commas, \<open>output_all_objects2\<close> writes, between its two banners, one row for every object of the map, in the order
  of their identifiers; the row splits at its commas into 20 fields, the first the object's
  identifier and the nineteenth its last time stamp. The column names that the function sets up are
  21: they do not fit the rows.
\<close>
theorem objects_table:
  assumes "heap_ok h" and "\<forall>obj \<in> set (obj_cells h). readable obj"
  shows "\<exists>rows. output_all_objects2 h t = Inr (object_info_start # rows @ [object_info_end]) \<and> length rows = length (m_objects h) \<and>
    (\<forall>j < length rows. \<exists>obj. obj = obj_cells h ! snd (m_objects h ! j) \<and>
       object_fields t obj = Inr (split (rows ! j) CHR '','') \<and> length (split (rows ! j) CHR '','') = 20 \<and>
       split (rows ! j) CHR '','' ! 0 = show_dec (fst (m_objects h ! j)) \<and>
       split (rows ! j) CHR '','' ! 18 = show_dec (m_last_timestamp obj)) \<and>
    length object_header = 21"
proof -
  define row where "row = (\<lambda>p. join CHR '','' (case object_fields t (obj_cells h ! p) of Inl _ \<Rightarrow> [] | Inr fs \<Rightarrow> fs))"
  have row: "object_row t (obj_cells h ! p) = Inr (row p)" "object_fields t (obj_cells h ! p) = Inr (split (row p) CHR '','')"
    "length (split (row p) CHR '','') = 20" "split (row p) CHR '','' ! 0 = show_dec (m_id_o (obj_cells h ! p))"
    "split (row p) CHR '','' ! 18 = show_dec (m_last_timestamp (obj_cells h ! p))" if "p < length (obj_cells h)" for p
  proof -
    have "readable (obj_cells h ! p)"
      using assms(2) that by simp
    then show "object_row t (obj_cells h ! p) = Inr (row p)" "object_fields t (obj_cells h ! p) = Inr (split (row p) CHR '','')"
      "length (split (row p) CHR '','') = 20" "split (row p) CHR '','' ! 0 = show_dec (m_id_o (obj_cells h ! p))"
      "split (row p) CHR '','' ! 18 = show_dec (m_last_timestamp (obj_cells h ! p))"
      using object_fields_readable [of "obj_cells h ! p" t] by (auto simp: row_def)
  qed
  have entries: "p < length (obj_cells h) \<and> m_id_o (obj_cells h ! p) = i" if "(i, p) \<in> set (m_objects h)" for i p
    using assms(1) that by (simp add: heap_ok_def om_wf_lookup)
  have "foldR (\<lambda>rows (i, p). bindR (deref (obj_cells h) p) (\<lambda>obj. bindR (object_row t obj) (\<lambda>row. Inr (rows @ [row])))) os acc =
      Inr (acc @ map (\<lambda>(i, p). row p) os)" if "set os \<subseteq> set (m_objects h)" for os acc
    using that
  proof (induction os arbitrary: acc)
    case (Cons e os)
    obtain i p where e: "e = (i, p)" by (cases e)
    then have "p < length (obj_cells h)"
      using Cons.prems entries by auto
    with Cons row(1) show ?case
      by (simp add: e deref_valid)
  qed simp
  then have "output_all_objects2 h t = Inr (object_info_start # map (\<lambda>(i, p). row p) (m_objects h) @ [object_info_end])"
    by (simp add: output_all_objects2_def)
  moreover have "\<exists>obj. obj = obj_cells h ! snd (m_objects h ! j) \<and>
       object_fields t obj = Inr (split (row p) CHR '','') \<and> length (split (row p) CHR '','') = 20 \<and>
       split (row p) CHR '','' ! 0 = show_dec i \<and> split (row p) CHR '','' ! 18 = show_dec (m_last_timestamp obj)"
    if "j < length (m_objects h)" "m_objects h ! j = (i, p)" for j i p
    using entries [of i p] nth_mem [OF that(1)] row [of p] that(2) by simp
  ultimately show ?thesis
    by (intro exI [of _ "map (\<lambda>(i, p). row p) (m_objects h)"])
      (auto simp: object_header_def split: prod.split)
qed

section \<open>Runs\<close>

text \<open>The state in which the trace is read.\<close>

definition sim_start :: "ExecMode \<Rightarrow> bool \<Rightarrow> ClassInfo \<Rightarrow> Sim" where
  "sim_start cckind obj_debug ci =
     (if obj_debug then Sim_init cckind ClassInfo_init\<lparr>sim_heap := enableObjectDebug (sim_heap (Sim_init cckind ClassInfo_init))\<rparr>
      else Sim_init cckind ClassInfo_init)\<lparr>sim_classes := ci\<rparr>"

lemma sim_start_ok:
  assumes "sites_named ci"
  shows "sim_ok (sim_start cckind obj_debug ci) \<and> machine_clocked (machine_of (sim_start cckind obj_debug ci))"
proof -
  have "reading_heap (enableObjectDebug HeapState_init)"
    by (rule reading_heap_step [OF reading_heap_init step_debug])
      (auto simp: enableObjectDebug_def HeapState_init_def heap_bytes_def)
  then have "reading_heap (sim_heap (sim_start cckind obj_debug ci))"
    using reading_heap_init by (simp add: sim_start_def Sim_init_def)
  then show ?thesis
    using assms
    by (simp add: sim_ok_def machine_clocked_def machine_of_def sim_start_def Sim_init_def ExecState_new_def NowUp_def
        HeapState_init_def heap_objects_def enableObjectDebug_def)
qed

lemma sim_main_steps:
  "sim_main env std_sort cckind files stdin argv =
     bindR (trace_delimiter (argv ! 10)) (\<lambda>delimiter.
     bindR (read_names_file_et2 (files (argv ! 2)) (files (argv ! 3)) (files (argv ! 4)) ClassInfo_init) (\<lambda>ci.
     bindR (read_trace_file_part1 env stdin delimiter (sim_start cckind (argv ! 7 = ''OBJDEBUG'') ci)) (\<lambda>s.
     bindR (apply_merlin std_sort (sim_trace s) (sim_heap s)) (\<lambda>h. Inr (s\<lparr>sim_heap := h\<rparr>)))))"
  by (simp add: sim_main_def sim_start_def Sim_init_def Let_def)

lemma start_after_names:
  assumes "read_names_file_et2 cf ff mf ClassInfo_init = Inr ci"
  shows "sim_ok (sim_start cckind obj_debug ci) \<and> machine_clocked (machine_of (sim_start cckind obj_debug ci))"
proof -
  have "TheAllocSites ci = []"
    using names_file_sites [OF assms] by (simp add: ClassInfo_init_def)
  then show ?thesis
    by (intro sim_start_ok) (simp add: sites_named_def)
qed

lemma reading_merlin:
  assumes "reading_heap h"
  shows "merlin_heap h" and "p \<in> heap_ptrs h \<Longrightarrow> merlin_time h p = m_last_timestamp (obj_cells h ! p)"
proof -
  have ok: "heap_ok h"
    using assms by (rule reading_heap_ok)
  have none: "p < length (obj_cells h) \<Longrightarrow> m_fields (obj_cells h ! p) = []" for p
    using assms by (simp add: reading_heap_def)
  have ptr: "p \<in> heap_ptrs h \<Longrightarrow> p < length (obj_cells h)" for p
    using ok by (auto simp: heap_ptrs_def heap_ok_def om_wf_lookup)
  have out: "(p, q) \<notin> refs h" if "p \<in> heap_ptrs h" for p q
    using none [OF ptr [OF that]] by (simp add: refs_def)
  have "edges_owned h"
    using none by (auto simp: edges_owned_def field_edges_def)
  moreover have "\<forall>obj \<in> set (obj_cells h). om_wf (m_fields obj)"
    using assms by (simp add: reading_heap_def)
  ultimately show "merlin_heap h"
    using ok out by (auto simp: merlin_heap_def)
  show "merlin_time h p = m_last_timestamp (obj_cells h ! p)" if p: "p \<in> heap_ptrs h"
  proof (rule merlin_time_eq [OF p rtrancl_refl])
    fix q
    assume "q \<in> heap_ptrs h" "(q, p) \<in> (refs h)\<^sup>*"
    then have "q = p"
      using out by (auto elim: converse_rtranclE)
    then show "m_last_timestamp (obj_cells h ! q) \<le> m_last_timestamp (obj_cells h ! p)" by simp
  qed
qed

lemma merlin_settles:
  assumes "sorting std_sort" and "reading_heap h0"
  shows "\<exists>h. apply_merlin std_sort tr h0 = Inr h \<and> edge_cells h = [] \<and> m_objects h = m_objects h0 \<and>
    (\<forall>i p. map_of (m_objects h0) i = Some p \<longrightarrow>
       obj_cells h ! p = setDeathTime (m_last_timestamp (obj_cells h0 ! p)) (obj_cells h0 ! p))"
proof -
  note merlin = reading_merlin [OF assms(2)]
  obtain h where h: "apply_merlin std_sort tr h0 = Inr h" "same_shape h0 h" "cells_inv h0 (heap_ptrs h0) {} h"
    using apply_merlin_effect [OF assms(1) merlin(1), of tr] by auto
  have "obj_cells h ! p = setDeathTime (m_last_timestamp (obj_cells h0 ! p)) (obj_cells h0 ! p)"
    if "map_of (m_objects h0) i = Some p" for i p
  proof -
    have ptr: "p \<in> heap_ptrs h0"
      using map_of_SomeD [OF that] by (force simp: heap_ptrs_def)
    then have "obj_cells h ! p = settled h0 p"
      using h(3) heap_okD(1) [OF reading_heap_ok [OF assms(2)] that] by (simp add: cells_inv_def)
    then show ?thesis
      by (simp add: settled_def merlin(2) [OF ptr] setLastTimestamp_def setDeathTime_def)
  qed
  moreover have "edge_cells h = []"
    using same_shapeD(2) [OF h(2)] assms(2) by (simp add: reading_heap_def)
  ultimately show ?thesis
    using h(1) same_shapeD(3) [OF h(2)] by auto
qed

text \<open>
  C7: What a simulation leaves. When the command \<open>SIM\<close> returns, whatever its files and its trace (of
  fewer than \<open>2 ^ 32\<close> records), the check of the trace has passed, there is no edge, and every object
  of the heap has its own last time stamp as its death time, which is not after the final clock;
  no object is marked dead.
\<close>
theorem simulation_death_times:
  assumes "sorting std_sort" and "sim_main env std_sort cckind files stdin argv = Inr s"
    and "length (sim_trace s) < 2 ^ 32"
  shows "verify_trace (sim_trace s) \<and> edge_cells (sim_heap s) = [] \<and>
    (\<forall>i p obj. map_of (m_objects (sim_heap s)) i = Some p \<longrightarrow> obj = obj_cells (sim_heap s) ! p \<longrightarrow>
       m_id_o obj = i \<and> m_deathTime obj = m_last_timestamp obj \<and> m_deathTime obj \<le> NowUp (sim_exec s) \<and> \<not> m_deadFlag obj)"
proof -
  obtain d ci s1 h where run: "read_names_file_et2 (files (argv ! 2)) (files (argv ! 3)) (files (argv ! 4)) ClassInfo_init = Inr ci"
    "read_trace_file_part1 env stdin d (sim_start cckind (argv ! 7 = ''OBJDEBUG'') ci) = Inr s1"
    "apply_merlin std_sort (sim_trace s1) (sim_heap s1) = Inr h" "s = s1\<lparr>sim_heap := h\<rparr>"
    using assms(2) unfolding sim_main_steps by (auto simp: fault_simps)
  have s1: "sim_ok s1" "machine_clocked (machine_of s1)"
    using clocked_lines.lines_keep [of "sim_start cckind (argv ! 7 = ''OBJDEBUG'') ci" env _ s1]
      start_after_names [OF run(1)] run(2) unfolding read_trace_file_part1_def by blast+
  have reading: "reading_heap (sim_heap s1)"
    using s1(1) by (simp add: sim_ok_def)
  obtain h' where h': "apply_merlin std_sort (sim_trace s1) (sim_heap s1) = Inr h'" "edge_cells h' = []"
    "m_objects h' = m_objects (sim_heap s1)"
    "\<And>i p. map_of (m_objects (sim_heap s1)) i = Some p \<Longrightarrow>
       obj_cells h' ! p = setDeathTime (m_last_timestamp (obj_cells (sim_heap s1) ! p)) (obj_cells (sim_heap s1) ! p)"
    using merlin_settles [OF assms(1) reading, of "sim_trace s1"] by blast
  with run(3) have h: "h = h'" by simp
  have clock: "sorted (map get_ET_timestamp (sim_trace s1))"
    "\<And>i sz x. heap_objects (sim_heap s1) i = Some (sz, x) \<Longrightarrow> x \<le> NowUp (sim_exec s1)"
    using s1(2) assms(3) run(4) by (auto simp: machine_clocked_def)
  have "m_id_o (obj_cells h ! p) = i \<and> m_deathTime (obj_cells h ! p) = m_last_timestamp (obj_cells h ! p) \<and>
      m_last_timestamp (obj_cells h ! p) \<le> NowUp (sim_exec s1) \<and> \<not> m_deadFlag (obj_cells h ! p)"
    if "map_of (m_objects h) i = Some p" for i p
  proof -
    have i: "map_of (m_objects (sim_heap s1)) i = Some p"
      using that by (simp add: h h'(3))
    note p = heap_okD [OF reading_heap_ok [OF reading] i]
    have "m_last_timestamp (obj_cells (sim_heap s1) ! p) \<le> NowUp (sim_exec s1)"
      using clock(2) [of i] i by (simp add: heap_objects_def)
    moreover have "\<not> m_deadFlag (obj_cells (sim_heap s1) ! p)"
      using reading p(1) by (simp add: reading_heap_def)
    ultimately show ?thesis
      using p(2) h'(4) [OF i] by (simp add: h setDeathTime_def)
  qed
  moreover have "edge_cells h = []"
    by (simp add: h h'(2))
  ultimately show ?thesis
    unfolding run(4) verify_trace_sorted using clock(1) by simp
qed

text \<open>A command line and a small simulation: one class, no field, no method, one method entry.\<close>

definition demo_files :: files where
  "demo_files = [''c'' \<mapsto> ''A,1'', ''f'' \<mapsto> '''', ''m'' \<mapsto> '''']"

definition demo_argv :: "string list" where
  "demo_argv = [''simulator'', ''SIM'', ''c'', ''f'', ''m'', ''out'', ''CYCLE'', ''OBJDEBUG'', ''Main'', ''main'', ''QTR'', ''NODEBUG'']"

lemma simulation_death_times_witness:
  "\<exists>s. sim_main demo_env sort_by StackOnly demo_files ''M 1 7 1'' demo_argv = Inr s \<and> verify_trace (sim_trace s) \<and>
     edge_cells (sim_heap s) = [] \<and> length (sim_trace s) = 1"
proof -
  have "map_sum id (\<lambda>s. length (sim_trace s)) (sim_main demo_env sort_by StackOnly demo_files ''M 1 7 1'' demo_argv) = Inr 1"
    by code_simp
  then obtain s where s: "sim_main demo_env sort_by StackOnly demo_files ''M 1 7 1'' demo_argv = Inr s" "length (sim_trace s) = 1"
    by (cases "sim_main demo_env sort_by StackOnly demo_files ''M 1 7 1'' demo_argv") auto
  with simulation_death_times [OF insertion.sorting_axioms s(1)] show ?thesis
    by simp
qed

definition demo_table :: HeapState where
  "demo_table = HeapState_init\<lparr>obj_cells := [demo_object 7 4 [], demo_object 8 2 []], m_objects := [(7, 0), (8, 1)], m_liveset := {0, 1}\<rparr>"

lemma objects_table_witness:
  "\<exists>rows. output_all_objects2 demo_table 9 = Inr (object_info_start # rows @ [object_info_end]) \<and> length rows = 2 \<and> split (rows ! 1) CHR '','' ! 0 = ''8''"
proof -
  have "heap_ok demo_table"
    by (auto simp: heap_ok_def demo_table_def om_wf_def less_Suc_eq split: if_splits)
  moreover have "\<forall>obj \<in> set (obj_cells demo_table). readable obj"
    by (simp add: demo_table_def demo_object_def Object_new_def readable_def row_texts_def)
  ultimately obtain rows where "output_all_objects2 demo_table 9 = Inr (object_info_start # rows @ [object_info_end])" "length rows = 2"
      "split (rows ! 1) CHR '','' ! 0 = show_dec (8 :: u32)"
    using objects_table [of demo_table 9] by (auto simp: demo_table_def)
  moreover have "show_dec (8 :: u32) = ''8''"
    by code_simp
  ultimately show ?thesis by auto
qed

section \<open>How a run ends\<close>

definition known_command :: "string list \<Rightarrow> bool" where
  "known_command argv \<longleftrightarrow> length argv = 12 \<and> argv ! 1 = ''SIM'' \<or>
     length argv = 4 \<and> argv ! 1 \<in> {''CLASS'', ''FIELDS'', ''METHODS''}"

lemma fields_file_faults:
  assumes "class_tables_ok ci" and "impl_read_fields_file_et2 f ci = Inl e"
  shows "e = Out_Of_Bounds \<or> e = Bad_Conversion \<or> f = None \<and> e = Exit (-1)"
  using assms field_lines.lines_fault [of "(ci, [])" _ e] fields_line_fault
  by (fastforce simp: impl_read_fields_file_et2_def split: option.splits)

lemma classes_ok_unset: "classes_ok (unset_main_flag ClassInfo_init)"
  by (simp add: classes_ok_def class_tables_ok_def unset_main_flag_def ClassInfo_init_def om_wf_def)

lemma names_faults:
  assumes "read_names_file_et2 cf ff mf ClassInfo_init = Inl e"
  shows "e \<in> {Out_Of_Bounds, Bad_Conversion, Null_Pointer} \<or> (cf = None \<or> ff = None \<or> mf = None) \<and> e = Exit (-1)"
proof -
  let ?files = "bindR (impl_read_classes_file_et2 cf (unset_main_flag ClassInfo_init)) (impl_read_fields_file_et2 ff)"
  have "read_names_file_et2 cf ff mf ClassInfo_init =
      bindR ?files (\<lambda>(ci, _). bindR (impl_read_methods_file_et2 mf) (\<lambda>_. Inr ci))"
    by (cases "impl_read_classes_file_et2 cf (unset_main_flag ClassInfo_init)")
      (auto simp: read_names_file_et2_def read_names_file_no_mainfunc_et2_def impl_read_names_file_et2_def)
  with assms consider "?files = Inl e" | "impl_read_methods_file_et2 mf = Inl e"
    by (auto simp: bindR_Inl_iff split: prod.splits)
  then show ?thesis
    by cases (use class_files_faults [OF classes_ok_unset] methods_file_faults in blast)+
qed

lemma after_names_faults:
  assumes "sorting std_sort" and "read_names_file_et2 (files (argv ! 2)) (files (argv ! 3)) (files (argv ! 4)) ClassInfo_init = Inr ci"
    and "trace_delimiter (argv ! 10) = Inr d" and "sim_main env std_sort cckind files stdin argv = Inl e"
  shows "e \<in> {Assertion_Failed, Bad_Conversion, Out_Of_Bounds, Invalid_Argument, Out_Of_Range}"
proof -
  note ok = start_after_names [OF assms(2), THEN conjunct1, of cckind "argv ! 7 = ''OBJDEBUG''"]
  consider "read_trace_file_part1 env stdin d (sim_start cckind (argv ! 7 = ''OBJDEBUG'') ci) = Inl e"
    | s where "read_trace_file_part1 env stdin d (sim_start cckind (argv ! 7 = ''OBJDEBUG'') ci) = Inr s"
        "apply_merlin std_sort (sim_trace s) (sim_heap s) = Inl e"
    using assms(2-4) unfolding sim_main_steps by (auto simp: bindR_Inl_iff)
  then show ?thesis
  proof cases
    case 1
    from read_faults [OF ok this] show ?thesis .
  next
    case (2 s)
    have "sim_ok s"
      using read_ok [OF 2(1)] start_after_names [OF assms(2)] by blast
    then have "merlin_heap (sim_heap s)"
      using reading_merlin(1) by (simp add: sim_ok_def)
    from apply_merlin_effect [OF assms(1) this] show ?thesis
      using 2(2) by (metis Inl_Inr_False)
  qed
qed

lemma sim_main_faults:
  assumes "sorting std_sort" and "sim_main env std_sort cckind files stdin argv = Inl e"
  shows "e \<in> {Exit 2, Exit (-1), Null_Pointer, Out_Of_Bounds, Bad_Conversion, Assertion_Failed, Invalid_Argument, Out_Of_Range}"
    and "argv ! 10 \<in> {''QTR'', ''ET''} \<Longrightarrow> e \<noteq> Exit 2"
proof -
  consider "argv ! 10 \<notin> {''QTR'', ''ET''}" "e = Exit 2"
    | d where "trace_delimiter (argv ! 10) = Inr d"
        "read_names_file_et2 (files (argv ! 2)) (files (argv ! 3)) (files (argv ! 4)) ClassInfo_init = Inl e"
    | d ci where "trace_delimiter (argv ! 10) = Inr d"
        "read_names_file_et2 (files (argv ! 2)) (files (argv ! 3)) (files (argv ! 4)) ClassInfo_init = Inr ci"
    using assms(2) unfolding sim_main_steps by (auto simp: bindR_Inl_iff trace_delimiter_def split: if_splits)
  then have "e \<in> {Exit 2, Exit (-1), Null_Pointer, Out_Of_Bounds, Bad_Conversion, Assertion_Failed, Invalid_Argument, Out_Of_Range} \<and>
      (e = Exit 2 \<longrightarrow> argv ! 10 \<notin> {''QTR'', ''ET''})"
  proof cases
    case 1
    then show ?thesis by simp
  next
    case 2
    from names_faults [OF 2(2)] show ?thesis by auto
  next
    case 3
    from after_names_faults [OF assms(1) 3(2,1) assms(2)] show ?thesis by auto
  qed
  then show "e \<in> {Exit 2, Exit (-1), Null_Pointer, Out_Of_Bounds, Bad_Conversion, Assertion_Failed, Invalid_Argument, Out_Of_Range}"
    and "argv ! 10 \<in> {''QTR'', ''ET''} \<Longrightarrow> e \<noteq> Exit 2" by blast+
qed

text \<open>
  Whether the run stops at a file that cannot be opened: \<open>SIM\<close> opens the classes, the fields and the
  methods file in this order, each after it has read the one before.
\<close>

definition unopened :: "files \<Rightarrow> string list \<Rightarrow> bool" where
  "unopened files argv \<longleftrightarrow>
     (if argv ! 1 = ''SIM'' then
        files (argv ! 2) = None \<or>
        (case impl_read_classes_file_et2 (files (argv ! 2)) (unset_main_flag ClassInfo_init) of
           Inl _ \<Rightarrow> False
         | Inr ci \<Rightarrow> files (argv ! 3) = None \<or> \<not> isl (impl_read_fields_file_et2 (files (argv ! 3)) ci) \<and> files (argv ! 4) = None)
      else argv ! 1 \<noteq> ''METHODS'' \<and> files (argv ! 2) = None)"

lemma classes_file_exit:
  assumes "classes_ok ci"
  shows "impl_read_classes_file_et2 f ci = Inl (Exit (-1)) \<longleftrightarrow> f = None"
  using class_lines.lines_fault [OF assms, of _ "Exit (-1)"] classes_line_fault
  by (fastforce simp: impl_read_classes_file_et2_def split: option.splits)

lemma classes_file_faults:
  assumes "impl_read_classes_file_et2 f ClassInfo_init = Inl e"
  shows "e = Out_Of_Bounds \<or> e = Bad_Conversion \<or> f = None \<and> e = Exit (-1)"
  using assms class_lines.lines_fault [OF classes_ok_init, of _ e] classes_line_fault
  by (fastforce simp: impl_read_classes_file_et2_def split: option.splits)

lemma fields_file_exit:
  assumes "class_tables_ok ci"
  shows "impl_read_fields_file_et2 f ci = Inl (Exit (-1)) \<longleftrightarrow> f = None"
  using fields_file_faults [OF assms, of f "Exit (-1)"] by (auto simp: impl_read_fields_file_et2_def)

lemma methods_file_exit: "impl_read_methods_file_et2 f = Inl (Exit (-1)) \<longleftrightarrow> f = None"
  using methods_file_faults [of f "Exit (-1)"] by (auto simp: impl_read_methods_file_et2_def)

lemma reader_exits:
  assumes "\<And>e. r = Inl e \<Longrightarrow> e = Out_Of_Bounds \<or> e = Bad_Conversion \<or> Q \<and> e = Exit (-1)"
  shows "r \<noteq> Inl (Exit 1) \<and> r \<noteq> Inl (Exit 2) \<and> (\<forall>e. r = Inl e \<longrightarrow>
    e \<in> {Exit 1, Exit 2, Exit (-1), Null_Pointer, Out_Of_Bounds, Bad_Conversion, Assertion_Failed, Invalid_Argument, Out_Of_Range})"
  using assms [of "Exit 1"] assms [of "Exit 2"] assms by auto

lemma names_exit:
  assumes "argv ! 1 = ''SIM''"
  shows "read_names_file_et2 (files (argv ! 2)) (files (argv ! 3)) (files (argv ! 4)) ClassInfo_init = Inl (Exit (-1)) \<longleftrightarrow>
    unopened files argv"
proof (cases "impl_read_classes_file_et2 (files (argv ! 2)) (unset_main_flag ClassInfo_init)")
  case (Inl e)
  then show ?thesis
    using assms classes_file_exit [OF classes_ok_unset, of "files (argv ! 2)"]
    by (auto simp: unopened_def read_names_file_et2_def read_names_file_no_mainfunc_et2_def impl_read_names_file_et2_def)
next
  case (Inr ci)
  then have "class_tables_ok ci" "files (argv ! 2) \<noteq> None"
    using class_tables_from [OF classes_ok_unset] classes_file_exit [OF classes_ok_unset, of "files (argv ! 2)"]
    by (auto simp: classes_ok_def)
  then show ?thesis
    using assms Inr fields_file_exit [of ci "files (argv ! 3)"] methods_file_exit [of "files (argv ! 4)"]
    by (cases "impl_read_fields_file_et2 (files (argv ! 3)) ci")
      (auto simp: unopened_def read_names_file_et2_def read_names_file_no_mainfunc_et2_def impl_read_names_file_et2_def
        bindR_Inl_iff)
qed

lemma sim_main_exit:
  assumes "sorting std_sort" and "argv ! 1 = ''SIM''"
  shows "sim_main env std_sort cckind files stdin argv = Inl (Exit 2) \<longleftrightarrow> argv ! 10 \<notin> {''QTR'', ''ET''}"
    and "sim_main env std_sort cckind files stdin argv = Inl (Exit (-1)) \<longleftrightarrow>
      argv ! 10 \<in> {''QTR'', ''ET''} \<and> unopened files argv"
proof -
  show "sim_main env std_sort cckind files stdin argv = Inl (Exit 2) \<longleftrightarrow> argv ! 10 \<notin> {''QTR'', ''ET''}"
    using sim_main_faults [OF assms(1), of env cckind files stdin argv "Exit 2"]
    by (auto simp: sim_main_steps trace_delimiter_def)
  show "sim_main env std_sort cckind files stdin argv = Inl (Exit (-1)) \<longleftrightarrow>
      argv ! 10 \<in> {''QTR'', ''ET''} \<and> unopened files argv"
  proof (cases "argv ! 10 \<in> {''QTR'', ''ET''}")
    case True
    then have delimiter: "trace_delimiter (argv ! 10) = Inr E_SPACE"
      by (auto simp: trace_delimiter_def)
    show ?thesis
    proof (cases "read_names_file_et2 (files (argv ! 2)) (files (argv ! 3)) (files (argv ! 4)) ClassInfo_init")
      case (Inl e)
      then show ?thesis
        using True delimiter names_exit [OF assms(2), of files] by (auto simp: sim_main_steps)
    next
      case (Inr ci)
      have "sim_main env std_sort cckind files stdin argv \<noteq> Inl (Exit (-1))"
        using after_names_faults [OF assms(1) Inr delimiter] by fastforce
      then show ?thesis
        using Inr names_exit [OF assms(2), of files] by auto
    qed
  qed (auto simp: sim_main_steps trace_delimiter_def)
qed

text \<open>
  C13: How the program ends, for any \<open>std::sort\<close>. \<open>main\<close> calls \<open>exit(1)\<close> exactly when the command line
  is no known command; \<open>exit(2)\<close> exactly for \<open>SIM\<close> with a trace version that is neither \<open>QTR\<close> nor \<open>ET\<close>;
  \<open>exit(-1)\<close> exactly when the command is otherwise in order and a file whose turn it is to be opened
  cannot be (the methods file only after the classes and the fields file were read without a fault).
  Every other run that does not return or call \<open>exit(0)\<close> ends in a failed assertion, a
  NULL string, a number that does not fit, an overrun token array or an exception of \<open>stoi\<close>.
\<close>
theorem program_exits:
  assumes "sorting std_sort"
  shows "(main env std_sort cckind files stdin argv = Inl (Exit 1) \<longleftrightarrow> \<not> known_command argv) \<and>
    (main env std_sort cckind files stdin argv = Inl (Exit 2) \<longleftrightarrow>
       known_command argv \<and> argv ! 1 = ''SIM'' \<and> argv ! 10 \<notin> {''QTR'', ''ET''}) \<and>
    (main env std_sort cckind files stdin argv = Inl (Exit (-1)) \<longleftrightarrow>
       known_command argv \<and> (argv ! 1 = ''SIM'' \<longrightarrow> argv ! 10 \<in> {''QTR'', ''ET''}) \<and> unopened files argv) \<and>
    (\<forall>e. main env std_sort cckind files stdin argv = Inl e \<longrightarrow>
       e \<in> {Exit 1, Exit 2, Exit (-1), Null_Pointer, Out_Of_Bounds, Bad_Conversion, Assertion_Failed, Invalid_Argument, Out_Of_Range})"
proof -
  have tables: "class_tables_ok ClassInfo_init"
    using classes_ok_init by (simp add: classes_ok_def)
  consider (usage) "\<not> known_command argv" | (sim) "length argv = 12" "argv ! 1 = ''SIM''"
    | (classes) "length argv = 4" "argv ! 1 = ''CLASS''" | (fields) "length argv = 4" "argv ! 1 = ''FIELDS''"
    | (methods) "length argv = 4" "argv ! 1 = ''METHODS''"
    by (auto simp: known_command_def)
  then show ?thesis
  proof cases
    case usage
    then have "main env std_sort cckind files stdin argv = Inl (Exit 1)"
      by (auto simp: main_def print_usage_def known_command_def Let_def)
    with usage show ?thesis by simp
  next
    case sim
    then have "main env std_sort cckind files stdin argv = Inl e \<longleftrightarrow> sim_main env std_sort cckind files stdin argv = Inl e" for e
      by (cases "sim_main env std_sort cckind files stdin argv") (simp_all add: main_def)
    moreover have "sim_main env std_sort cckind files stdin argv \<noteq> Inl (Exit 1)"
      using sim_main_faults(1) [OF assms, of env cckind files stdin argv "Exit 1"] by auto
    moreover have "\<forall>e. sim_main env std_sort cckind files stdin argv = Inl e \<longrightarrow>
        e \<in> {Exit 1, Exit 2, Exit (-1), Null_Pointer, Out_Of_Bounds, Bad_Conversion, Assertion_Failed, Invalid_Argument, Out_Of_Range}"
      using sim_main_faults(1) [OF assms, of env cckind files stdin argv] by auto
    moreover have "known_command argv"
      using sim by (simp add: known_command_def)
    ultimately show ?thesis
      by (simp only: sim_main_exit [OF assms sim(2)]) (use sim(2) in simp)
  next
    case classes
    then have "main env std_sort cckind files stdin argv = Inl e \<longleftrightarrow> impl_read_classes_file_et2 (files (argv ! 2)) ClassInfo_init = Inl e" for e
      by (cases "impl_read_classes_file_et2 (files (argv ! 2)) ClassInfo_init") (simp_all add: main_def class_main_def)
    moreover have "known_command argv" "unopened files argv \<longleftrightarrow> files (argv ! 2) = None"
      using classes by (simp_all add: known_command_def unopened_def)
    ultimately show ?thesis
      using classes(2) classes_file_exit [OF classes_ok_init] reader_exits [of "impl_read_classes_file_et2 (files (argv ! 2)) ClassInfo_init", OF classes_file_faults] by simp
  next
    case fields
    then have "main env std_sort cckind files stdin argv = Inl e \<longleftrightarrow> impl_read_fields_file_et2 (files (argv ! 2)) ClassInfo_init = Inl e" for e
      by (cases "impl_read_fields_file_et2 (files (argv ! 2)) ClassInfo_init") (auto simp: main_def fields_main_def)
    moreover have "known_command argv" "unopened files argv \<longleftrightarrow> files (argv ! 2) = None"
      using fields by (simp_all add: known_command_def unopened_def)
    ultimately show ?thesis
      using fields(2) fields_file_exit [OF tables] reader_exits [of "impl_read_fields_file_et2 (files (argv ! 2)) ClassInfo_init", OF fields_file_faults [OF tables]] by simp
  next
    case methods
    then show ?thesis
      by (simp add: main_def methods_main_def known_command_def unopened_def)
  qed
qed

lemma program_exits_witness:
  "main demo_env sort_by StackOnly demo_files '''' [''simulator'', ''FIELDS'', ''none'', ''DEBUG''] = Inl (Exit (-1)) \<and>
   main demo_env sort_by StackOnly demo_files ''M 1 7 1'' (demo_argv[10 := ''CSV'']) = Inl (Exit 2) \<and>
   main demo_env sort_by StackOnly demo_files '''' [''simulator'', ''SIM''] = Inl (Exit 1)"
  using program_exits [OF insertion.sorting_axioms, of demo_env StackOnly demo_files]
  by (simp add: known_command_def unopened_def demo_files_def demo_argv_def)

section \<open>The command CLASS\<close>

lemma omap_eqI:
  assumes "om_wf (m :: (string \<times> u32) list)" and "om_wf m'" and "map_of m = map_of m'"
  shows "m = m'"
proof (rule map_sorted_distinct_set_unique [where f = fst])
  show "inj_on fst (set m \<union> set m')"
    using assms by (auto simp: inj_on_def om_wf_lookup [symmetric])
  show "sorted (map fst m)" "distinct (map fst m)" "sorted (map fst m')" "distinct (map fst m')"
    using assms(1,2) by (simp_all add: om_wf_def strict_sorted_iff)
  show "set m = set m'"
    using assms by (auto simp: om_wf_lookup [symmetric])
qed

lemma class_command:
  assumes "\<forall>e \<in> set es. class_entry e" and "files f = Some (class_file es)" and "argv = [exe, ''CLASS'', f, dbg]"
  shows "\<exists>ci. main env std_sort cckind files stdin argv = Inr (Classes (map (\<lambda>e. ''CLASS,'' @ print_class e) (rev_map ci)) ci) \<and>
    tables_of es ci"
  using class_file_tables [OF assms(1)] assms(2)
  by (auto simp: assms(3) main_def class_main_def print_class_def case_prod_beta)

text \<open>The printed lines as a file, each without the \<open>CLASS,\<close> in front.\<close>

definition without_prefix :: "string list \<Rightarrow> string" where
  "without_prefix out = concat (map (\<lambda>l. drop 6 l @ [CHR 0x0A]) out)"

lemma without_prefix_file: "without_prefix (map (\<lambda>e. ''CLASS,'' @ print_class e) es) = class_file es"
  by (simp add: without_prefix_def class_file_def comp_def)

text \<open>
  C31: The command \<open>CLASS\<close> prints the classes of its file. On a classes file that holds a list of
  entries (a name and an identifier on every line), it prints a line \<open>CLASS,name,identifier\<close> for every
  name once, in the order of the names, with the identifier the file gives it first; the class table holds, under
  every identifier, the first class of the file that has it under a new name. What it prints is a
  classes file only without the \<open>CLASS,\<close> in front of every line; read so, it makes the command print
  the same lines again.
\<close>
theorem class_command_roundtrip:
  assumes "\<forall>e \<in> set es. class_entry e" and "files f = Some (class_file es)"
  shows "\<exists>out ci. main env std_sort cckind files stdin [exe, ''CLASS'', f, dbg] = Inr (Classes out ci) \<and>
    out = map (\<lambda>(name, i). ''CLASS,'' @ name @ '','' @ show_dec i) (rev_map ci) \<and>
    sorted_wrt (<) (map fst (rev_map ci)) \<and> map_of (rev_map ci) = map_of es \<and>
    (\<forall>i. class_named ci i = map_of (map prod.swap (first_entries es)) i) \<and>
    (\<forall>files'. files' f = Some (without_prefix out) \<longrightarrow>
       (\<exists>ci'. main env std_sort cckind files' stdin [exe, ''CLASS'', f, dbg] = Inr (Classes out ci')))"
proof -
  obtain ci where ci: "main env std_sort cckind files stdin [exe, ''CLASS'', f, dbg] =
      Inr (Classes (map (\<lambda>e. ''CLASS,'' @ print_class e) (rev_map ci)) ci)" "tables_of es ci"
    using class_command [of es files f, OF assms refl] by blast
  have wf: "om_wf (rev_map ci)" "map_of (rev_map ci) = map_of es"
    using ci(2) by (simp_all add: tables_of_def)
  have "class_entry e" if "e \<in> set (rev_map ci)" for e
    using that wf assms(1) om_wf_lookup [OF wf(1), of "fst e" "snd e"] by (auto dest: map_of_SomeD)
  then have "\<exists>ci'. main env std_sort cckind files' stdin [exe, ''CLASS'', f, dbg] =
      Inr (Classes (map (\<lambda>e. ''CLASS,'' @ print_class e) (rev_map ci)) ci')"
    if files': "files' f = Some (class_file (rev_map ci))" for files'
  proof -
    obtain ci' where ci': "main env std_sort cckind files' stdin [exe, ''CLASS'', f, dbg] =
        Inr (Classes (map (\<lambda>e. ''CLASS,'' @ print_class e) (rev_map ci')) ci')" "tables_of (rev_map ci) ci'"
      using class_command [of "rev_map ci" files' f, OF _ files' refl] \<open>\<And>e. e \<in> set (rev_map ci) \<Longrightarrow> class_entry e\<close> by blast
    then have "rev_map ci' = rev_map ci"
      using wf(1) by (intro omap_eqI) (simp_all add: tables_of_def)
    then show ?thesis using ci'(1) by auto
  qed
  then have again: "\<forall>files'. files' f = Some (without_prefix (map (\<lambda>e. ''CLASS,'' @ print_class e) (rev_map ci))) \<longrightarrow>
      (\<exists>ci'. main env std_sort cckind files' stdin [exe, ''CLASS'', f, dbg] =
         Inr (Classes (map (\<lambda>e. ''CLASS,'' @ print_class e) (rev_map ci)) ci'))"
    unfolding without_prefix_file by blast
  have out: "map (\<lambda>e. ''CLASS,'' @ print_class e) (rev_map ci) = map (\<lambda>(name, i). ''CLASS,'' @ name @ '','' @ show_dec i) (rev_map ci)"
    by (simp add: print_class_def case_prod_beta)
  have "sorted_wrt (<) (map fst (rev_map ci))" "\<forall>i. class_named ci i = map_of (map prod.swap (first_entries es)) i"
    using ci(2) by (simp_all add: tables_of_def om_wf_def)
  then show ?thesis
    using ci(1) out wf(2) again by blast
qed

definition two_names :: "(string \<times> u32) list" where
  "two_names = [(''p/B'', 2), (''A'', 1), (''p/B'', 7)]"

lemma class_command_roundtrip_witness:
  "\<exists>out ci. main demo_env sort_by StackOnly [''c'' \<mapsto> class_file two_names] '''' [''simulator'', ''CLASS'', ''c'', ''DEBUG''] =
      Inr (Classes out ci) \<and> map_of (rev_map ci) ''p/B'' = Some 2 \<and> class_named ci 1 = Some ''A'' \<and>
    (\<exists>ci'. main demo_env sort_by StackOnly [''c'' \<mapsto> without_prefix out] '''' [''simulator'', ''CLASS'', ''c'', ''DEBUG''] = Inr (Classes out ci'))"
proof -
  have "show_dec (2 :: u32) = ''2''" "show_dec (1 :: u32) = ''1''" "show_dec (7 :: u32) = ''7''"
    by code_simp+
  then have "\<forall>e \<in> set two_names. class_entry e"
    by (simp add: two_names_def class_entry_def print_class_def LINESIZE_def)
  then show ?thesis
    using class_command_roundtrip [of two_names "[''c'' \<mapsto> class_file two_names]" "''c''" demo_env sort_by StackOnly "''''" "''simulator''" "''DEBUG''"]
    by (auto simp: two_names_def)
qed

end
