(* ===== verification/Trace_Meaning.thy ===== *)
theory Trace_Meaning
  imports Simulation
begin

text \<open>
  What a trace means, end to end: a list of events, printed one on a line, goes through the tokenizer, the
  reader (\<open>read_trace_file_part1\<close>) and the Merlin pass of the command \<open>SIM\<close>. Which events are
  acceptable, which records and objects they leave and when every object dies is read off the list
  alone, and the run is proved to agree.
\<close>

section \<open>What a trace says\<close>

text \<open>The objects an event mentions, and whether the clock moves before or after its record.\<close>

fun mentioned :: "Event \<Rightarrow> u32 list" where
  "mentioned (Method_Event m obj t) = (if obj = 0 then [] else [obj])"
| "mentioned (Exit_Event m t) = []"
| "mentioned (Alloc_Event k obj sz c site len t ds) = (if obj = 0 then [] else [obj])"
| "mentioned (Update_Event obj tgt f t) = [tgt, obj]"
| "mentioned (Witness_Event obj c ts) = [obj]"

fun early :: "Event \<Rightarrow> nat" where
  "early (Method_Event m obj t) = 1"
| "early (Update_Event obj tgt f t) = 1"
| "early _ = 0"

fun late :: "Event \<Rightarrow> nat" where
  "late (Alloc_Event k obj sz c site len t ds) = (if obj = 0 then 0 else 1)"
| "late _ = 0"

definition ticks :: "Event list \<Rightarrow> nat" where
  "ticks evs = sum_list (map (\<lambda>e. early e + late e) evs)"

definition event_time :: "Event list \<Rightarrow> nat \<Rightarrow> u32" where
  "event_time evs k = of_nat (ticks (take k evs) + early (evs ! k))"

definition mentions :: "Event list \<Rightarrow> u32 \<Rightarrow> nat \<Rightarrow> bool" where
  "mentions evs i k \<longleftrightarrow> k < length evs \<and> i \<in> set (mentioned (evs ! k))"

definition last_mention :: "Event list \<Rightarrow> u32 \<Rightarrow> nat \<Rightarrow> bool" where
  "last_mention evs i k \<longleftrightarrow> mentions evs i k \<and> (\<forall>j < length evs. k < j \<longrightarrow> \<not> mentions evs i j)"

text \<open>The size of an object: that of its last allocation, or four bytes.\<close>

fun resize :: "u32 \<Rightarrow> u32 \<Rightarrow> Event \<Rightarrow> u32" where
  "resize i z (Alloc_Event k obj sz c site len t ds) = (if obj = i \<and> i \<noteq> 0 then sz else z)"
| "resize i z _ = z"

definition size_said :: "Event list \<Rightarrow> u32 \<Rightarrow> u32" where
  "size_said evs i = foldl (resize i) 4 evs"

text \<open>
  What makes an event acceptable after others: a witness and the variable that an exit tests name
  objects that were mentioned, an update has a target, the dimensions of an array are a number.
\<close>

fun allowed :: "Uninit \<Rightarrow> (u32 \<Rightarrow> bool) \<Rightarrow> Event \<Rightarrow> bool" where
  "allowed ui known (Method_Event m obj t) = True"
| "allowed ui known (Exit_Event m t) = (ui_object_id ui = 0 \<or> known (ui_object_id ui))"
| "allowed ui known (Alloc_Event k obj sz c site len t ds) = (\<not> isl (num_dims_of k ds (ui_num_dims ui)))"
| "allowed ui known (Update_Event obj tgt f t) = (tgt \<noteq> 0)"
| "allowed ui known (Witness_Event obj c ts) = known obj"

definition acceptable :: "environment \<Rightarrow> Event list \<Rightarrow> nat \<Rightarrow> bool" where
  "acceptable env evs k = allowed (env k) (\<lambda>i. \<exists>j < k. mentions evs i j) (evs ! k)"

text \<open>The record of an event.\<close>

fun event_record :: "Uninit \<Rightarrow> u32 \<Rightarrow> Event \<Rightarrow> TraceRecord" where
  "event_record ui now (Method_Event m obj t) = Method_Rec (MethodRecord_new m obj t now)"
| "event_record ui now (Exit_Event m t) = Exit_Rec (ExitRecord_new m t now)"
| "event_record ui now (Alloc_Event k obj sz c site len t ds) =
     Alloc_Rec (projr (AllocRecord_new obj site t c len sz k ds now (ui_num_dims ui)))"
| "event_record ui now (Update_Event obj tgt f t) = Update_Rec (UpdateRecord_new tgt f obj t now (ui_timestamp ui))"
| "event_record ui now (Witness_Event obj c ts) = Witness_Rec (WitnessRecord_new obj c ts now)"

section \<open>One event\<close>

lemma machine_event_cases:
  "(\<exists>b. machine_event env a ev = Inr b) \<longleftrightarrow> allowed (env (length (times a))) (\<lambda>i. objects a i \<noteq> None) ev"
  by (cases ev) (auto simp: Let_def fault_simps isl_def split: if_splits intro: sum.exhaust)

lemma machine_event_effect:
  assumes "machine_event env a ev = Inr b"
  shows "clock b = clock a + of_nat (early ev + late ev)" "times b = times a @ [clock a + of_nat (early ev)]"
    "objects b i = (if i \<in> set (mentioned ev)
       then Some (resize i (case objects a i of None \<Rightarrow> 4 | Some (z, _) \<Rightarrow> z) ev, clock a + of_nat (early ev))
       else objects a i)"
  using assms
  by (cases ev; force simp: Let_def touch_def fresh_def tick_def log_now_def fault_simps split: if_splits option.splits)+

text \<open>Every handler appends one record; what follows it leaves the trace alone.\<close>

lemma trace_kept:
  "stamp p t s = Inr s' \<Longrightarrow> sim_trace s' = sim_trace s"
  "allocate_unannounced k i tp s = Inr (q, s') \<Longrightarrow> sim_trace s' = sim_trace s"
  "update_object ui i th s = Inr (q, s') \<Longrightarrow> sim_trace s' = sim_trace s"
  "update_edge p f q j s = Inr s' \<Longrightarrow> sim_trace s' = sim_trace s"
proof -
  show stamp: "stamp p t s = Inr s' \<Longrightarrow> sim_trace s' = sim_trace s" for p t s s'
    by (auto simp: stamp_def fault_simps)
  show alloc: "allocate_unannounced k i tp s = Inr (q, s') \<Longrightarrow> sim_trace s' = sim_trace s" for k i tp s q s'
    by (auto simp: allocate_unannounced_def fault_simps)
  show "update_object ui i th s = Inr (q, s') \<Longrightarrow> sim_trace s' = sim_trace s"
    by (auto simp: update_object_def sim_getThread_def fault_simps split: option.splits prod.splits dest!: alloc)
  show "update_edge p f q j s = Inr s' \<Longrightarrow> sim_trace s' = sim_trace s"
    by (cases "make_edge (Some p) f (Some q) (NowUp (sim_exec s)) (sim_heap s)")
      (auto simp: update_edge_def fault_simps option.case_eq_if split: if_splits)
qed

lemma apply_event_record:
  assumes "apply_event env s ev = Inr s'"
  shows "sim_trace s' = sim_trace s @ [event_record (env (length (sim_trace s))) (NowUp (sim_exec s) + of_nat (early ev)) ev]"
proof (cases ev)
  case (Method_Event m obj t)
  then show ?thesis
    using assms by (auto simp: method_event_def sim_getThread_eq uninit_now_def Let_def fault_simps split: if_splits option.splits
        dest!: trace_kept)
next
  case (Exit_Event m t)
  then show ?thesis
    using assms by (auto simp: exit_event_def uninit_now_def Let_def fault_simps split: if_splits)
next
  case (Alloc_Event k obj sz c site len t ds)
  then show ?thesis
    using assms by (cases "om_index site (TheAllocSites (sim_classes s))")
      (auto simp: alloc_event_def sim_getThread_eq uninit_now_def Let_def fault_simps split: if_splits dest!: trace_kept)
next
  case (Update_Event obj tgt f t)
  then show ?thesis
    using assms by (auto simp: update_event_def uninit_now_def Let_def fault_simps split: prod.splits dest!: trace_kept)
next
  case (Witness_Event obj c ts)
  then show ?thesis
    using assms by (auto simp: witness_event_def Let_def fault_simps split: option.splits dest!: trace_kept)
qed

section \<open>A whole trace\<close>

lemma ticks_snoc [simp]: "ticks (evs @ [e]) = ticks evs + early e + late e"
  by (simp add: ticks_def)

lemma mentions_snoc: "mentions (evs @ [e]) i k \<longleftrightarrow> mentions evs i k \<or> k = length evs \<and> i \<in> set (mentioned e)"
  by (auto simp: mentions_def nth_append)

lemma event_time_snoc:
  "k < length evs \<Longrightarrow> event_time (evs @ [e]) k = event_time evs k"
  "event_time (evs @ [e]) (length evs) = of_nat (ticks evs + early e)"
  by (simp_all add: event_time_def nth_append)

lemma last_mention_snoc:
  "last_mention (evs @ [e]) i k \<longleftrightarrow>
     (if i \<in> set (mentioned e) then k = length evs else last_mention evs i k)"
  by (auto simp: last_mention_def mentions_snoc) (auto simp: mentions_def less_Suc_eq)

lemma acceptable_snoc:
  "k < length evs \<Longrightarrow> acceptable env (evs @ [e]) k = acceptable env evs k"
  "acceptable env (evs @ [e]) (length evs) = allowed (env (length evs)) (\<lambda>i. \<exists>j. mentions evs i j) e"
proof -
  have "(\<exists>j < k. mentions (evs @ [e]) i j) = (\<exists>j < k. mentions evs i j)" if "k \<le> length evs" for i k
    using that by (auto simp: mentions_snoc)
  moreover have "(\<exists>j < length evs. mentions evs i j) = (\<exists>j. mentions evs i j)" for i
    by (auto simp: mentions_def)
  ultimately show "k < length evs \<Longrightarrow> acceptable env (evs @ [e]) k = acceptable env evs k"
    "acceptable env (evs @ [e]) (length evs) = allowed (env (length evs)) (\<lambda>i. \<exists>j. mentions evs i j) e"
    by (simp_all add: acceptable_def nth_append)
qed

text \<open>The state of the abstract machine that a trace describes.\<close>

definition describes :: "Event list \<Rightarrow> Machine \<Rightarrow> bool" where
  "describes evs a \<longleftrightarrow> clock a = of_nat (ticks evs) \<and> length (times a) = length evs \<and>
     (\<forall>i. objects a i = None \<longleftrightarrow> (\<nexists>k. mentions evs i k)) \<and>
     (\<forall>i k. last_mention evs i k \<longrightarrow> objects a i = Some (size_said evs i, event_time evs k))"

lemma last_mention_exists: "mentions evs i k \<Longrightarrow> \<exists>k. last_mention evs i k"
proof -
  assume "mentions evs i k"
  then have "k \<in> {k. mentions evs i k}" "finite {k. mentions evs i k}"
    by (auto simp: mentions_def intro: finite_subset [of _ "{..<length evs}"])
  then have "Max {k. mentions evs i k} \<in> {k. mentions evs i k}" "\<forall>j \<in> {k. mentions evs i k}. j \<le> Max {k. mentions evs i k}"
    using Max_in Max_ge by blast+
  then show ?thesis
    unfolding last_mention_def by (metis leD mem_Collect_eq)
qed

lemma size_said_snoc [simp]: "size_said (evs @ [e]) i = resize i (size_said evs i) e"
  by (simp add: size_said_def)

lemma resize_other: "i \<notin> set (mentioned e) \<Longrightarrow> resize i z e = z"
  by (cases e) auto

lemma size_unmentioned: "(\<nexists>k. mentions evs i k) \<Longrightarrow> size_said evs i = 4"
proof (induction evs rule: rev_induct)
  case Nil
  then show ?case by (simp add: size_said_def)
next
  case (snoc e evs)
  then show ?case by (auto simp: mentions_snoc resize_other)
qed

lemma describes_step:
  assumes "describes evs a" and "machine_event env a ev = Inr b"
  shows "describes (evs @ [ev]) b"
proof -
  note eff = machine_event_effect [OF assms(2)]
  have old: "clock a = of_nat (ticks evs)" "length (times a) = length evs"
    "objects a i = None \<longleftrightarrow> (\<nexists>k. mentions evs i k)"
    "last_mention evs i k \<Longrightarrow> objects a i = Some (size_said evs i, event_time evs k)" for i k
    using assms(1) by (auto simp: describes_def)
  have size: "(case objects a i of None \<Rightarrow> 4 | Some (z, _) \<Rightarrow> z) = size_said evs i" for i
  proof (cases "objects a i")
    case None
    then show ?thesis using old(3) [of i] size_unmentioned [of evs i] by simp
  next
    case (Some y)
    then obtain k where "last_mention evs i k"
      using old(3) last_mention_exists by (metis option.distinct(1))
    then show ?thesis using old(4) by simp
  qed
  have "objects b i = None \<longleftrightarrow> (\<nexists>k. mentions (evs @ [ev]) i k)" for i
    using old(3) [of i] by (auto simp: eff(3) mentions_snoc)
  moreover have "objects b i = Some (size_said (evs @ [ev]) i, event_time (evs @ [ev]) k)"
    if "last_mention (evs @ [ev]) i k" for i k
  proof (cases "i \<in> set (mentioned ev)")
    case True
    then show ?thesis
      using that by (simp add: last_mention_snoc eff(3) size event_time_snoc old(1))
  next
    case False
    then have last: "last_mention evs i k"
      using that by (simp add: last_mention_snoc)
    then have "k < length evs"
      by (simp add: last_mention_def mentions_def)
    then show ?thesis
      using False old(4) [OF last] by (simp add: eff(3) event_time_snoc resize_other)
  qed
  ultimately show ?thesis
    using old(1,2) eff(1,2) by (simp add: describes_def)
qed

lemma describes_trace:
  assumes "describes [] a"
  shows "case foldR (machine_event env) evs a of
      Inl e \<Rightarrow> (\<exists>k < length evs. \<not> acceptable env evs k)
    | Inr b \<Rightarrow> (\<forall>k < length evs. acceptable env evs k) \<and> describes evs b"
proof (induction evs rule: rev_induct)
  case Nil
  then show ?case using assms by simp
next
  case (snoc e evs)
  show ?case
  proof (cases "foldR (machine_event env) evs a")
    case (Inl f)
    then obtain k where k: "k < length evs" "\<not> acceptable env evs k"
      using snoc by auto
    then have "k < length (evs @ [e])" "\<not> acceptable env (evs @ [e]) k"
      by (simp_all add: acceptable_snoc(1))
    then show ?thesis
      using Inl by (auto simp: foldR_append)
  next
    case (Inr b)
    then have ok: "\<forall>k < length evs. acceptable env evs k" "describes evs b"
      using snoc by auto
    then have known: "(\<lambda>i. objects b i \<noteq> None) = (\<lambda>i. \<exists>k. mentions evs i k)" "length (times b) = length evs"
      by (auto simp: describes_def)
    show ?thesis
    proof (cases "machine_event env b e")
      case (Inl f)
      then have "\<not> acceptable env (evs @ [e]) (length evs)"
        using machine_event_cases [of env b e] unfolding acceptable_snoc known by auto
      then show ?thesis
        using Inr Inl by (auto simp: foldR_append)
    next
      case (Inr c)
      then have "acceptable env (evs @ [e]) (length evs)"
        using machine_event_cases [of env b e] unfolding acceptable_snoc known by auto
      then show ?thesis
        using Inr \<open>foldR (machine_event env) evs a = Inr b\<close> ok describes_step [OF ok(2) Inr]
        by (auto simp: foldR_append acceptable_snoc less_Suc_eq)
    qed
  qed
qed

lemma trace_records:
  assumes "foldR (apply_event env) evs s = Inr s'" and "sim_ok s" and "describes [] (machine_of s)" and "sim_trace s = []"
  shows "sim_trace s' = map (\<lambda>k. event_record (env k) (event_time evs k) (evs ! k)) [0..<length evs]"
  using assms(1)
proof (induction evs arbitrary: s' rule: rev_induct)
  case Nil
  then show ?case using assms(4) by simp
next
  case (snoc e evs)
  then obtain s1 where s1: "foldR (apply_event env) evs s = Inr s1" "apply_event env s1 e = Inr s'"
    by (auto simp: foldR_append fault_simps)
  note IH = snoc.IH [OF s1(1)]
  have "foldR (machine_event env) evs (machine_of s) = Inr (machine_of s1)"
    using arg_cong [OF s1(1), of "map_sum id machine_of"] events_machine [OF assms(2)] by simp
  then have "describes evs (machine_of s1)"
    using describes_trace [OF assms(3), of evs env] by simp
  then have "NowUp (sim_exec s1) = of_nat (ticks evs)"
    by (simp add: describes_def)
  moreover have "length (sim_trace s1) = length evs"
    using IH by simp
  ultimately show ?case
    using apply_event_record [OF s1(2)] IH
    by (simp add: event_time_snoc nth_append cong: map_cong)
qed

section \<open>The whole run\<close>

lemma sim_start_describes: "describes [] (machine_of (sim_start cckind obj_debug ci))"
  by (simp add: describes_def ticks_def mentions_def last_mention_def machine_of_def sim_start_def Sim_init_def
      ExecState_new_def NowUp_def HeapState_init_def heap_objects_def enableObjectDebug_def)

lemma settled_object:
  assumes "heap_objects (sim_heap s) i = Some (n, d)" and "sim_ok s" and "m_objects h = m_objects (sim_heap s)"
    and "\<And>i p. map_of (m_objects (sim_heap s)) i = Some p \<Longrightarrow>
      obj_cells h ! p = setDeathTime (m_last_timestamp (obj_cells (sim_heap s) ! p)) (obj_cells (sim_heap s) ! p)"
  shows "\<exists>p obj. getObject h i = Some p \<and> obj = obj_cells h ! p \<and> m_id_o obj = i \<and> m_size obj = n \<and>
    m_last_timestamp obj = d \<and> m_deathTime obj = d"
proof -
  obtain p where p: "map_of (m_objects (sim_heap s)) i = Some p"
    "m_size (obj_cells (sim_heap s) ! p) = n" "m_last_timestamp (obj_cells (sim_heap s) ! p) = d"
    using assms(1) by (auto simp: heap_objects_def)
  have "m_id_o (obj_cells (sim_heap s) ! p) = i"
    using heap_okD(2) [OF reading_heap_ok p(1)] assms(2) by (simp add: sim_ok_def)
  then show ?thesis
    using p assms(3) assms(4) [OF p(1)] by (simp add: getObject_def setDeathTime_def)
qed

text \<open>
  C2: What a simulation means. Given class tables that can be read and a trace printed one event on a
  line, the command \<open>SIM\<close> returns exactly when every event is acceptable after the ones before it.
  The records of the trace are then those of the events with their times, the objects of the heap
  are exactly those that an event mentions, and the death time of each, like its last time stamp,
  is the time of the last event that mentions it.
\<close>
theorem simulation_of_printed_trace:
  assumes "sorting std_sort" and "argv ! 10 \<in> {''QTR'', ''ET''}"
    and "read_names_file_et2 (files (argv ! 2)) (files (argv ! 3)) (files (argv ! 4)) ClassInfo_init = Inr ci"
    and "\<forall>ev \<in> set evs. event_fits ev \<and> printable (print_event ev)"
  shows "case sim_main env std_sort cckind files (print_file (map print_event evs)) argv of
      Inl e \<Rightarrow> \<exists>k < length evs. \<not> acceptable env evs k
    | Inr s \<Rightarrow> (\<forall>k < length evs. acceptable env evs k) \<and>
        sim_trace s = map (\<lambda>k. event_record (env k) (event_time evs k) (evs ! k)) [0..<length evs] \<and>
        NowUp (sim_exec s) = of_nat (ticks evs) \<and>
        (\<forall>i. getObject (sim_heap s) i = None \<longleftrightarrow> (\<nexists>k. mentions evs i k)) \<and>
        (\<forall>i k. last_mention evs i k \<longrightarrow> (\<exists>p obj. getObject (sim_heap s) i = Some p \<and> obj = obj_cells (sim_heap s) ! p \<and>
           m_id_o obj = i \<and> m_size obj = size_said evs i \<and>
           m_last_timestamp obj = event_time evs k \<and> m_deathTime obj = event_time evs k))"
proof -
  define s0 where "s0 = sim_start cckind (argv ! 7 = ''OBJDEBUG'') ci"
  have ok: "sim_ok s0" and start: "describes [] (machine_of s0)" "sim_trace s0 = []"
    using start_after_names [OF assms(3)] sim_start_describes
    by (simp_all add: s0_def) (simp add: sim_start_def Sim_init_def)
  have delim: "trace_delimiter (argv ! 10) = Inr E_SPACE"
    using assms(2) by (auto simp: trace_delimiter_def)
  have run: "sim_main env std_sort cckind files (print_file (map print_event evs)) argv =
      bindR (foldR (apply_event env) evs s0) (\<lambda>s. bindR (apply_merlin std_sort (sim_trace s) (sim_heap s)) (\<lambda>h. Inr (s\<lparr>sim_heap := h\<rparr>)))"
    using read_printed_trace [OF assms(4)] by (simp add: sim_main_steps delim assms(3) s0_def)
  note machine = events_machine [OF ok, of env evs] and meaning = describes_trace [OF start(1), of evs env]
  show ?thesis
  proof (cases "foldR (apply_event env) evs s0")
    case (Inl e)
    then show ?thesis
      using machine [symmetric] meaning unfolding run by simp
  next
    case (Inr s)
    have s: "sim_ok s" and meant: "\<forall>k < length evs. acceptable env evs k" "describes evs (machine_of s)"
      using Inr machine [symmetric] meaning event_steps.loop_keeps [OF ok] by auto
    obtain h where h: "apply_merlin std_sort (sim_trace s) (sim_heap s) = Inr h" "m_objects h = m_objects (sim_heap s)"
      "\<And>i p. map_of (m_objects (sim_heap s)) i = Some p \<Longrightarrow>
         obj_cells h ! p = setDeathTime (m_last_timestamp (obj_cells (sim_heap s) ! p)) (obj_cells (sim_heap s) ! p)"
      using merlin_settles [OF assms(1), of "sim_heap s"] s unfolding sim_ok_def by blast
    have "\<exists>p obj. getObject h i = Some p \<and> obj = obj_cells h ! p \<and> m_id_o obj = i \<and> m_size obj = size_said evs i \<and>
        m_last_timestamp obj = event_time evs k \<and> m_deathTime obj = event_time evs k"
      if "last_mention evs i k" for i k
      using settled_object [OF _ s h(2,3)] meant(2) that by (simp add: describes_def)
    moreover have "getObject h i = None \<longleftrightarrow> (\<nexists>k. mentions evs i k)" for i
      using meant(2) h(2) by (simp add: describes_def getObject_def)
    moreover have "NowUp (sim_exec s) = of_nat (ticks evs)"
      using meant(2) by (simp add: describes_def)
    ultimately show ?thesis
      using meant(1) h(1) trace_records [OF Inr ok start] unfolding run Inr by simp
  qed
qed

definition demo_events :: "Event list" where
  "demo_events = [Method_Event 1 7 1, Alloc_Event CHR ''N'' 8 24 3 2 1 1 [], Update_Event 8 7 5 1, Witness_Event 8 3 0]"

lemma simulation_of_printed_trace_witness:
  "\<exists>s. sim_main demo_env sort_by StackOnly demo_files (print_file (map print_event demo_events)) demo_argv = Inr s \<and>
     (\<exists>p obj. getObject (sim_heap s) 8 = Some p \<and> obj = obj_cells (sim_heap s) ! p \<and> m_size obj = 24 \<and> m_deathTime obj = 3)"
proof -
  have "\<not> isl (read_names_file_et2 (demo_files (demo_argv ! 2)) (demo_files (demo_argv ! 3)) (demo_files (demo_argv ! 4)) ClassInfo_init)"
    by code_simp
  then obtain ci where ci: "read_names_file_et2 (demo_files (demo_argv ! 2)) (demo_files (demo_argv ! 3)) (demo_files (demo_argv ! 4)) ClassInfo_init = Inr ci"
    unfolding isl_def by (metis sum.exhaust)
  have version: "demo_argv ! 10 \<in> {''QTR'', ''ET''}"
    by (simp add: demo_argv_def)
  have printed: "\<forall>ev \<in> set demo_events. event_fits ev \<and> printable (print_event ev)"
  proof -
    have "printable (print_event (Method_Event 1 7 1))" "printable (print_event (Alloc_Event CHR ''N'' 8 24 3 2 1 1 []))"
      "printable (print_event (Update_Event 8 7 5 1))" "printable (print_event (Witness_Event 8 3 0))"
      by code_simp+
    then show ?thesis
      by (simp add: demo_events_def fits_def del: print_event.simps)
  qed
  have accepted: "acceptable demo_env demo_events k" if "k < length demo_events" for k
  proof -
    from that consider "k = 0" | "k = 1" | "k = 2" | "k = 3"
      by (simp add: demo_events_def) linarith
    then show ?thesis
      by cases (auto simp: acceptable_def demo_events_def mentions_def num_dims_of_def intro: exI [of _ 1])
  qed
  have last: "last_mention demo_events 8 3" "size_said demo_events 8 = 24" "event_time demo_events 3 = 3"
    by (auto simp: last_mention_def mentions_def demo_events_def size_said_def event_time_def ticks_def)
  note result = simulation_of_printed_trace [OF insertion.sorting_axioms version ci printed, of demo_env StackOnly]
  show ?thesis
  proof (cases "sim_main demo_env sort_by StackOnly demo_files (print_file (map print_event demo_events)) demo_argv")
    case (Inl e)
    then show ?thesis using result accepted by auto
  next
    case (Inr s)
    then have "last_mention demo_events i k \<Longrightarrow> \<exists>p obj. getObject (sim_heap s) i = Some p \<and> obj = obj_cells (sim_heap s) ! p \<and>
        m_size obj = size_said demo_events i \<and> m_deathTime obj = event_time demo_events k" for i k
      using result by (simp only: sum.case) blast
    from this [OF last(1)] show ?thesis
      using Inr last(2,3) by auto
  qed
qed

end
