(* ===== verification/Conformance.thy ===== *)
theory Conformance
  imports Simulation
begin

text \<open>
  Pointers have their types: a state conforms when every pointer in it (one excepted) leads to a cell of
  the store of its class and every edge of a field exists and belongs to that field. Every handler of the trace
  reader keeps this, with edges in the heap or without, and has only the faults its assertions and
  the dimensions of an array give it; so a NULL or dangling pointer is never followed. The readers of the
  classes and fields files make conforming class tables. The exception is \<open>Thread::m_curcc\<close>, which no
  constructor sets; the handlers of a trace neither read nor set it.
\<close>

section \<open>Conforming states\<close>

text \<open>A nullable pointer into a store of \<open>n\<close> cells.\<close>

definition ptr_ok :: "nat \<Rightarrow> nat option \<Rightarrow> bool" where
  "ptr_ok n po \<longleftrightarrow> (\<forall>p. po = Some p \<longrightarrow> p < n)"

abbreviation method_ok :: "nat \<Rightarrow> method_ptr option \<Rightarrow> bool" where
  "method_ok n mo \<equiv> ptr_ok n (map_option cell_of mo)"

lemma ptr_ok_simps [simp]: "ptr_ok n None" "ptr_ok n (Some p) \<longleftrightarrow> p < n"
  by (simp_all add: ptr_ok_def)

lemma ptr_ok_mono: "ptr_ok n po \<Longrightarrow> n \<le> n' \<Longrightarrow> ptr_ok n' po"
  by (auto simp: ptr_ok_def)

text \<open>Objects and edges against the numbers of threads, sites, methods and objects.\<close>

definition object_conforms :: "nat \<Rightarrow> nat \<Rightarrow> nat \<Rightarrow> nat \<Rightarrow> Object \<Rightarrow> bool" where
  "object_conforms nt ns nm no obj \<longleftrightarrow>
     ptr_ok nt (m_thread obj) \<and> ptr_ok ns (m_site obj) \<and>
     ptr_ok no (m_last_object obj) \<and> ptr_ok no (m_death_root obj) \<and>
     method_ok nm (m_last_action_method obj) \<and> method_ok nm (m_methodDeathSite obj) \<and>
     method_ok nm (m_methodDeathSite_l2 obj) \<and> om_wf (m_fields obj)"

definition edge_conforms :: "nat \<Rightarrow> Edge \<Rightarrow> bool" where
  "edge_conforms no d \<longleftrightarrow> ptr_ok no (m_source d) \<and> ptr_ok no (m_target d)"

text \<open>The side tables of the heap: keys, their objects, sites of deaths.\<close>

definition tables_conform :: "nat \<Rightarrow> nat \<Rightarrow> HeapState \<Rightarrow> bool" where
  "tables_conform nm no h \<longleftrightarrow> m_liveset h \<subseteq> {..<no} \<and>
     (\<forall>(m, names) \<in> set (m_death_sites_map h). cell_of m < nm) \<and>
     (\<forall>(p, q) \<in> set (m_whereis h). p < no \<and> q < no) \<and>
     (\<forall>(p, ps) \<in> set (m_keyset h). p < no \<and> ps \<subseteq> {..<no})"

definition heap_conforms :: "nat \<Rightarrow> nat \<Rightarrow> nat \<Rightarrow> HeapState \<Rightarrow> bool" where
  "heap_conforms nt ns nm h \<longleftrightarrow> heap_ok h \<and> edges_owned h \<and> tables_conform nm (length (obj_cells h)) h \<and>
     (\<forall>obj \<in> set (obj_cells h). object_conforms nt ns nm (length (obj_cells h)) obj) \<and>
     (\<forall>d. Some d \<in> set (edge_cells h) \<longrightarrow> edge_conforms (length (obj_cells h)) d)"

definition node_conforms :: "nat \<Rightarrow> nat \<Rightarrow> CCNode \<Rightarrow> bool" where
  "node_conforms nm nc node \<longleftrightarrow> ptr_ok nc (m_parent node) \<and> method_ok nm (m_method node) \<and>
     (\<forall>(i, q) \<in> set (m_callees node). q < nc) \<and> (\<forall>m \<in> set (m_simptrace node). cell_of m < nm)"

text \<open>
  \<open>m_curcc\<close> is the one pointer left out: no constructor sets it, and no handler of a trace reads it or
  sets it, so in every state of a run it is whatever the memory held.
\<close>

definition thread_conforms :: "nat \<Rightarrow> nat \<Rightarrow> nat \<Rightarrow> Thread \<Rightarrow> bool" where
  "thread_conforms nm nc no th \<longleftrightarrow> m_rootcc th < nc \<and> (\<forall>m \<in> set (m_methods th). method_ok nm m) \<and>
     (\<forall>ps \<in> set (m_locals th) \<union> set (m_deadlocals th). ps \<subseteq> {..<no}) \<and>
     method_ok nm (fst (m_context th)) \<and> method_ok nm (snd (m_context th))"

text \<open>The tables of contexts: their keys are objects and pairs of methods.\<close>

definition contexts_conform :: "nat \<Rightarrow> nat \<Rightarrow> ExecState \<Rightarrow> bool" where
  "contexts_conform nm no x \<longleftrightarrow>
     (\<forall>(p, c) \<in> set (m_objAlloc2cmap x) \<union> set (m_objDeath2cmap x). p < no) \<and>
     (\<forall>((a, b), n) \<in> set (m_deathPairCountMap x) \<union> set (m_execPairCountMap x). method_ok nm a \<and> method_ok nm b)"

definition exec_conforms :: "nat \<Rightarrow> nat \<Rightarrow> ExecState \<Rightarrow> bool" where
  "exec_conforms nm no x \<longleftrightarrow>
     (\<forall>t p. map_of (m_threads x) t = Some p \<longrightarrow> p < length (thread_cells x) \<and> m_id_t (thread_cells x ! p) = t) \<and>
     (\<forall>th \<in> set (thread_cells x). thread_conforms nm (length (cc_cells x)) no th) \<and>
     (\<forall>node \<in> set (cc_cells x). node_conforms nm (length (cc_cells x)) node) \<and>
     (\<forall>tp \<in> set (m_thread_stack x). tp < length (thread_cells x)) \<and> contexts_conform nm no x"

text \<open>The class tables: every pointer of a table and of an entity leads into the store of its kind.\<close>

definition class_conforms :: "nat \<Rightarrow> nat \<Rightarrow> Class \<Rightarrow> bool" where
  "class_conforms nm nf c \<longleftrightarrow> (\<forall>(i, m) \<in> set (m_methods_c c). cell_of m < nm) \<and> (\<forall>(i, f) \<in> set (m_fields_c c). f < nf)"

definition method_conforms :: "nat \<Rightarrow> nat \<Rightarrow> Method \<Rightarrow> bool" where
  "method_conforms nc ns m \<longleftrightarrow> ptr_ok nc (m_class_m m) \<and> (\<forall>(i, a) \<in> set (m_allocsites m). a < ns)"

definition classes_typed :: "ClassInfo \<Rightarrow> bool" where
  "classes_typed ci \<longleftrightarrow>
     (\<forall>(i, po) \<in> set (TheClasses ci). ptr_ok (length (class_cells ci)) po) \<and>
     (\<forall>(i, po) \<in> set (TheMethods ci). method_ok (length (method_cells ci)) po) \<and>
     (\<forall>(i, po) \<in> set (TheFields ci). ptr_ok (length (field_cells ci)) po) \<and>
     (\<forall>(i, po) \<in> set (TheAllocSites ci). ptr_ok (length (site_cells ci)) po) \<and>
     method_ok (length (method_cells ci)) (main_method ci) \<and>
     (\<forall>c \<in> set (class_cells ci). class_conforms (length (method_cells ci)) (length (field_cells ci)) c) \<and>
     (\<forall>m \<in> set (method_cells ci). method_conforms (length (class_cells ci)) (length (site_cells ci)) m) \<and>
     (\<forall>f \<in> set (field_cells ci). ptr_ok (length (class_cells ci)) (m_class_f f)) \<and>
     (\<forall>a \<in> set (site_cells ci). method_ok (length (method_cells ci)) (m_method_s a))"

text \<open>\<open>getNameSite\<close> of a site of the table meets no NULL method either.\<close>

definition classes_conform :: "ClassInfo \<Rightarrow> bool" where
  "classes_conform ci \<longleftrightarrow> classes_typed ci \<and> sites_named ci"

definition sim_conforms :: "Sim \<Rightarrow> bool" where
  "sim_conforms s \<longleftrightarrow>
     heap_conforms (length (thread_cells (sim_exec s))) (length (site_cells (sim_classes s)))
       (length (method_cells (sim_classes s))) (sim_heap s) \<and>
     exec_conforms (length (method_cells (sim_classes s))) (length (obj_cells (sim_heap s))) (sim_exec s) \<and>
     classes_conform (sim_classes s) \<and>
     (\<forall>i p. map_of (no_alloc_map s) i = Some p \<longrightarrow>
        p < length (obj_cells (sim_heap s)) \<and> map_of (m_objects (sim_heap s)) i \<noteq> None)"

lemma sim_conformsD:
  assumes "sim_conforms s"
  shows "heap_conforms (length (thread_cells (sim_exec s))) (length (site_cells (sim_classes s)))
      (length (method_cells (sim_classes s))) (sim_heap s)"
    "exec_conforms (length (method_cells (sim_classes s))) (length (obj_cells (sim_heap s))) (sim_exec s)"
    "classes_conform (sim_classes s)"
    "map_of (no_alloc_map s) i = Some p \<Longrightarrow> p < length (obj_cells (sim_heap s)) \<and> map_of (m_objects (sim_heap s)) i \<noteq> None"
  using assms by (auto simp: sim_conforms_def)

section \<open>Reading class tables\<close>

text \<open>Stores only grow, and calls on a class add pointers of the stores.\<close>

lemma typed_grown:
  "ptr_ok n po \<Longrightarrow> ptr_ok (Suc n) po" "class_conforms nm nf c \<Longrightarrow> class_conforms nm (Suc nf) c"
  "method_conforms nc ns m \<Longrightarrow> method_conforms (Suc nc) ns m"
  by (auto simp: ptr_ok_def class_conforms_def method_conforms_def intro: less_SucI)

lemma ball_om_put:
  assumes "\<forall>(i, x) \<in> set m. P x" and "P v"
  shows "\<forall>(i, x) \<in> set (om_put k v m). P x"
  using assms set_om_put [of k v m] by fastforce

lemma typed_new_class:
  assumes "classes_typed ci"
    and "class_cells ci' = class_cells ci @ [Class_new i n b]"
    and "TheClasses ci' = om_put i (Some (length (class_cells ci))) (TheClasses ci)"
    and "method_cells ci' = method_cells ci" "field_cells ci' = field_cells ci" "site_cells ci' = site_cells ci"
      "TheMethods ci' = TheMethods ci" "TheFields ci' = TheFields ci" "TheAllocSites ci' = TheAllocSites ci"
      "main_method ci' = main_method ci"
  shows "classes_typed ci'"
proof -
  have "\<forall>(j, po) \<in> set (TheClasses ci'). ptr_ok (Suc (length (class_cells ci))) po"
    unfolding assms(3) using assms(1) by (intro ball_om_put) (auto simp: classes_typed_def intro: typed_grown)
  moreover have "class_conforms nm nf (Class_new i n b)" for nm nf
    by (simp add: class_conforms_def Class_new_def)
  ultimately show ?thesis
    using assms(1) by (auto simp: classes_typed_def assms(2,4-) intro: typed_grown)
qed

lemma typed_frame [simp]: "classes_typed (ci\<lparr>rev_map := r\<rparr>) = classes_typed ci"
  by (simp add: classes_typed_def)

lemma typed_index:
  assumes "classes_typed ci" and "om_index i (TheClasses ci) = (cls, cs)"
  shows "classes_typed (ci\<lparr>TheClasses := cs\<rparr>)"
  using assms set_om_put [of i None "TheClasses ci"]
  by (fastforce simp: classes_typed_def om_index_def split: option.splits)

lemma typed_new_field:
  assumes "classes_typed ci" and "p < length (class_cells ci)"
  shows "classes_typed (ci\<lparr>field_cells := field_cells ci @ [Field_new i (Some p) n d b],
    TheFields := om_put i (Some (length (field_cells ci))) (TheFields ci),
    class_cells := (class_cells ci)[p := addField i (length (field_cells ci)) (class_cells ci ! p)]\<rparr>)"
proof -
  let ?nf = "Suc (length (field_cells ci))"
  let ?c = "addField i (length (field_cells ci)) (class_cells ci ! p)"
  have "class_conforms (length (method_cells ci)) (length (field_cells ci)) (class_cells ci ! p)"
    using assms by (simp add: classes_typed_def)
  moreover from this have "\<forall>(j, f) \<in> set (om_put i (length (field_cells ci)) (m_fields_c (class_cells ci ! p))). f < ?nf"
    by (intro ball_om_put) (auto simp: class_conforms_def intro: less_SucI)
  ultimately have "class_conforms (length (method_cells ci)) ?nf ?c"
    by (simp add: class_conforms_def)
  then have "\<forall>c \<in> set ((class_cells ci)[p := ?c]). class_conforms (length (method_cells ci)) ?nf c"
    using assms(1) by (auto simp: classes_typed_def intro: typed_grown dest!: set_update_subset_insert [THEN subsetD])
  moreover have "\<forall>(j, po) \<in> set (om_put i (Some (length (field_cells ci))) (TheFields ci)). ptr_ok ?nf po"
    using assms(1) by (intro ball_om_put) (auto simp: classes_typed_def intro: typed_grown)
  ultimately show ?thesis
    using assms by (auto simp: classes_typed_def)
qed

text \<open>The two readers, and the names of a run.\<close>

lemma classes_line_typed: "classes_typed ci \<Longrightarrow> classes_line_et2 ci t = Inr ci' \<Longrightarrow> classes_typed ci'"
  by (auto simp: classes_line_et2_def fault_simps Let_def split: if_splits option.splits intro: typed_new_class)

interpretation typed_class_lines: line_handler classes_line_et2 classes_typed
  by unfold_locales (rule classes_line_typed)

lemma fields_line_typed:
  assumes "classes_typed (fst st)" and "fields_line_et2 st t = Inr st'"
  shows "classes_typed (fst st')"
proof -
  obtain ci fm where st: "st = (ci, fm)" by fastforce
  obtain name i where ni: "getString t 0 = Some name" "getInt t 1 = Inr i"
    using assms(2) by (auto simp: fields_line_et2_def st fault_simps)
  obtain cls ci1 where fc: "class_of_field ci (field_class_name name) = (cls, ci1)" by fastforce
  have "classes_typed ci1"
    using assms(1) fc typed_index [of ci]
    by (auto simp: class_of_field_def st Let_def split: option.splits prod.splits intro: typed_new_class)
  then show ?thesis
    using assms(1,2) st ni fc typed_new_field [of ci1 "the cls" i]
    by (auto simp: fields_line_et2_def to_string_def fault_simps Let_def upd_class_Inr split: if_splits)
qed

interpretation typed_field_lines: line_handler fields_line_et2 "\<lambda>st. classes_typed (fst st)"
  by unfold_locales (rule fields_line_typed)

lemma names_typed:
  assumes "read_names_file_et2 cf ff mf ClassInfo_init = Inr ci"
  shows "classes_typed ci"
proof -
  obtain ci1 fm where 1: "impl_read_classes_file_et2 cf (unset_main_flag ClassInfo_init) = Inr ci1"
      "impl_read_fields_file_et2 ff ci1 = Inr (ci, fm)"
    using assms by (auto simp: read_names_file_et2_def read_names_file_no_mainfunc_et2_def impl_read_names_file_et2_def fault_simps)
  have "classes_typed (unset_main_flag ClassInfo_init)"
    by (simp add: classes_typed_def unset_main_flag_def ClassInfo_init_def)
  then have "classes_typed ci1"
    using 1(1) typed_class_lines.lines_keep by (auto simp: impl_read_classes_file_et2_def split: option.splits)
  then show ?thesis
    using 1(2) typed_field_lines.lines_keep [of "(ci1, [])" _ "(ci, fm)"]
    by (auto simp: impl_read_fields_file_et2_def split: option.splits)
qed

section \<open>Growing stores\<close>

lemma object_conforms_mono:
  "object_conforms nt ns nm no obj \<Longrightarrow> nt \<le> nt' \<Longrightarrow> no \<le> no' \<Longrightarrow> object_conforms nt' ns nm no' obj"
  by (auto simp: object_conforms_def intro: ptr_ok_mono)

lemma edge_conforms_mono: "edge_conforms no d \<Longrightarrow> no \<le> no' \<Longrightarrow> edge_conforms no' d"
  by (auto simp: edge_conforms_def intro: ptr_ok_mono)

lemma tables_conform_mono: "tables_conform nm no h \<Longrightarrow> no \<le> no' \<Longrightarrow> tables_conform nm no' h"
  by (fastforce simp: tables_conform_def)

lemma contexts_conform_mono: "contexts_conform nm no x \<Longrightarrow> no \<le> no' \<Longrightarrow> contexts_conform nm no' x"
  by (auto simp: contexts_conform_def intro: order_less_le_trans)

lemma tables_conform_frame:
  "m_liveset h' = m_liveset h \<Longrightarrow> m_death_sites_map h' = m_death_sites_map h \<Longrightarrow> m_whereis h' = m_whereis h \<Longrightarrow>
     m_keyset h' = m_keyset h \<Longrightarrow> tables_conform nm no h' = tables_conform nm no h"
  by (simp add: tables_conform_def)

lemma tables_conform_cells [simp]:
  "tables_conform nm no (h\<lparr>obj_cells := os\<rparr>) = tables_conform nm no h"
  "tables_conform nm no (h\<lparr>edge_cells := es\<rparr>) = tables_conform nm no h"
  by (simp_all add: tables_conform_def)

lemma heap_conforms_mono: "heap_conforms nt ns nm h \<Longrightarrow> nt \<le> nt' \<Longrightarrow> heap_conforms nt' ns nm h"
  by (auto simp: heap_conforms_def intro: object_conforms_mono)

lemma node_conforms_mono: "node_conforms nm nc node \<Longrightarrow> nc \<le> nc' \<Longrightarrow> node_conforms nm nc' node"
  by (force simp: node_conforms_def intro: ptr_ok_mono)

lemma thread_conforms_mono:
  "thread_conforms nm nc no th \<Longrightarrow> nc \<le> nc' \<Longrightarrow> no \<le> no' \<Longrightarrow> thread_conforms nm nc' no' th"
  using lessThan_subset_iff [of no no'] unfolding thread_conforms_def by (meson order_less_le_trans order_trans)

lemma exec_conforms_mono: "exec_conforms nm no x \<Longrightarrow> no \<le> no' \<Longrightarrow> exec_conforms nm no' x"
  by (auto simp: exec_conforms_def intro: thread_conforms_mono contexts_conform_mono)

lemma fresh_thread_conforms: "n < nc \<Longrightarrow> thread_conforms nm nc no (Thread_new t k uc n)"
  by (simp add: thread_conforms_def Thread_new_def)

lemma getThread_conforms:
  assumes "exec_conforms nm no x" and "getThread uc t x = (tp, y)"
  shows "exec_conforms nm no y" "tp < length (thread_cells y)" "length (thread_cells x) \<le> length (thread_cells y)"
proof -
  consider (known) "map_of (m_threads x) t = Some tp" "y = x"
    | (new) "map_of (m_threads x) t = None" "tp = length (thread_cells x)"
        "y = (snd (CCNode_root x))\<lparr>thread_cells := thread_cells x @ [Thread_new t (m_kind_x x) uc (length (cc_cells x))],
               m_threads := om_put t tp (m_threads x)\<rparr>"
    using assms(2) by (auto simp: getThread_def CCNode_root_def Let_def split: option.splits)
  then have "exec_conforms nm no y \<and> tp < length (thread_cells y) \<and> length (thread_cells x) \<le> length (thread_cells y)"
  proof cases
    case known
    then show ?thesis using assms(1) by (simp add: exec_conforms_def)
  next
    case new
    have cells: "thread_cells y = thread_cells x @ [Thread_new t (m_kind_x x) uc (length (cc_cells x))]"
      "length (cc_cells y) = Suc (length (cc_cells x))" "m_threads y = om_put t tp (m_threads x)"
      "m_thread_stack y = m_thread_stack x"
      by (simp_all add: new(3) CCNode_root_def)
    have "thread_conforms nm (length (cc_cells y)) no th" if "th \<in> set (thread_cells y)" for th
      using assms(1) that fresh_thread_conforms by (auto simp: cells exec_conforms_def intro: thread_conforms_mono)
    moreover have "node_conforms nm (length (cc_cells y)) node" if "node \<in> set (cc_cells y)" for node
    proof -
      from that consider "node \<in> set (cc_cells x)" | "m_method node = None" "m_parent node = None" "m_callees node = []" "m_simptrace node = []"
        by (auto simp: new(3) CCNode_root_def)
      then show ?thesis
      proof cases
        case 1
        then show ?thesis
          using assms(1) by (auto simp: cells(2) exec_conforms_def intro: node_conforms_mono)
      qed (simp add: node_conforms_def)
    qed
    moreover have "p < length (thread_cells y) \<and> m_id_t (thread_cells y ! p) = i" if "map_of (m_threads y) i = Some p" for i p
      using assms(1) that new(2)
      by (cases "i = t") (auto simp: cells exec_conforms_def nth_append Thread_new_def less_SucI)
    moreover have "\<forall>q \<in> set (m_thread_stack y). q < length (thread_cells y)"
      using assms(1) by (auto simp: cells exec_conforms_def intro: less_SucI)
    moreover have "contexts_conform nm no y"
      using assms(1) by (simp add: new(3) CCNode_root_def exec_conforms_def contexts_conform_def)
    ultimately show ?thesis
      using new(2) by (auto simp: exec_conforms_def cells(1))
  qed
  then show "exec_conforms nm no y" "tp < length (thread_cells y)" "length (thread_cells x) \<le> length (thread_cells y)"
    by blast+
qed

section \<open>The operations on the heap\<close>

lemma heap_conformsD:
  assumes "heap_conforms nt ns nm h"
  shows "heap_ok h" "edges_owned h"
    "p < length (obj_cells h) \<Longrightarrow> object_conforms nt ns nm (length (obj_cells h)) (obj_cells h ! p)"
    "e < length (edge_cells h) \<Longrightarrow> edge_cells h ! e = Some d \<Longrightarrow> edge_conforms (length (obj_cells h)) d"
  using assms nth_mem [of e "edge_cells h"] by (auto simp: heap_conforms_def)

lemma Object_new_conforms:
  "ptr_ok nt th \<Longrightarrow> ptr_ok ns site \<Longrightarrow> object_conforms nt ns nm no (Object_new oid sz kind type site name nj els th t nf a)"
  by (simp add: object_conforms_def Object_new_def)

lemma allocate_conforms:
  assumes "heap_conforms nt ns nm h" and "allocate ci oid sz kind type site nj els th nf t h = Inr (p, h')"
    and "ptr_ok nt th" and "ptr_ok ns site"
  shows "heap_conforms nt ns nm h'" "length (obj_cells h) \<le> length (obj_cells h')" "m_objects h' = om_put oid p (m_objects h)"
    "p < length (obj_cells h')"
proof -
  obtain name where h': "p = length (obj_cells h)"
    "obj_cells h' = obj_cells h @ [Object_new oid sz kind type site name nj els th t nf (m_alloc_time h + sz)]"
    "edge_cells h' = edge_cells h" "m_objects h' = om_put oid p (m_objects h)" "m_liveset h' = insert p (m_liveset h)"
    "m_death_sites_map h' = m_death_sites_map h" "m_whereis h' = m_whereis h" "m_keyset h' = m_keyset h"
    using assms(2) by (auto simp: allocate_Inr note_live_def)
  have "tables_conform nm (length (obj_cells h')) h"
    using assms(1) by (auto simp: heap_conforms_def h'(2) intro: tables_conform_mono)
  then have "tables_conform nm (length (obj_cells h')) h'"
    by (simp add: tables_conform_def h')
  moreover have "heap_ok h'"
    using heap_step_ok [OF step_allocate [OF assms(2)]] heap_conformsD(1) [OF assms(1)] by blast
  moreover have "field_edges h' = field_edges h"
    by (auto simp: field_edges_def h' nth_append less_Suc_eq split: if_splits)
  then have "edges_owned h'"
    using heap_conformsD(2) [OF assms(1)] by (simp add: edges_owned_def h')
  moreover have "object_conforms nt ns nm (length (obj_cells h')) obj" if "obj \<in> set (obj_cells h')" for obj
    using assms(1) that Object_new_conforms [OF assms(3,4)] by (auto simp: h' heap_conforms_def intro: object_conforms_mono)
  moreover have "edge_conforms (length (obj_cells h')) d" if "Some d \<in> set (edge_cells h')" for d
    using assms(1) that by (auto simp: h' heap_conforms_def intro: edge_conforms_mono)
  ultimately show "heap_conforms nt ns nm h'"
    by (simp add: heap_conforms_def)
  show "length (obj_cells h) \<le> length (obj_cells h')" "m_objects h' = om_put oid p (m_objects h)" "p < length (obj_cells h')"
    by (simp_all add: h')
qed

text \<open>A change of one object that keeps its identifier and its pointers.\<close>

lemma upd_object_conforms:
  assumes "heap_conforms nt ns nm h" and "p < length (obj_cells h)"
    and "\<And>obj. m_id_o (f obj) = m_id_o obj \<and> m_fields (f obj) = m_fields obj"
    and "\<And>obj. object_conforms nt ns nm (length (obj_cells h)) obj \<Longrightarrow> object_conforms nt ns nm (length (obj_cells h)) (f obj)"
  shows "\<exists>h'. upd_object p f h = Inr h' \<and> heap_conforms nt ns nm h' \<and> length (obj_cells h') = length (obj_cells h) \<and>
    m_objects h' = m_objects h"
proof -
  define h' where "h' = h\<lparr>obj_cells := (obj_cells h)[p := f (obj_cells h ! p)]\<rparr>"
  have "heap_ok h'"
    using assms(2,3) by (intro heap_ok_same_ids [OF heap_conformsD(1) [OF assms(1)]]) (auto simp: h'_def nth_list_update)
  moreover have "field_edges h' = field_edges h"
    using assms(2,3) by (auto simp: field_edges_def h'_def nth_list_update split: if_splits)
  then have "edges_owned h'"
    using heap_conformsD(2) [OF assms(1)] by (simp add: edges_owned_def h'_def)
  moreover have "object_conforms nt ns nm (length (obj_cells h)) obj" if "obj \<in> set (obj_cells h')" for obj
    using that assms(1,2,4) by (auto simp: h'_def heap_conforms_def dest!: set_update_subset_insert [THEN subsetD])
  ultimately have "heap_conforms nt ns nm h'"
    using assms(1) by (auto simp: heap_conforms_def h'_def)
  moreover have "upd_object p f h = Inr h'"
    using assms(2) by (simp add: upd_object_Inr h'_def)
  ultimately show ?thesis by (auto simp: h'_def)
qed

lemma make_edge_conforms:
  assumes "heap_conforms nt ns nm h" and "p < length (obj_cells h)" and "q < length (obj_cells h)"
  shows "\<exists>h'. make_edge (Some p) k (Some q) t h = (length (edge_cells h), h') \<and>
    (\<exists>h''. updateField p (Some (length (edge_cells h))) k h' = Inr h'' \<and> heap_conforms nt ns nm h'' \<and>
       length (obj_cells h'') = length (obj_cells h) \<and> m_objects h'' = m_objects h)"
proof -
  let ?e = "length (edge_cells h)"
  define h' where "h' = h\<lparr>edge_cells := edge_cells h @ [Some (Edge_new (Some p) k (Some q) t)]\<rparr>"
  have fe: "field_edges h' = field_edges h"
    by (simp add: field_edges_def h'_def)
  have valid: "e < ?e \<and> edge_cells h ! e \<noteq> None" if "(p', j, e) \<in> field_edges h" for p' j e
    using heap_conformsD(2) [OF assms(1)] that by (auto simp: edges_owned_def)
  have owned': "edges_owned h'"
    using heap_conformsD(2) [OF assms(1)] unfolding edges_owned_def fe by (auto simp: h'_def nth_append less_SucI)
  obtain h'' where h'': "updateField p (Some ?e) k h' = Inr h''" "edges_owned h''"
    using updateField_effect [OF owned', of p ?e k] assms(2) valid
    by (auto simp: fe) (auto simp: h'_def)
  obtain cs where cells: "h'' = h'\<lparr>edge_cells := cs, obj_cells := (obj_cells h)[p := (obj_cells h ! p)\<lparr>m_fields := om_put k (Some ?e) (m_fields (obj_cells h ! p))\<rparr>]\<rparr>"
    and old: "case map_of (m_fields (obj_cells h ! p)) k of
        Some (Some old) \<Rightarrow> cs = (edge_cells h')[old := None] | _ \<Rightarrow> cs = edge_cells h'"
  proof (rule updateField_cases [OF h''(1)], rule that)
    fix cs
    assume "h'' = h'\<lparr>edge_cells := cs, obj_cells := (obj_cells h')[p := (obj_cells h' ! p)\<lparr>m_fields := om_put k (Some ?e) (m_fields (obj_cells h' ! p))\<rparr>]\<rparr>"
    then show "h'' = h'\<lparr>edge_cells := cs, obj_cells := (obj_cells h)[p := (obj_cells h ! p)\<lparr>m_fields := om_put k (Some ?e) (m_fields (obj_cells h ! p))\<rparr>]\<rparr>"
      by (simp add: h'_def)
  qed (auto simp: h'_def split: option.splits)
  have "set cs \<subseteq> insert None (set (edge_cells h'))"
    using old by (auto split: option.splits dest!: set_update_subset_insert [THEN subsetD])
  note cells = cells this
  have "heap_ok h''"
    using assms(2) by (intro heap_ok_same_ids [OF heap_conformsD(1) [OF assms(1)]]) (auto simp: cells(1) h'_def nth_list_update)
  moreover have "tables_conform nm (length (obj_cells h'')) h''"
    using assms(1) by (simp add: cells(1) h'_def heap_conforms_def)
  moreover have "object_conforms nt ns nm (length (obj_cells h'')) obj" if "obj \<in> set (obj_cells h'')" for obj
    using that assms(1,2) heap_conformsD(3) [OF assms(1,2)]
    by (auto simp: cells(1) heap_conforms_def object_conforms_def dest!: set_update_subset_insert [THEN subsetD])
  moreover have "edge_conforms (length (obj_cells h'')) d" if "Some d \<in> set (edge_cells h'')" for d
  proof -
    have "Some d \<in> set (edge_cells h')"
      using that cells by auto
    then consider "Some d \<in> set (edge_cells h)" | "d = Edge_new (Some p) k (Some q) t"
      by (auto simp: h'_def)
    then show ?thesis
      using assms by cases (auto simp: heap_conforms_def cells(1) edge_conforms_def Edge_new_def)
  qed
  ultimately have "heap_conforms nt ns nm h''"
    using h''(2) by (simp add: heap_conforms_def)
  then show ?thesis
    using h''(1) by (auto simp: make_edge_def h'_def [symmetric]) (auto simp: cells(1) h'_def)
qed

section \<open>The handlers\<close>

text \<open>A computation is sound when its faults are those a handler may have and its values are as promised.\<close>

definition handler_faults :: "fault set" where
  "handler_faults = {Assertion_Failed, Invalid_Argument, Out_Of_Range}"

definition sound :: "('a \<Rightarrow> bool) \<Rightarrow> 'a result \<Rightarrow> bool" where
  "sound Q r \<longleftrightarrow> (case r of Inl e \<Rightarrow> e \<in> handler_faults | Inr x \<Rightarrow> Q x)"

lemma sound_simps [simp]: "sound Q (Inl e) \<longleftrightarrow> e \<in> handler_faults" "sound Q (Inr x) \<longleftrightarrow> Q x"
  by (simp_all add: sound_def)

lemma handler_faults_simps [simp]:
  "Assertion_Failed \<in> handler_faults" "Invalid_Argument \<in> handler_faults" "Out_Of_Range \<in> handler_faults"
  by (simp_all add: handler_faults_def)

lemma sound_bind: "sound P m \<Longrightarrow> (\<And>x. P x \<Longrightarrow> sound Q (f x)) \<Longrightarrow> sound Q (bindR m f)"
  by (cases m) simp_all

lemma sound_assert: "sound (\<lambda>_. b) (assertR b)"
  by (cases b) simp_all

definition n_objects :: "Sim \<Rightarrow> nat" where
  "n_objects s = length (obj_cells (sim_heap s))"

text \<open>What a step that may make objects promises: a pointer to one and no fewer objects.\<close>

abbreviation makes :: "nat \<Rightarrow> obj_ptr \<times> Sim \<Rightarrow> bool" where
  "makes n r \<equiv> sim_conforms (snd r) \<and> n \<le> n_objects (snd r) \<and> fst r < n_objects (snd r)"

lemma conforms_frame [simp]:
  "sim_conforms (push_record r s) = sim_conforms s"
  "sim_conforms (s\<lparr>allocation_time := t\<rparr>) = sim_conforms s"
  "sim_conforms (s\<lparr>sim_exec := IncUpdateTime (sim_exec s)\<rparr>) = sim_conforms s"
  "sim_conforms (s\<lparr>sim_exec := SetAllocTime t (sim_exec s)\<rparr>) = sim_conforms s"
  "n_objects (push_record r s) = n_objects s" "n_objects (s\<lparr>allocation_time := t\<rparr>) = n_objects s"
  "n_objects (s\<lparr>sim_exec := x\<rparr>) = n_objects s"
  by (simp_all add: sim_conforms_def push_record_def exec_conforms_def contexts_conform_def IncUpdateTime_def SetAllocTime_def n_objects_def)

lemma getObject_conforms:
  assumes "sim_conforms s" and "getObject (sim_heap s) i = Some p"
  shows "p < n_objects s"
  using heap_okD(1) [OF heap_conformsD(1) [OF sim_conformsD(1) [OF assms(1)]]] assms(2)
  by (simp add: getObject_def n_objects_def)

lemma sim_getThread_conforms:
  assumes "sim_conforms s" and "sim_getThread ui t s = (tp, s')"
  shows "sim_conforms s'" "tp < length (thread_cells (sim_exec s'))" "sim_heap s' = sim_heap s" "sim_classes s' = sim_classes s"
    "n_objects s' = n_objects s"
proof -
  obtain y where y: "getThread (ui_curcc ui) t (sim_exec s) = (tp, y)" "s' = s\<lparr>sim_exec := y\<rparr>"
    using assms(2) by (auto simp: sim_getThread_def split: prod.splits)
  note thread = getThread_conforms [OF sim_conformsD(2) [OF assms(1)] y(1)]
  show "sim_conforms s'"
    using assms(1) thread heap_conforms_mono [OF sim_conformsD(1) [OF assms(1)] thread(3)]
    by (simp add: y(2) sim_conforms_def)
  show "tp < length (thread_cells (sim_exec s'))" "sim_heap s' = sim_heap s" "sim_classes s' = sim_classes s"
    "n_objects s' = n_objects s"
    using thread by (simp_all add: y(2) n_objects_def)
qed

text \<open>A new heap with no fewer objects.\<close>

lemma sim_heap_conforms:
  assumes "sim_conforms s"
    and "heap_conforms (length (thread_cells (sim_exec s))) (length (site_cells (sim_classes s)))
      (length (method_cells (sim_classes s))) h"
    and "length (obj_cells (sim_heap s)) \<le> length (obj_cells h)"
    and "\<And>i. map_of (m_objects (sim_heap s)) i \<noteq> None \<Longrightarrow> map_of (m_objects h) i \<noteq> None"
  shows "sim_conforms (s\<lparr>sim_heap := h\<rparr>)" "sim_conforms (s\<lparr>sim_heap := h, total_objects := n\<rparr>)"
  using assms exec_conforms_mono [OF sim_conformsD(2) [OF assms(1)] assms(3)]
  by (auto simp: sim_conforms_def intro: order_less_le_trans [OF _ assms(3)])

lemma allocate_unannounced_sound:
  assumes "sim_conforms s" and "tp < length (thread_cells (sim_exec s))"
  shows "sound (\<lambda>r. makes (n_objects s) r \<and> map_of (m_objects (sim_heap (snd r))) i \<noteq> None) (allocate_unannounced k i tp s)"
proof -
  obtain h where h: "allocate (sim_classes s) i 4 k tmp_todo_str None tmp_todo_str 1 (Some tp) False (NowUp (sim_exec s)) (sim_heap s) =
      Inr (length (obj_cells (sim_heap s)), h)"
    by (simp add: allocate_Inr allocsite_name_def)
  note eff = allocate_conforms [OF sim_conformsD(1) [OF assms(1)] h, simplified, OF assms(2)]
  show ?thesis
    using eff sim_heap_conforms(2) [OF assms(1) eff(1,2)] by (simp add: allocate_unannounced_def h n_objects_def)
qed

lemma stamp_sound:
  assumes "sim_conforms s" and "p < n_objects s"
  shows "sound (\<lambda>s'. sim_conforms s' \<and> n_objects s' = n_objects s) (stamp p t s)"
proof -
  obtain h where h: "upd_object p (setLastTimestamp t) (sim_heap s) = Inr h"
    "heap_conforms (length (thread_cells (sim_exec s))) (length (site_cells (sim_classes s))) (length (method_cells (sim_classes s))) h"
    "length (obj_cells h) = length (obj_cells (sim_heap s))" "m_objects h = m_objects (sim_heap s)"
    using upd_object_conforms [OF sim_conformsD(1) [OF assms(1)], of p "setLastTimestamp t"] assms(2)
    by (auto simp: n_objects_def setLastTimestamp_def object_conforms_def)
  then show ?thesis
    using sim_heap_conforms(1) [OF assms(1) h(2)] by (simp add: stamp_def n_objects_def)
qed

lemma update_object_sound:
  assumes "sim_conforms s"
  shows "sound (makes (n_objects s)) (update_object ui i t s)"
proof (cases "getObject (sim_heap s) i")
  case (Some p)
  then show ?thesis
    using assms getObject_conforms by (simp add: update_object_def)
next
  case None
  obtain tp s1 where s1: "sim_getThread ui t s = (tp, s1)" by fastforce
  note thread = sim_getThread_conforms [OF assms s1]
  have "sound (makes (n_objects s)) (bindR (allocate_unannounced CHR ''U'' i tp s1)
      (\<lambda>(p, s). Inr (p, s\<lparr>no_alloc_map := om_put i p (no_alloc_map s)\<rparr>)))"
    by (rule sound_bind [OF allocate_unannounced_sound [OF thread(1,2), of i "CHR ''U''"]])
      (use thread(5) in \<open>auto simp: sim_conforms_def n_objects_def\<close>)
  then show ?thesis
    using None s1 by (simp add: update_object_def split: option.split)
qed

lemma update_edge_sound:
  assumes "sim_conforms s" and "p < n_objects s" and "q < n_objects s"
  shows "sound sim_conforms (update_edge p k q i s)"
proof -
  let ?h = "sim_heap s"
  note hc = sim_conformsD(1) [OF assms(1)]
  obtain h' h'' where made: "make_edge (Some p) k (Some q) (NowUp (sim_exec s)) ?h = (length (edge_cells ?h), h')"
    "updateField p (Some (length (edge_cells ?h))) k h' = Inr h''" "sim_conforms (s\<lparr>sim_heap := h''\<rparr>)"
    using make_edge_conforms [OF hc, of p q k "NowUp (sim_exec s)"] assms(2,3) sim_heap_conforms(1) [OF assms(1)]
    unfolding n_objects_def by (metis order_refl)
  have p: "p < length (obj_cells ?h)"
    using assms(2) by (simp add: n_objects_def)
  show ?thesis
  proof (cases "map_of (m_fields (obj_cells ?h ! p)) k")
    case None
    then have "getEdge ?h p k = Inr None"
      using p by (simp add: getEdge_Inr)
    then show ?thesis using assms(1) by (simp add: update_edge_def)
  next
    case (Some eo)
    then have edge: "getEdge ?h p k = Inr eo"
      using p by (simp add: getEdge_Inr)
    show ?thesis
    proof (cases eo)
      case None
      then show ?thesis using assms(1) edge by (simp add: update_edge_def)
    next
      case (Some e)
      have "(p, k, e) \<in> field_edges ?h"
        using \<open>map_of _ k = Some eo\<close> Some p by (simp add: field_edges_def)
      then have "e < length (edge_cells ?h)" "edge_cells ?h ! e \<noteq> None"
        using heap_conformsD(2) [OF hc] unfolding edges_owned_def by blast+
      then obtain d where d: "e < length (edge_cells ?h)" "edge_cells ?h ! e = Some d"
        by blast
      then have "deref_edge ?h e = Inr d"
        by (simp add: deref_edge_Inr)
      note run = edge Some made this
      show ?thesis
      proof (cases "m_target d")
        case None
        then show ?thesis using assms(1) run by (simp add: update_edge_def)
      next
        case (Some old)
        then have "old < length (obj_cells ?h)"
          using heap_conformsD(4) [OF hc d] by (simp add: edge_conforms_def)
        then show ?thesis using assms(1) run Some by (simp add: update_edge_def deref_valid)
      qed
    qed
  qed
qed

lemma sound_weaken: "sound P r \<Longrightarrow> (\<And>x. P x \<Longrightarrow> Q x) \<Longrightarrow> sound Q r"
  by (cases r) simp_all

lemma stamp_conforms: "sim_conforms s \<Longrightarrow> p < n_objects s \<Longrightarrow> sound sim_conforms (stamp p t s)"
  by (rule sound_weaken [OF stamp_sound]) simp_all

lemma method_event_sound:
  assumes "sim_conforms s"
  shows "sound sim_conforms (method_event ui m i t s)"
proof -
  define time where "time = NowUp (IncUpdateTime (sim_exec s))"
  define s1 where "s1 = push_record (Method_Rec (MethodRecord_new m i t time)) (s\<lparr>sim_exec := IncUpdateTime (sim_exec s)\<rparr>)"
  obtain tp s2 where s2: "sim_getThread ui t s1 = (tp, s2)" by fastforce
  have "sim_conforms s1"
    using assms by (simp add: s1_def)
  note thread = sim_getThread_conforms [OF this s2]
  have "sound (makes 0) (case getObject (sim_heap s2) i of
       Some obj \<Rightarrow> Inr (obj, s2) | None \<Rightarrow> allocate_unannounced CHR ''M'' i tp s2)"
    using thread(1) getObject_conforms [OF thread(1)] sound_weaken [OF allocate_unannounced_sound [OF thread(1,2)], where Q = "makes 0"]
    by (auto split: option.split)
  then have "sound sim_conforms (bindR (case getObject (sim_heap s2) i of
       Some obj \<Rightarrow> Inr (obj, s2) | None \<Rightarrow> allocate_unannounced CHR ''M'' i tp s2) (\<lambda>(obj, s). stamp obj time s))"
    by (rule sound_bind) (auto intro: stamp_conforms)
  then show ?thesis
    using thread(1) s2 by (simp add: method_event_def s1_def time_def Let_def)
qed

lemma exit_event_sound: "sim_conforms s \<Longrightarrow> sound sim_conforms (exit_event ui m t s)"
  by (auto simp: exit_event_def Let_def assertR_def)

lemma update_event_sound:
  assumes "sim_conforms s"
  shows "sound sim_conforms (update_event ui i j k t s)"
proof -
  define time where "time = NowUp (IncUpdateTime (sim_exec s))"
  define s1 where "s1 = push_record (Update_Rec (UpdateRecord_new j k i t time (ui_timestamp ui))) (s\<lparr>sim_exec := IncUpdateTime (sim_exec s)\<rparr>)"
  have s1: "sim_conforms s1"
    using assms by (simp add: s1_def)
  have stamps: "sound sim_conforms (bindR (stamp q time s) (\<lambda>s. bindR (stamp p time s) (\<lambda>s. update_edge p k q j s)))"
    if "sim_conforms s" "p < n_objects s" "q < n_objects s" for s p q
    by (rule sound_bind [OF stamp_sound [OF that(1,3)]], rule sound_bind [OF stamp_sound], use that in simp_all)
      (rule update_edge_sound, simp_all)
  have "sound sim_conforms (bindR (update_object ui i t s1) (\<lambda>(obj, s). bindR (assertR (0 < j)) (\<lambda>_.
      bindR (update_object ui j t s) (\<lambda>(target, s).
      bindR (stamp target time s) (\<lambda>s. bindR (stamp obj time s) (\<lambda>s. update_edge obj k target j s))))))"
  proof (rule sound_bind [OF update_object_sound [OF s1]])
    fix r
    assume r: "makes (n_objects s1) r"
    obtain p s2 where ps: "r = (p, s2)" by fastforce
    have "sound sim_conforms (bindR (update_object ui j t s2) (\<lambda>(target, s).
        bindR (stamp target time s) (\<lambda>s. bindR (stamp p time s) (\<lambda>s. update_edge p k target j s))))"
      using r by (intro sound_bind [OF update_object_sound]) (auto simp: ps intro!: stamps)
    then show "sound sim_conforms (case r of (obj, s) \<Rightarrow> bindR (assertR (0 < j)) (\<lambda>_.
        bindR (update_object ui j t s) (\<lambda>(target, s).
        bindR (stamp target time s) (\<lambda>s. bindR (stamp obj time s) (\<lambda>s. update_edge obj k target j s)))))"
      unfolding ps prod.case by (rule sound_bind [OF sound_assert])
  qed
  then show ?thesis
    by (simp add: update_event_def s1_def time_def Let_def)
qed

lemma witness_event_sound:
  assumes "sim_conforms s"
  shows "sound sim_conforms (witness_event i c ts s)"
  using assms getObject_conforms [OF assms] stamp_conforms [of "push_record (Witness_Rec (WitnessRecord_new i c ts (NowUp (sim_exec s)))) s"]
  by (auto simp: witness_event_def Let_def split: option.split)

lemma names_of_sites [simp]:
  "allocsite_name (ci\<lparr>TheAllocSites := sites\<rparr>) po = allocsite_name ci po"
proof -
  have "Method_getName (ci\<lparr>TheAllocSites := sites\<rparr>) = Method_getName ci"
    by (simp add: fun_eq_iff Method_getName_def method_at_def cong: option.case_cong)
  then show ?thesis by (simp add: allocsite_name_def cong: option.case_cong)
qed

lemma classes_conformD:
  assumes "classes_conform ci" and "map_of (TheAllocSites ci) i = Some po"
  shows "ptr_ok (length (site_cells ci)) po" "\<exists>n. allocsite_name ci po = Inr n"
proof -
  show "ptr_ok (length (site_cells ci)) po"
    using assms map_of_SomeD [OF assms(2)] by (auto simp: classes_conform_def classes_typed_def)
  show "\<exists>n. allocsite_name ci po = Inr n"
    using assms by (cases po) (auto simp: classes_conform_def sites_named_def allocsite_name_def [of _ None])
qed

lemma classes_conform_lookup:
  assumes "classes_conform ci" and "om_index a (TheAllocSites ci) = (site, sites)"
  shows "classes_conform (ci\<lparr>TheAllocSites := sites\<rparr>)"
proof -
  have sites: "map_of sites i = Some po \<Longrightarrow> po = None \<or> map_of (TheAllocSites ci) i = Some po" for i po
    using assms(2) by (auto simp: om_index_def split: option.splits if_splits)
  have "set sites \<subseteq> insert (a, None) (set (TheAllocSites ci))"
    using assms(2) set_om_put [of a None "TheAllocSites ci"] by (auto simp: om_index_def split: option.splits)
  then have "classes_typed (ci\<lparr>TheAllocSites := sites\<rparr>)"
    using assms(1) by (auto simp: classes_conform_def classes_typed_def)
  moreover have "sites_named (ci\<lparr>TheAllocSites := sites\<rparr>)"
    using assms(1) sites unfolding classes_conform_def sites_named_def by fastforce
  ultimately show ?thesis by (simp add: classes_conform_def)
qed

lemma alloc_event_sound:
  assumes "sim_conforms s"
  shows "sound sim_conforms (alloc_event ui k i sz c a len t ds s)"
proof -
  let ?time = "NowUp (sim_exec s)"
  let ?rec = "AllocRecord_new i a t c len sz k ds ?time (ui_num_dims ui)"
  have rec: "sound (\<lambda>_. True) ?rec"
    by (auto simp: AllocRecord_new_def num_dims_of_def stoi_def Let_def split: option.split)
  show ?thesis
  proof (cases ?rec)
    case (Inl e)
    then show ?thesis using rec by (simp add: alloc_event_def)
  next
    case (Inr r)
    obtain tp s1 where s1: "sim_getThread ui t (push_record (Alloc_Rec r) s) = (tp, s1)" by fastforce
    have "sim_conforms (push_record (Alloc_Rec r) s)"
      using assms by simp
    note thread = sim_getThread_conforms [OF this s1]
    obtain site sites where site: "om_index a (TheAllocSites (sim_classes s1)) = (site, sites)" by fastforce
    define at where "at = m_alloc_time (sim_heap s1)"
    define s2 where "s2 = s1\<lparr>allocation_time := at, sim_exec := SetAllocTime at (sim_exec s1),
        sim_classes := (sim_classes s1)\<lparr>TheAllocSites := sites\<rparr>\<rparr>"
    have sites: "map_of sites i = Some po \<Longrightarrow> po = None \<or> map_of (TheAllocSites (sim_classes s1)) i = Some po"
      "site \<noteq> None \<Longrightarrow> map_of (TheAllocSites (sim_classes s1)) a = Some site" for i po
      using site by (auto simp: om_index_def split: option.splits if_splits)
    note old = sim_conformsD(3) [OF thread(1)]
    have "classes_conform ((sim_classes s1)\<lparr>TheAllocSites := sites\<rparr>)"
      by (rule classes_conform_lookup [OF old site])
    then have s2: "sim_conforms s2" "tp < length (thread_cells (sim_exec s2))"
      using thread(1,2) by (auto simp: s2_def sim_conforms_def exec_conforms_def contexts_conform_def SetAllocTime_def)
    have valid: "ptr_ok (length (site_cells (sim_classes s2))) site"
      using classes_conformD(1) [OF old sites(2)] by (cases site) (simp_all add: s2_def)
    have "\<exists>name. allocsite_name (sim_classes s2) site = Inr name"
      using classes_conformD(2) [OF old sites(2)] by (cases site) (simp_all add: s2_def allocsite_name_def [of _ None])
    then obtain p h where h: "allocate (sim_classes s2) i sz k tmp_todo_str site tmp_todo_str len (Some tp) True
        (NowUp (sim_exec s2)) (sim_heap s2) = Inr (p, h)"
      by (auto simp: allocate_Inr)
    note eff = allocate_conforms [OF sim_conformsD(1) [OF s2(1)] h _ valid, simplified, OF s2(2)]
    define s3 where "s3 = s2\<lparr>sim_heap := h, total_objects := total_objects s2 + 1, sim_exec := IncUpdateTime (sim_exec s2)\<rparr>"
    have "sim_conforms (s2\<lparr>sim_heap := h, total_objects := total_objects s2 + 1\<rparr>)"
      using eff by (intro sim_heap_conforms(2) [OF s2(1)]) auto
    then have "sim_conforms s3"
      unfolding s3_def using conforms_frame(3) [of "s2\<lparr>sim_heap := h, total_objects := total_objects s2 + 1\<rparr>"] by simp
    then have "sound sim_conforms (stamp p ?time s3)"
      using eff(4) by (intro stamp_conforms) (simp_all add: s3_def n_objects_def)
    then show ?thesis
      using s2(1) h by (simp add: alloc_event_def Inr s1 site s2_def s3_def at_def Let_def)
  qed
qed

lemma apply_event_sound: "sim_conforms s \<Longrightarrow> sound sim_conforms (apply_event env s ev)"
  by (cases ev) (simp_all add: method_event_sound exit_event_sound alloc_event_sound update_event_sound witness_event_sound)

section \<open>Whole readings and runs\<close>

lemma trace_line_conforms:
  assumes "sim_conforms s" and "trace_line env s tk = Inr s'"
  shows "sim_conforms s'"
proof -
  obtain eo where "(case eo of None \<Rightarrow> Inr s | Some e \<Rightarrow> apply_event env s e) = Inr s'"
    using assms(2) by (auto simp: trace_line_def bindR_Inr_iff)
  then show ?thesis
    using assms(1) apply_event_sound [OF assms(1), of env] by (cases eo) (simp_all, metis sound_simps(2))
qed

interpretation conforming_lines: line_handler "trace_line env" sim_conforms for env
  by unfold_locales (rule trace_line_conforms)

lemma reading_sound:
  assumes "sim_conforms s"
  shows "case read_trace_file_part1 env f d s of
      Inl e \<Rightarrow> e \<in> {Assertion_Failed, Bad_Conversion, Out_Of_Bounds, Invalid_Argument, Out_Of_Range}
    | Inr s' \<Rightarrow> sim_conforms s'"
proof (cases "read_trace_file_part1 env f d s")
  case (Inl e)
  have "e \<in> {Assertion_Failed, Bad_Conversion, Invalid_Argument, Out_Of_Range}"
    if ok: "sim_conforms s" "tokenizer_ok tk" and line: "trace_line env s tk = Inl e" for s tk
  proof -
    consider "parse_line tk = Inl e" | ev where "apply_event env s ev = Inl e"
      using line by (auto simp: trace_line_def bindR_Inl_iff split: option.splits)
    then show ?thesis
    proof cases
      case 1
      then show ?thesis using parse_line_fault [OF ok(2)] by blast
    next
      case (2 ev)
      then show ?thesis using apply_event_sound [OF ok(1), of env ev] by (auto simp: handler_faults_def)
    qed
  qed
  then show ?thesis
    using Inl conforming_lines.lines_fault [OF assms, of env "Tokenizer_new f d" e]
    by (auto simp: read_trace_file_part1_def)
next
  case (Inr s')
  then show ?thesis
    using conforming_lines.lines_keep [OF assms] by (simp add: read_trace_file_part1_def)
qed

lemma sim_start_conforms:
  assumes "classes_typed ci" and "TheAllocSites ci = []"
  shows "sim_conforms (sim_start cckind obj_debug ci)"
  using assms
  by (simp add: sim_conforms_def heap_conforms_def exec_conforms_def classes_conform_def sites_named_def tables_conform_def
      contexts_conform_def sim_start_def Sim_init_def
      HeapState_init_def ExecState_new_def enableObjectDebug_def heap_ok_def edges_owned_def field_edges_def)

lemma merlin_conforms:
  assumes "sorting std_sort" and "sim_conforms s" and "reading_heap (sim_heap s)"
    and "apply_merlin std_sort tr (sim_heap s) = Inr h"
  shows "sim_conforms (s\<lparr>sim_heap := h\<rparr>)"
proof -
  let ?h = "sim_heap s"
  note hc = sim_conformsD(1) [OF assms(2)]
  have h: "same_shape ?h h" "cells_inv ?h (heap_ptrs ?h) {} h"
    using apply_merlin_effect [OF assms(1) reading_merlin(1) [OF assms(3)], of tr] assms(4) by auto
  have cell: "obj_cells h ! p = settled ?h p \<or> obj_cells h ! p = obj_cells ?h ! p" if "p < length (obj_cells ?h)" for p
    using h(2) that by (cases "p \<in> heap_ptrs ?h") (simp_all add: cells_inv_def)
  note len = same_shapeD(1) [OF h(1)]
  have no_edge: "edge_cells h = []"
    using same_shapeD(2) [OF h(1)] assms(3) by (simp add: reading_heap_def)
  have liveset: "m_liveset h = m_liveset ?h"
    using h(1) unfolding same_shape_def by (metis HeapState.select_convs(4) HeapState.surjective HeapState.update_convs(1,2))
  have same: "m_fields (obj_cells h ! p) = m_fields (obj_cells ?h ! p) \<and> m_id_o (obj_cells h ! p) = m_id_o (obj_cells ?h ! p) \<and>
      object_conforms nt ns nm no (obj_cells h ! p) = object_conforms nt ns nm no (obj_cells ?h ! p)"
    if "p < length (obj_cells ?h)" for p nt ns nm no
    using cell [OF that] by (auto simp: settled_def setDeathTime_def setLastTimestamp_def object_conforms_def)
  have "heap_ok h"
    using same by (intro heap_ok_same_ids [OF heap_conformsD(1) [OF hc] len _ same_shapeD(3) [OF h(1)] liveset]) blast
  moreover have "edges_owned h"
    using assms(3) same len by (auto simp: edges_owned_def field_edges_def reading_heap_def)
  moreover have "object_conforms nt ns nm (length (obj_cells h)) obj"
    if "obj \<in> set (obj_cells h)" "heap_conforms nt ns nm ?h" for obj nt ns nm
    using that same len heap_conformsD(3) [OF that(2)] by (auto simp: in_set_conv_nth)
  moreover have "tables_conform nm (length (obj_cells h)) h" if "tables_conform nm (length (obj_cells ?h)) ?h" for nm
  proof -
    have "h\<lparr>obj_cells := obj_cells ?h, edge_cells := edge_cells ?h\<rparr> = ?h"
      using h(1) by (simp add: same_shape_def)
    then show ?thesis
      using that tables_conform_cells len by metis
  qed
  ultimately have "heap_conforms nt ns nm h" if "heap_conforms nt ns nm ?h" for nt ns nm
    using that no_edge by (simp add: heap_conforms_def)
  then show ?thesis
    using hc len same_shapeD(3) [OF h(1)] by (intro sim_heap_conforms(1) [OF assms(2)]) simp_all
qed

text \<open>
  C10: Pointers have their types. In a conforming state every pointer of an object, an edge, a node of
  the calling context tree, a class, method, field or allocation site, of the class tables, of the tables
  of the heap and of the contexts, of \<open>no_alloc_map\<close>, and of a thread except its \<open>m_curcc\<close> (which no
  constructor sets) leads to a cell of its store, every edge of a field exists and belongs to that field, and
  identifiers lead to objects and threads that carry them. From a conforming state, with edges or without,
  reading any file either stops in one of five ways, none of them a NULL or dangling pointer, or
  returns a conforming state. What the command \<open>SIM\<close> returns is a conforming state too.
\<close>
theorem type_soundness:
  assumes "sim_conforms s"
  shows "(case read_trace_file_part1 env f d s of
      Inl e \<Rightarrow> e \<in> {Assertion_Failed, Bad_Conversion, Out_Of_Bounds, Invalid_Argument, Out_Of_Range}
    | Inr s' \<Rightarrow> sim_conforms s') \<and>
    (\<forall>s'. sorting std_sort \<longrightarrow> sim_main env std_sort cckind files stdin argv = Inr s' \<longrightarrow> sim_conforms s')"
proof (intro conjI allI impI)
  show "case read_trace_file_part1 env f d s of
      Inl e \<Rightarrow> e \<in> {Assertion_Failed, Bad_Conversion, Out_Of_Bounds, Invalid_Argument, Out_Of_Range}
    | Inr s' \<Rightarrow> sim_conforms s'"
    by (rule reading_sound [OF assms])
  fix s'
  assume sort: "sorting std_sort" and run: "sim_main env std_sort cckind files stdin argv = Inr s'"
  obtain dl ci s1 h where steps: "read_names_file_et2 (files (argv ! 2)) (files (argv ! 3)) (files (argv ! 4)) ClassInfo_init = Inr ci"
    "read_trace_file_part1 env stdin dl (sim_start cckind (argv ! 7 = ''OBJDEBUG'') ci) = Inr s1"
    "apply_merlin std_sort (sim_trace s1) (sim_heap s1) = Inr h" "s' = s1\<lparr>sim_heap := h\<rparr>"
    using run unfolding sim_main_steps by (auto simp: fault_simps)
  have "TheAllocSites ci = []"
    using names_file_sites [OF steps(1)] by (simp add: ClassInfo_init_def)
  then have "sim_conforms s1"
    using reading_sound [OF sim_start_conforms [OF names_typed [OF steps(1)], of cckind "argv ! 7 = ''OBJDEBUG''"], of env stdin dl] steps(2) by simp
  moreover have "reading_heap (sim_heap s1)"
    using read_ok [OF steps(2)] start_after_names [OF steps(1)] by (simp add: sim_ok_def)
  ultimately show "sim_conforms s'"
    unfolding steps(4) using merlin_conforms [OF sort _ _ steps(3)] by blast
qed

text \<open>A conforming state with an edge: the object 7 refers to the object 8 in its field 3.\<close>

definition edge_heap :: HeapState where
  "edge_heap = HeapState_init\<lparr>obj_cells := [demo_object 7 4 [(3, Some 0)], demo_object 8 2 []],
     edge_cells := [Some (Edge_new (Some 0) 3 (Some 1) 5)], m_objects := [(7, 0), (8, 1)], m_liveset := {0, 1}\<rparr>"

definition edge_sim :: Sim where
  "edge_sim = (Sim_init StackOnly ClassInfo_init)\<lparr>sim_heap := edge_heap\<rparr>"

lemma type_soundness_witness:
  "sim_conforms edge_sim \<and> (\<exists>s'. read_trace_file_part1 demo_env ''U 7 9 3 1'' E_SPACE edge_sim = Inr s' \<and> sim_conforms s') \<and>
   (\<exists>s'. sim_main demo_env sort_by StackOnly demo_files ''M 1 7 1'' demo_argv = Inr s' \<and> sim_conforms s')"
proof -
  have "field_edges edge_heap = {(0, 3, 0)}"
    by (auto simp: field_edges_def edge_heap_def demo_object_def less_Suc_eq split: if_splits)
  moreover have "heap_ok edge_heap"
    by (auto simp: heap_ok_def edge_heap_def demo_object_def om_wf_def less_Suc_eq split: if_splits)
  ultimately have conf: "sim_conforms edge_sim"
    by (simp add: sim_conforms_def heap_conforms_def exec_conforms_def classes_conform_def classes_typed_def sites_named_def edges_owned_def
        tables_conform_def contexts_conform_def edge_sim_def
        Sim_init_def ExecState_new_def ClassInfo_init_def) (simp add: edge_heap_def HeapState_init_def demo_object_def Object_new_def object_conforms_def edge_conforms_def Edge_new_def om_wf_def)
  have "\<not> isl (read_trace_file_part1 demo_env ''U 7 9 3 1'' E_SPACE edge_sim)"
    "\<not> isl (sim_main demo_env sort_by StackOnly demo_files ''M 1 7 1'' demo_argv)"
    by code_simp+
  then obtain s1 s2 where "read_trace_file_part1 demo_env ''U 7 9 3 1'' E_SPACE edge_sim = Inr s1"
    "sim_main demo_env sort_by StackOnly demo_files ''M 1 7 1'' demo_argv = Inr s2"
    by (metis isl_def sum.exhaust)
  moreover have "sorting (sort_by :: (obj_ptr \<Rightarrow> obj_ptr \<Rightarrow> bool) \<Rightarrow> obj_ptr list \<Rightarrow> obj_ptr list)"
    by (rule insertion.sorting_axioms)
  ultimately show ?thesis
    using conf type_soundness [OF conf, of demo_env "''U 7 9 3 1''" E_SPACE sort_by StackOnly demo_files "''M 1 7 1''" demo_argv] by simp
qed

end
