(* ===== verification/Union_Find.thy ===== *)
theory Union_Find
  imports Heap_Model
begin

text \<open>
  The union-find structure of \<open>simulator/analyze.cpp\<close> (\<open>class DisjointSets\<close>), over pointers to
  objects: a node is a nullable pointer, since reading \<open>m_parent[x]\<close> of an unknown \<open>x\<close> stores NULL
  there. \<open>find\<close> follows parents, which nothing in the types keeps from forming a cycle, so it is a
  partial function. Values of type \<open>int\<close> are unbounded here; they are shown to stay between 0 and
  the number of nodes.
\<close>

section \<open>The class\<close>

type_synonym node = "obj_ptr option"

record DisjointSets =
  m_parent_d :: "(node, node) omap"
  m_rank :: "(node, int) omap"
  m_set_size :: "(node, int) omap"

definition DisjointSets_new :: DisjointSets where
  "DisjointSets_new = \<lparr>m_parent_d = [], m_rank = [], m_set_size = []\<rparr>"

definition is_root :: "node \<Rightarrow> DisjointSets \<Rightarrow> bool" where
  "is_root x s = (case map_of (m_parent_d s) x of Some p \<Rightarrow> p = x | None \<Rightarrow> False)"

definition make_set :: "node \<Rightarrow> DisjointSets \<Rightarrow> DisjointSets" where
  "make_set x s =
     (if map_of (m_parent_d s) x = None
      then s\<lparr>m_parent_d := om_put x x (m_parent_d s), m_rank := om_put x 0 (m_rank s),
             m_set_size := om_put x 1 (m_set_size s)\<rparr>
      else s)"

partial_function (option) find_set :: "node \<Rightarrow> DisjointSets \<Rightarrow> (node \<times> DisjointSets) option" where
  "find_set x s =
     (let (p, parents) = om_index x (m_parent_d s);
          s = s\<lparr>m_parent_d := parents\<rparr>
      in if p = x then Some (x, s)
         else Option.bind (find_set p s) (\<lambda>(root, s).
              Some (root, s\<lparr>m_parent_d := om_put x root (m_parent_d s)\<rparr>)))"

text \<open>Reading \<open>m[k]\<close> of a map of integers stores 0 there first when \<open>k\<close> is absent.\<close>

definition om_at :: "'k::linorder \<Rightarrow> ('k, int) omap \<Rightarrow> int \<times> ('k, int) omap" where
  "om_at k m = (case map_of m k of Some v \<Rightarrow> (v, m) | None \<Rightarrow> (0, om_put k 0 m))"

text \<open>A root becomes the child of another, which takes over its size.\<close>

definition hang :: "node \<Rightarrow> node \<Rightarrow> DisjointSets \<Rightarrow> DisjointSets" where
  "hang child root s =
     (let (child_size, sizes) = om_at child (m_set_size s);
          (root_size, sizes) = om_at root sizes
      in s\<lparr>m_parent_d := om_put child root (m_parent_d s),
           m_set_size := om_put root (root_size + child_size) sizes\<rparr>)"

definition setunion :: "node \<Rightarrow> node \<Rightarrow> DisjointSets \<Rightarrow> DisjointSets option" where
  "setunion A B s =
     Option.bind (find_set A s) (\<lambda>(A_root, s).
     Option.bind (find_set B s) (\<lambda>(B_root, s).
     if A_root = B_root then Some s
     else
       let (A_rank, ranks) = om_at A_root (m_rank s);
           (B_rank, ranks) = om_at B_root ranks;
           s = s\<lparr>m_rank := ranks\<rparr>
       in if A_rank < B_rank then Some (hang A_root B_root s)
          else if B_rank < A_rank then Some (hang B_root A_root s)
          else
            let s = hang B_root A_root s;
                (rank, ranks) = om_at A_root (m_rank s)
            in Some (s\<lparr>m_rank := om_put A_root (rank + 1) ranks\<rparr>)))"

fun get_sets_loop :: "(node \<times> int) list \<Rightarrow> DisjointSets \<times> (node, node set) omap \<Rightarrow> (DisjointSets \<times> (node, node set) omap) option" where
  "get_sets_loop [] st = Some st"
| "get_sets_loop ((obj, n) # entries) (s, the_sets) =
     Option.bind (find_set obj s) (\<lambda>(root, s).
     get_sets_loop entries
       (s, om_put root (insert obj (case map_of the_sets root of None \<Rightarrow> {} | Some X \<Rightarrow> X)) the_sets))"

definition get_sets :: "DisjointSets \<Rightarrow> (node, node set) omap \<Rightarrow> (DisjointSets \<times> (node, node set) omap) option" where
  "get_sets s the_sets = get_sets_loop (m_set_size s) (s, the_sets)"

text \<open>The report writes one line for each root, with the description and the life time of the object.\<close>

definition report_line :: "ClassInfo \<Rightarrow> HeapState \<Rightarrow> node \<Rightarrow> int \<Rightarrow> string result" where
  "report_line ci h x n =
     bindR (derefN (obj_cells h) x) (\<lambda>obj.
     bindR (Object_info ci obj) (\<lambda>info.
     Inr (''Set size '' @ (if n < 0 then CHR ''-'' # show_base 10 (nat (- n)) else show_base 10 (nat n)) @
          '' root '' @ info @ '' lifetime '' @ show_dec (Object_getDeathTime obj - Object_getCreateTime obj) @ [CHR 0x0A])))"

definition report :: "ClassInfo \<Rightarrow> HeapState \<Rightarrow> DisjointSets \<Rightarrow> string result" where
  "report ci h s =
     foldR (\<lambda>out (x, n). if is_root x s then bindR (report_line ci h x n) (\<lambda>l. Inr (out @ l)) else Inr out)
       (m_set_size s) []"

section \<open>Roots\<close>

inductive root_of :: "(node \<rightharpoonup> node) \<Rightarrow> node \<Rightarrow> node \<Rightarrow> bool" for P where
  root_self: "P x = Some x \<Longrightarrow> root_of P x x"
| root_up: "P x = Some p \<Longrightarrow> p \<noteq> x \<Longrightarrow> root_of P p r \<Longrightarrow> root_of P x r"

inductive_cases root_ofE: "root_of P x r"

lemma root_of_dom: "root_of P x r \<Longrightarrow> x \<in> dom P"
  by (induction rule: root_of.induct) auto

lemma root_of_root: "root_of P x r \<Longrightarrow> P r = Some r"
  by (induction rule: root_of.induct) auto

lemma root_of_unique: "root_of P x r \<Longrightarrow> root_of P x q \<Longrightarrow> q = r"
proof (induction arbitrary: q rule: root_of.induct)
  case (root_up x p r)
  show ?case
  proof (rule root_ofE [OF root_up.prems])
    fix p'
    assume "P x = Some p'" "root_of P p' q"
    then show "q = r"
      using root_up.hyps(1) root_up.IH by simp
  qed (use root_up.hyps in simp)
qed (erule root_ofE; simp)

lemma root_of_root_iff: "P x = Some x \<Longrightarrow> root_of P x r \<longleftrightarrow> r = x"
  by (auto intro: root_self dest: root_of_unique [OF root_self])

text \<open>
  The invariant: parents are nodes, ranks grow towards the roots, the size of a root is the number
  of its nodes, and a root of rank \<open>k\<close> has at least \<open>2 ^ k\<close> of them.
\<close>

definition members :: "(node \<rightharpoonup> node) \<Rightarrow> node \<Rightarrow> node set" where
  "members P r = {x. root_of P x r}"

definition sets_ok :: "DisjointSets \<Rightarrow> bool" where
  "sets_ok s \<longleftrightarrow> om_wf (m_parent_d s) \<and> om_wf (m_rank s) \<and> om_wf (m_set_size s) \<and>
     dom (map_of (m_rank s)) = dom (map_of (m_parent_d s)) \<and> dom (map_of (m_set_size s)) = dom (map_of (m_parent_d s)) \<and>
     (\<forall>x p. map_of (m_parent_d s) x = Some p \<longrightarrow> p \<in> dom (map_of (m_parent_d s)) \<and>
        (p \<noteq> x \<longrightarrow> the (map_of (m_rank s) x) < the (map_of (m_rank s) p))) \<and>
     (\<forall>r. map_of (m_parent_d s) r = Some r \<longrightarrow> 0 \<le> the (map_of (m_rank s) r) \<and>
        the (map_of (m_set_size s) r) = int (card (members (map_of (m_parent_d s)) r)) \<and>
        2 ^ nat (the (map_of (m_rank s) r)) \<le> card (members (map_of (m_parent_d s)) r))"

lemma sets_okD:
  assumes "sets_ok s" and "map_of (m_parent_d s) x = Some p"
  shows "p \<in> dom (map_of (m_parent_d s))" "p \<noteq> x \<Longrightarrow> the (map_of (m_rank s) x) < the (map_of (m_rank s) p)"
  using assms by (auto simp: sets_ok_def)

lemma finite_members [simp]: "finite (members (map_of m) r)"
  by (rule finite_subset [OF _ finite_dom_map_of [of m]]) (auto simp: members_def dest: root_of_dom)

lemma root_exists:
  assumes "sets_ok s" and "x \<in> dom (map_of (m_parent_d s))"
  shows "\<exists>r. root_of (map_of (m_parent_d s)) x r"
proof -
  define bound where "bound = Max ((\<lambda>x. the (map_of (m_rank s) x)) ` dom (map_of (m_parent_d s)))"
  have bound: "the (map_of (m_rank s) y) \<le> bound" if "y \<in> dom (map_of (m_parent_d s))" for y
    unfolding bound_def by (rule Max_ge) (use that in \<open>auto simp: finite_dom_map_of\<close>)
  show ?thesis
    using assms(2)
  proof (induction "nat (bound - the (map_of (m_rank s) x))" arbitrary: x rule: less_induct)
    case less
    then obtain p where p: "map_of (m_parent_d s) x = Some p" by auto
    show ?case
    proof (cases "p = x")
      case False
      have "nat (bound - the (map_of (m_rank s) p)) < nat (bound - the (map_of (m_rank s) x))"
        using sets_okD [OF assms(1) p] bound False by (smt (verit) nat_mono_iff)
      from less.hyps [OF this sets_okD(1) [OF assms(1) p]] p False show ?thesis
        by (auto intro: root_up)
    qed (use p in \<open>auto intro: root_self\<close>)
  qed
qed

lemma rank_below_root:
  assumes "sets_ok s" and "root_of (map_of (m_parent_d s)) x r" and "x \<noteq> r"
  shows "the (map_of (m_rank s) x) < the (map_of (m_rank s) r)"
  using assms(2,3)
proof (induction rule: root_of.induct)
  case (root_up x p r)
  have "the (map_of (m_rank s) x) < the (map_of (m_rank s) p)"
    using sets_okD(2) [OF assms(1) root_up.hyps(1)] root_up.hyps(2) by simp
  with root_up.IH show ?case by (cases "p = r") auto
qed simp

text \<open>A path compression keeps all roots.\<close>

lemma compress_roots:
  assumes "\<And>y. y \<in> dom P \<Longrightarrow> \<exists>q. root_of P y q" and "root_of P x r"
  shows "root_of (P(x \<mapsto> r)) y q \<longleftrightarrow> root_of P y q"
proof -
  have root: "(P(x \<mapsto> r)) r = Some r"
    using root_of_root [OF assms(2)] by simp
  have "root_of (P(x \<mapsto> r)) r r"
    by (rule root_of.root_self) (rule root)
  then have redirected: "root_of (P(x \<mapsto> r)) x r"
    by (cases "x = r") (simp_all only: simp_thms, rule root_of.root_up, simp_all)
  have keep: "root_of (P(x \<mapsto> r)) y q" if "root_of P y q" for y q
    using that
  proof (induction rule: root_of.induct)
    case (root_self y)
    then show ?case
      using root_of_root_iff [where P = P and x = y and r = r] assms(2) by (cases "y = x") (auto intro!: root_of.root_self)
  next
    case (root_up y p q)
    show ?case
    proof (cases "y = x")
      case True
      then have "q = r"
        using root_of_unique [OF assms(2)] root_up.hyps by (blast intro: root_of.root_up)
      then show ?thesis
        using redirected by (simp only: True)
    qed (use root_up in \<open>auto intro: root_of.root_up\<close>)
  qed
  show ?thesis
  proof
    assume new: "root_of (P(x \<mapsto> r)) y q"
    then have "y \<in> dom P"
      using root_of_dom [OF new] root_of_dom [OF assms(2)] by auto
    then obtain q' where "root_of P y q'"
      using assms(1) by blast
    with root_of_unique [OF new keep] show "root_of P y q" by simp
  qed (rule keep)
qed

lemma compress_ok:
  assumes "sets_ok s" and "root_of (map_of (m_parent_d s)) x r"
  shows "sets_ok (s\<lparr>m_parent_d := om_put x r (m_parent_d s)\<rparr>)"
    and "root_of (map_of (om_put x r (m_parent_d s))) = root_of (map_of (m_parent_d s))"
    and "dom (map_of (om_put x r (m_parent_d s))) = dom (map_of (m_parent_d s))"
proof -
  let ?P = "map_of (m_parent_d s)"
  have wf: "om_wf (m_parent_d s)"
    using assms(1) by (simp add: sets_ok_def)
  have upd: "map_of (om_put x r (m_parent_d s)) = ?P(x \<mapsto> r)"
    by (simp add: map_of_om_put)
  show roots: "root_of (map_of (om_put x r (m_parent_d s))) = root_of ?P"
    unfolding upd using compress_roots [OF root_exists [OF assms(1)] assms(2)] by blast
  show dom: "dom (map_of (om_put x r (m_parent_d s))) = dom ?P"
    using root_of_dom [OF assms(2)] by (auto simp: upd)
  have r: "?P r = Some r" "r \<in> dom ?P"
    using root_of_root [OF assms(2)] by auto
  have root: "?P q = Some q" if "(?P(x \<mapsto> r)) q = Some q" for q
    using that r(1) by (auto split: if_splits)
  have members: "members (map_of (om_put x r (m_parent_d s))) = members ?P"
    unfolding members_def roots ..
  have "p \<in> dom ?P \<and> (p \<noteq> y \<longrightarrow> the (map_of (m_rank s) y) < the (map_of (m_rank s) p))"
    if "(?P(x \<mapsto> r)) y = Some p" for y p
    using that r(2) rank_below_root [OF assms] sets_okD [OF assms(1)] by (cases "y = x") auto
  then show "sets_ok (s\<lparr>m_parent_d := om_put x r (m_parent_d s)\<rparr>)"
    using assms(1) om_wf_put [OF wf] dom root unfolding sets_ok_def by (simp add: upd members [unfolded upd])
qed

text \<open>\<open>find\<close> returns the root; it compresses paths and changes no set.\<close>

definition same_sets :: "DisjointSets \<Rightarrow> DisjointSets \<Rightarrow> bool" where
  "same_sets s s' \<longleftrightarrow> m_rank s' = m_rank s \<and> m_set_size s' = m_set_size s \<and>
     root_of (map_of (m_parent_d s')) = root_of (map_of (m_parent_d s)) \<and>
     dom (map_of (m_parent_d s')) = dom (map_of (m_parent_d s))"

lemma find_effect:
  assumes "sets_ok s" and "root_of (map_of (m_parent_d s)) x r"
  shows "\<exists>s'. find_set x s = Some (r, s') \<and> sets_ok s' \<and> same_sets s s'"
  using assms(2)
proof (induction rule: root_of.induct)
  case (root_self x)
  then show ?case
    using assms(1) by (subst find_set.simps) (auto simp: om_index_present same_sets_def)
next
  case (root_up x p r)
  then obtain s' where s': "find_set p s = Some (r, s')" "sets_ok s'" "same_sets s s'"
    by blast
  have "root_of (map_of (m_parent_d s')) x r"
    using s'(3) root_of.root_up [OF root_up.hyps] by (simp add: same_sets_def)
  note c = compress_ok [OF s'(2) this]
  have "find_set x s = Some (r, s'\<lparr>m_parent_d := om_put x r (m_parent_d s')\<rparr>)"
    using root_up.hyps s'(1) by (subst find_set.simps) (simp add: om_index_present)
  moreover have "same_sets s (s'\<lparr>m_parent_d := om_put x r (m_parent_d s')\<rparr>)"
    using s'(3) c(2,3) by (simp add: same_sets_def)
  ultimately show ?case
    using c(1) by blast
qed

text \<open>A root hung under another takes its nodes there.\<close>

lemma hang_roots:
  assumes "P a = Some a" and "P b = Some b" and "a \<noteq> b"
  shows "root_of (P(a \<mapsto> b)) y q \<longleftrightarrow> (if root_of P y a then q = b else root_of P y q)"
proof -
  let ?Q = "P(a \<mapsto> b)"
  have b: "root_of ?Q b b"
    by (rule root_of.root_self) (use assms in simp)
  then have a: "root_of ?Q a b"
    using root_of.root_up [where P = ?Q and x = a and p = b and r = b] assms(3) by simp
  have moved: "root_of ?Q y (if q = a then b else q)" if "root_of P y q" for y q
    using that
  proof (induction rule: root_of.induct)
    case (root_self x)
    show ?case
    proof (cases "x = a")
      case False
      then show ?thesis
        using root_self by (simp only: if_False, intro root_of.root_self) simp
    qed (simp only: simp_thms if_True a)
  next
    case (root_up x p r)
    then have "x \<noteq> a"
      using assms(1) by auto
    then have "?Q x = Some p"
      using root_up.hyps(1) by simp
    from root_of.root_up [OF this root_up.hyps(2) root_up.IH] show ?case .
  qed
  have rooted: "\<exists>q'. root_of P y q'" if "root_of ?Q y q" for y q
    using that
  proof (induction rule: root_of.induct)
    case (root_self x)
    then show ?case
      using assms by (cases "x = a") (auto intro: root_of.root_self)
  next
    case (root_up x p r)
    show ?case
    proof (cases "x = a")
      case False
      then show ?thesis
        using root_up by (auto intro: root_of.root_up)
    qed (use assms(1) in \<open>auto intro: root_of.root_self\<close>)
  qed
  show ?thesis
  proof
    assume new: "root_of ?Q y q"
    then obtain q' where q': "root_of P y q'"
      using rooted by blast
    have "q = (if q' = a then b else q')"
      using root_of_unique [OF moved [OF q'] new] .
    then show "if root_of P y a then q = b else root_of P y q"
      using q' root_of_unique [OF q', of a] by (cases "q' = a") auto
  next
    assume q: "if root_of P y a then q = b else root_of P y q"
    show "root_of ?Q y q"
    proof (cases "root_of P y a")
      case True
      with q moved [OF True] show ?thesis by (simp only: if_True simp_thms)
    next
      case False
      then have "root_of P y q" "q \<noteq> a"
        using q by auto
      with moved [OF this(1)] show ?thesis by (simp only: if_False simp_thms)
    qed
  qed
qed

lemma hang_members:
  assumes "P a = Some a" and "P b = Some b" and "a \<noteq> b"
  shows "members (P(a \<mapsto> b)) b = members P a \<union> members P b"
    and "r \<noteq> b \<Longrightarrow> P r = Some r \<Longrightarrow> r \<noteq> a \<Longrightarrow> members (P(a \<mapsto> b)) r = members P r"
    and "members P a \<inter> members P b = {}"
proof -
  show "members (P(a \<mapsto> b)) b = members P a \<union> members P b"
    by (auto simp: members_def hang_roots [OF assms])
  show "members P a \<inter> members P b = {}"
    using assms(3) root_of_unique by (auto simp: members_def)
  show "members (P(a \<mapsto> b)) r = members P r" if "r \<noteq> b" "P r = Some r" "r \<noteq> a"
    using that root_of_unique by (auto simp: members_def hang_roots [OF assms])
qed

lemma om_at_present: "k \<in> dom (map_of m) \<Longrightarrow> om_at k m = (the (map_of m k), m)"
  by (auto simp: om_at_def)

text \<open>
  One union of two roots, the winner \<open>b\<close> with rank \<open>k\<close> afterwards: the ranks still grow to the root.
\<close>

lemma union_ok:
  assumes ok: "sets_ok s" and a: "map_of (m_parent_d s) a = Some a" and b: "map_of (m_parent_d s) b = Some b"
    and "a \<noteq> b" and k: "the (map_of (m_rank s) b) \<le> k" "the (map_of (m_rank s) a) < k"
    and bound: "k = the (map_of (m_rank s) b) \<or> k = the (map_of (m_rank s) a) + 1 \<and> k = the (map_of (m_rank s) b) + 1"
  defines "s' \<equiv> hang a b s\<lparr>m_rank := om_put b k (m_rank s)\<rparr>"
  shows "sets_ok s'" and "map_of (m_parent_d s') = (map_of (m_parent_d s))(a \<mapsto> b)"
proof -
  let ?P = "map_of (m_parent_d s)" and ?R = "map_of (m_rank s)" and ?Z = "map_of (m_set_size s)"
  have doms: "dom ?R = dom ?P" "dom ?Z = dom ?P" "a \<in> dom ?P" "b \<in> dom ?P"
    using ok a b by (auto simp: sets_ok_def)
  have size: "0 \<le> the (?R r)" "the (?Z r) = int (card (members ?P r))" "2 ^ nat (the (?R r)) \<le> card (members ?P r)"
    if "?P r = Some r" for r
    using ok that by (auto simp: sets_ok_def)
  have s': "s' = s\<lparr>m_parent_d := om_put a b (m_parent_d s), m_rank := om_put b k (m_rank s),
      m_set_size := om_put b (the (?Z b) + the (?Z a)) (m_set_size s)\<rparr>"
    using doms by (simp add: s'_def hang_def om_at_present)
  then show "map_of (m_parent_d s') = ?P(a \<mapsto> b)"
    by simp
  have disj: "card (members ?P a \<union> members ?P b) = card (members ?P a) + card (members ?P b)"
    by (rule card_Un_disjoint) (simp_all add: hang_members(3) [OF a b \<open>a \<noteq> b\<close>])
  have grow: "(2::nat) ^ nat k \<le> card (members ?P a \<union> members ?P b)"
    using bound
  proof
    assume "k = the (?R a) + 1 \<and> k = the (?R b) + 1"
    then have "nat k = Suc (nat (the (?R a)))" "nat k = Suc (nat (the (?R b)))"
      using size(1) [OF a] size(1) [OF b] by auto
    then have "(2::nat) ^ nat k = 2 ^ nat (the (?R a)) + 2 ^ nat (the (?R b))"
      by simp
    with size(3) [OF a] size(3) [OF b] disj show ?thesis by linarith
  next
    assume "k = the (?R b)"
    with size(3) [OF b] disj show ?thesis by simp
  qed
  have "p \<in> dom (?P(a \<mapsto> b)) \<and> (p \<noteq> x \<longrightarrow> the ((?R(b \<mapsto> k)) x) < the ((?R(b \<mapsto> k)) p))"
    if "(?P(a \<mapsto> b)) x = Some p" for x p
  proof (cases "x = a")
    case True
    with that doms(4) \<open>a \<noteq> b\<close> k(2) show ?thesis by auto
  next
    case False
    then have p: "?P x = Some p"
      using that by simp
    show ?thesis
    proof (cases "p = x")
      case False
      then have "the (?R x) < the (?R p)" "x \<noteq> b"
        using sets_okD(2) [OF ok p] p b by auto
      then show ?thesis
        using sets_okD(1) [OF ok p] k(1) doms(3) by (cases "p = b") auto
    qed (use p in auto)
  qed
  moreover have "0 \<le> the ((?R(b \<mapsto> k)) r) \<and>
      the ((?Z(b \<mapsto> the (?Z b) + the (?Z a))) r) = int (card (members (?P(a \<mapsto> b)) r)) \<and>
      2 ^ nat (the ((?R(b \<mapsto> k)) r)) \<le> card (members (?P(a \<mapsto> b)) r)" if "(?P(a \<mapsto> b)) r = Some r" for r
  proof (cases "r = b")
    case True
    then show ?thesis
      using size(1) [OF b] k(1) size(2) [OF a] size(2) [OF b] disj grow hang_members(1) [OF a b \<open>a \<noteq> b\<close>] by simp
  next
    case False
    have r: "?P r = Some r" "r \<noteq> a"
      using that \<open>a \<noteq> b\<close> by (auto split: if_splits)
    then show ?thesis
      using False size [OF r(1)] hang_members(2) [OF a b \<open>a \<noteq> b\<close> False r(1,2)] by simp
  qed
  ultimately show "sets_ok s'"
    using ok doms unfolding sets_ok_def s' by (simp add: insert_absorb)
qed

section \<open>The partition\<close>

text \<open>The abstract state: the set of classes; a union replaces the classes of its nodes by their union.\<close>

definition classes :: "DisjointSets \<Rightarrow> node set set" where
  "classes s = members (map_of (m_parent_d s)) ` {r. map_of (m_parent_d s) r = Some r}"

datatype set_op = Make_Set node | Set_Union node node

fun do_op :: "set_op \<Rightarrow> DisjointSets \<Rightarrow> DisjointSets option" where
  "do_op (Make_Set x) s = Some (make_set x s)"
| "do_op (Set_Union a b) s = setunion a b s"

fun do_ops :: "set_op list \<Rightarrow> DisjointSets \<Rightarrow> DisjointSets option" where
  "do_ops [] s = Some s"
| "do_ops (e # es) s = Option.bind (do_op e s) (do_ops es)"

fun partition_op :: "set_op \<Rightarrow> node set set \<Rightarrow> node set set" where
  "partition_op (Make_Set x) C = (if x \<in> \<Union> C then C else insert {x} C)"
| "partition_op (Set_Union a b) C = insert (\<Union> {X \<in> C. a \<in> X \<or> b \<in> X}) {X \<in> C. a \<notin> X \<and> b \<notin> X}"

text \<open>A union is only asked of nodes that were made before.\<close>

fun op_allowed :: "node set set \<Rightarrow> set_op \<Rightarrow> bool" where
  "op_allowed C (Make_Set x) = True"
| "op_allowed C (Set_Union a b) = (a \<in> \<Union> C \<and> b \<in> \<Union> C)"

fun ops_allowed :: "node set set \<Rightarrow> set_op list \<Rightarrow> bool" where
  "ops_allowed C [] = True"
| "ops_allowed C (e # es) = (op_allowed C e \<and> ops_allowed (partition_op e C) es)"

lemma classes_nodes: "sets_ok s \<Longrightarrow> \<Union> (classes s) = dom (map_of (m_parent_d s))"
  by (auto simp: classes_def members_def dest: root_of_dom root_exists intro: root_of_root)

lemma members_eq_iff:
  assumes "root_of P x r" and "P q = Some q"
  shows "x \<in> members P q \<longleftrightarrow> q = r"
  using assms root_of_unique by (auto simp: members_def)

lemma sets_ok_new [simp]: "sets_ok DisjointSets_new"
  by (simp add: sets_ok_def DisjointSets_new_def om_wf_def)

lemma make_set_effect:
  assumes "sets_ok s"
  shows "sets_ok (make_set x s) \<and> classes (make_set x s) = partition_op (Make_Set x) (classes s)"
proof (cases "map_of (m_parent_d s) x = None")
  case False
  then show ?thesis
    using assms classes_nodes [OF assms] by (auto simp: make_set_def)
next
  case True
  let ?P = "map_of (m_parent_d s)"
  have new: "root_of (?P(x \<mapsto> x)) y q \<longleftrightarrow> (if y = x then q = x else root_of ?P y q)" for y q
  proof -
    have self: "root_of (?P(x \<mapsto> x)) x x"
      by (rule root_of.root_self) simp
    have "root_of (?P(x \<mapsto> x)) z r" if "root_of ?P z r" for z r
      using that
    proof (induction rule: root_of.induct)
      case (root_self z)
      then have "(?P(x \<mapsto> x)) z = Some z" using True by auto
      then show ?case by (rule root_of.root_self)
    next
      case (root_up z p r)
      then have "(?P(x \<mapsto> x)) z = Some p" using True by auto
      from root_of.root_up [OF this root_up.hyps(2) root_up.IH] show ?case .
    qed
    moreover have "z = x \<and> r = x \<or> root_of ?P z r" if "root_of (?P(x \<mapsto> x)) z r" for z r
      using that
    proof (induction rule: root_of.induct)
      case (root_self z)
      then show ?case by (cases "z = x") (auto intro: root_of.root_self)
    next
      case (root_up z p r)
      then have z: "?P z = Some p" "p \<noteq> x"
        using assms True by (auto simp: sets_ok_def split: if_splits)
      with root_up show ?case by (auto intro: root_of.root_up)
    qed
    ultimately show ?thesis
      using self True root_of_dom [of ?P x] by (metis domIff)
  qed
  have none: "x \<notin> dom ?P"
    using True by auto
  have mem: "members (?P(x \<mapsto> x)) r = (if r = x then {x} else members ?P r)" for r
  proof -
    have "\<not> root_of ?P y x" for y
      using root_of_root [of ?P y x] True by auto
    then show ?thesis
      using root_of_dom [of ?P x r] none unfolding members_def new by auto
  qed
  have made: "make_set x s = s\<lparr>m_parent_d := om_put x x (m_parent_d s), m_rank := om_put x 0 (m_rank s),
      m_set_size := om_put x 1 (m_set_size s)\<rparr>"
    using True by (simp add: make_set_def)
  have "sets_ok (make_set x s)"
    using assms none unfolding sets_ok_def made by (auto simp: mem)
  moreover have "classes (make_set x s) = insert {x} (classes s)"
  proof -
    have "{r. (?P(x \<mapsto> x)) r = Some r} = insert x {r. ?P r = Some r}"
      by auto
    moreover have "members (?P(x \<mapsto> x)) ` {r. ?P r = Some r} = members ?P ` {r. ?P r = Some r}"
      by (rule image_cong [OF refl]) (use mem True in auto)
    moreover have "members (?P(x \<mapsto> x)) x = {x}"
      by (simp only: mem if_True simp_thms)
    ultimately show ?thesis
      unfolding classes_def made by (simp del: fun_upd_apply)
  qed
  ultimately show ?thesis
    using none classes_nodes [OF assms] by simp
qed

lemma same_sets_classes: "same_sets s s' \<Longrightarrow> sets_ok s \<Longrightarrow> sets_ok s' \<Longrightarrow> classes s' = classes s"
proof -
  assume same: "same_sets s s'" and ok: "sets_ok s" "sets_ok s'"
  have roots: "map_of (m_parent_d t) r = Some r \<longleftrightarrow> root_of (map_of (m_parent_d t)) r r" for t r
    by (auto intro: root_of.root_self dest: root_of_root)
  then show ?thesis
    using same unfolding classes_def roots members_def same_sets_def by (simp only:)
qed

lemma classes_of:
  assumes "root_of (map_of (m_parent_d s)) x r"
  shows "members (map_of (m_parent_d s)) r \<in> classes s" "x \<in> members (map_of (m_parent_d s)) r"
    "X \<in> classes s \<Longrightarrow> x \<in> X \<Longrightarrow> X = members (map_of (m_parent_d s)) r"
proof -
  show "members (map_of (m_parent_d s)) r \<in> classes s"
    unfolding classes_def using root_of_root [OF assms] by blast
  show "x \<in> members (map_of (m_parent_d s)) r"
    using assms by (simp add: members_def)
  show "X = members (map_of (m_parent_d s)) r" if X: "X \<in> classes s" "x \<in> X"
  proof -
    obtain q where "X = members (map_of (m_parent_d s)) q"
      using X(1) unfolding classes_def by blast
    with X(2) root_of_unique [OF assms] show ?thesis
      by (auto simp: members_def)
  qed
qed

text \<open>The classes after one root has been hung under another.\<close>

lemma classes_hang:
  assumes P: "P = map_of (m_parent_d s)" and "P a = Some a" and "P b = Some b" and "a \<noteq> b"
    and s': "map_of (m_parent_d s') = P(a \<mapsto> b)"
  shows "classes s' = insert (members P a \<union> members P b) (classes s - {members P a, members P b})"
proof -
  have roots: "{r. (P(a \<mapsto> b)) r = Some r} = {r. P r = Some r} - {a}"
    using assms(3,4) by auto
  have differ: "members P r \<noteq> members P q" if "P r = Some r" "P q = Some q" "r \<noteq> q" for r q
  proof -
    have "r \<in> members P r" "r \<notin> members P q"
      using that root_of.root_self [of P r] root_of_unique [of P r r q] by (auto simp: members_def)
    then show ?thesis by blast
  qed
  have "members (P(a \<mapsto> b)) ` ({r. P r = Some r} - {a, b}) = members P ` ({r. P r = Some r} - {a, b})"
    by (rule image_cong [OF refl]) (use hang_members(2) [OF assms(2-4)] in auto)
  also have "\<dots> = members P ` {r. P r = Some r} - {members P a, members P b}"
    using differ assms(2,3) by (auto 4 3)
  finally have "members (P(a \<mapsto> b)) ` ({r. P r = Some r} - {a, b}) = classes s - {members P a, members P b}"
    by (simp add: classes_def P)
  moreover have "{r. P r = Some r} - {a} = insert b ({r. P r = Some r} - {a, b})"
    using assms(3,4) by auto
  ultimately show ?thesis
    unfolding classes_def s' roots using hang_members(1) [OF assms(2-4)] by simp
qed

text \<open>The part of \<open>setunion\<close> after both searches.\<close>

definition link :: "node \<Rightarrow> node \<Rightarrow> DisjointSets \<Rightarrow> DisjointSets" where
  "link a b s =
     (if the (map_of (m_rank s) a) < the (map_of (m_rank s) b) then hang a b s
      else if the (map_of (m_rank s) b) < the (map_of (m_rank s) a) then hang b a s
      else hang b a s\<lparr>m_rank := om_put a (the (map_of (m_rank s) a) + 1) (m_rank s)\<rparr>)"

lemma hang_rank [simp]: "m_rank (hang a b s) = m_rank s"
  by (simp add: hang_def split: prod.splits)

lemma om_put_same: "om_wf m \<Longrightarrow> map_of m k = Some v \<Longrightarrow> om_put k v m = m"
proof (induction m)
  case (Cons e m)
  obtain k' v' where e: "e = (k', v')" by (cases e)
  have wf: "om_wf m" and above: "\<forall>k'' \<in> fst ` set m. k' < k''"
    using Cons.prems(1) by (auto simp: om_wf_def e strict_sorted_iff sorted_wrt_map)
  show ?case
  proof (cases "k = k'")
    case False
    then have "map_of m k = Some v"
      using Cons.prems(2) by (simp add: e)
    moreover then have "k' < k"
      using above by (force dest: map_of_SomeD)
    ultimately show ?thesis
      using Cons.IH wf by (simp add: e)
  qed (use Cons.prems in \<open>simp add: e\<close>)
qed simp

lemma link_effect:
  assumes ok: "sets_ok s" and a: "map_of (m_parent_d s) a = Some a" and b: "map_of (m_parent_d s) b = Some b" and "a \<noteq> b"
  shows "sets_ok (link a b s)"
    and "classes (link a b s) = insert (members (map_of (m_parent_d s)) a \<union> members (map_of (m_parent_d s)) b)
      (classes s - {members (map_of (m_parent_d s)) a, members (map_of (m_parent_d s)) b})"
proof -
  let ?R = "\<lambda>x. the (map_of (m_rank s) x)"
  have put: "om_put x (?R x) (m_rank s) = m_rank s" if "map_of (m_parent_d s) x = Some x" for x
  proof (rule om_put_same)
    have "om_wf (m_rank s)" "x \<in> dom (map_of (m_rank s))"
      using ok that unfolding sets_ok_def by auto
    then show "om_wf (m_rank s)" "map_of (m_rank s) x = Some (?R x)"
      by auto
  qed
  have keep: "hang x y s\<lparr>m_rank := om_put y (?R y) (m_rank s)\<rparr> = hang x y s" if "map_of (m_parent_d s) y = Some y" for x y
    using put [OF that] hang_rank [of x y s] by simp
  have "sets_ok (link a b s) \<and> (map_of (m_parent_d (link a b s)) = (map_of (m_parent_d s))(a \<mapsto> b) \<or>
      map_of (m_parent_d (link a b s)) = (map_of (m_parent_d s))(b \<mapsto> a))"
  proof (cases rule: linorder_cases [of "?R a" "?R b"])
    case less
    then show ?thesis
      using union_ok [OF ok a b \<open>a \<noteq> b\<close>, of "?R b"] by (simp add: link_def keep [OF b])
  next
    case equal
    then show ?thesis
      using union_ok [OF ok b a \<open>a \<noteq> b\<close> [symmetric], of "?R a + 1"] by (simp add: link_def)
  next
    case greater
    then show ?thesis
      using union_ok [OF ok b a \<open>a \<noteq> b\<close> [symmetric], of "?R a"] by (simp add: link_def keep [OF a])
  qed
  then show "sets_ok (link a b s)" and "classes (link a b s) = insert (members (map_of (m_parent_d s)) a \<union> members (map_of (m_parent_d s)) b)
      (classes s - {members (map_of (m_parent_d s)) a, members (map_of (m_parent_d s)) b})"
    using classes_hang [OF refl a b \<open>a \<noteq> b\<close>] classes_hang [OF refl b a \<open>a \<noteq> b\<close> [symmetric]]
    by (auto simp: Un_commute insert_commute)
qed

lemma setunion_effect:
  assumes ok: "sets_ok s" and "A \<in> dom (map_of (m_parent_d s))" and "B \<in> dom (map_of (m_parent_d s))"
  shows "\<exists>s'. setunion A B s = Some s' \<and> sets_ok s' \<and> classes s' = partition_op (Set_Union A B) (classes s)"
proof -
  obtain a b where ab: "root_of (map_of (m_parent_d s)) A a" "root_of (map_of (m_parent_d s)) B b"
    using root_exists [OF ok] assms(2,3) by blast
  obtain s1 where s1: "find_set A s = Some (a, s1)" "sets_ok s1" "same_sets s s1"
    using find_effect [OF ok ab(1)] by blast
  have "root_of (map_of (m_parent_d s1)) B b"
    using s1(3) ab(2) by (simp add: same_sets_def)
  then obtain s2 where s2: "find_set B s1 = Some (b, s2)" "sets_ok s2" "same_sets s1 s2"
    using find_effect [OF s1(2)] by blast
  have AB: "root_of (map_of (m_parent_d s2)) A a" "root_of (map_of (m_parent_d s2)) B b"
    using s1(3) s2(3) ab by (simp_all add: same_sets_def)
  note roots = AB [THEN root_of_root]
  have same: "classes s2 = classes s"
    using same_sets_classes [OF s1(3) ok s1(2)] same_sets_classes [OF s2(3) s1(2) s2(2)] by simp
  let ?a = "members (map_of (m_parent_d s2)) a" and ?b = "members (map_of (m_parent_d s2)) b"
  have sel: "{X \<in> classes s. A \<in> X \<or> B \<in> X} = {?a, ?b}" "{X \<in> classes s. A \<notin> X \<and> B \<notin> X} = classes s - {?a, ?b}"
    using classes_of [OF AB(1)] classes_of [OF AB(2)] unfolding same by blast+
  have ranks: "om_at x (m_rank s2) = (the (map_of (m_rank s2) x), m_rank s2)" if "map_of (m_parent_d s2) x = Some x" for x
    using s2(2) that by (intro om_at_present) (auto simp: sets_ok_def)
  have run: "setunion A B s = Some (if a = b then s2 else link a b s2)"
    using s1(1) s2(1) ranks [OF roots(1)] ranks [OF roots(2)] hang_rank [of b a s2]
    by (simp add: setunion_def link_def)
  show ?thesis
  proof (cases "a = b")
    case True
    have "classes s = insert ?a (classes s - {?a})"
      using classes_of(1) [OF AB(1)] same by auto
    with True sel same s2(2) run show ?thesis by simp
  next
    case False
    with link_effect [OF s2(2) roots False] sel same run show ?thesis by simp
  qed
qed

lemma do_op_effect:
  assumes "sets_ok s" and "op_allowed (classes s) e"
  shows "\<exists>s'. do_op e s = Some s' \<and> sets_ok s' \<and> classes s' = partition_op e (classes s)"
  using assms make_set_effect [OF assms(1)] setunion_effect [OF assms(1)] classes_nodes [OF assms(1)]
  by (cases e) (simp_all del: partition_op.simps)

text \<open>
  C18: Union-find keeps a partition. From a new structure, any sequence of \<open>make_set\<close> and \<open>setunion\<close>
  in which unions name nodes made before runs to its end, and the classes it keeps are those of
  the abstract partition: a made node starts alone, a union joins the two classes. Then \<open>find\<close>
  returns for every node a root of its class, the same for all nodes of the class.
\<close>
theorem union_find_partition:
  assumes "ops_allowed {} es"
  shows "\<exists>s. do_ops es DisjointSets_new = Some s \<and> classes s = fold partition_op es {} \<and>
    (\<forall>X \<in> classes s. \<exists>r \<in> X. is_root r s \<and> (\<forall>x \<in> X. \<exists>s'. find_set x s = Some (r, s') \<and> classes s' = classes s))"
proof -
  have run: "\<exists>s'. do_ops es s = Some s' \<and> sets_ok s' \<and> classes s' = fold partition_op es (classes s)"
    if "sets_ok s" "ops_allowed (classes s) es" for s
    using that
  proof (induction es arbitrary: s)
    case (Cons e es)
    then obtain s1 where "do_op e s = Some s1" "sets_ok s1" "classes s1 = partition_op e (classes s)"
      using do_op_effect [of s e] by auto
    with Cons.IH [of s1] Cons.prems show ?case by simp
  qed simp
  have "classes DisjointSets_new = {}"
    by (simp add: classes_def DisjointSets_new_def)
  with run [of DisjointSets_new] assms obtain s where s: "do_ops es DisjointSets_new = Some s" "sets_ok s"
      "classes s = fold partition_op es {}"
    by auto
  moreover have "\<exists>r \<in> X. is_root r s \<and> (\<forall>x \<in> X. \<exists>s'. find_set x s = Some (r, s') \<and> classes s' = classes s)"
    if X: "X \<in> classes s" for X
  proof -
    obtain r where r: "map_of (m_parent_d s) r = Some r" "X = members (map_of (m_parent_d s)) r"
      using X unfolding classes_def by blast
    then have "r \<in> X" "is_root r s"
      by (auto simp: members_def is_root_def intro: root_of.root_self)
    moreover have "\<exists>s'. find_set x s = Some (r, s') \<and> classes s' = classes s" if "x \<in> X" for x
    proof -
      have "root_of (map_of (m_parent_d s)) x r"
        using that r(2) by (simp add: members_def)
      then obtain s' where "find_set x s = Some (r, s')" "sets_ok s'" "same_sets s s'"
        using find_effect [OF s(2)] by blast
      then show ?thesis
        using same_sets_classes [of s s'] s(2) by blast
    qed
    ultimately show ?thesis by blast
  qed
  ultimately show ?thesis by blast
qed

lemma union_find_partition_witness:
  "\<exists>s. do_ops [Make_Set (Some 1), Make_Set (Some 2), Make_Set (Some 3), Set_Union (Some 1) (Some 3)] DisjointSets_new = Some s \<and>
     classes s = {{Some 1, Some 3}, {Some 2}}"
proof -
  have "fold partition_op [Make_Set (Some 1), Make_Set (Some 2), Make_Set (Some 3), Set_Union (Some 1) (Some 3)] {} =
      {{Some 1, Some 3}, {Some 2}}"
    by code_simp
  moreover have "ops_allowed {} [Make_Set (Some 1), Make_Set (Some 2), Make_Set (Some 3), Set_Union (Some 1) (Some 3)]"
    by simp
  ultimately show ?thesis
    using union_find_partition [of "[Make_Set (Some 1), Make_Set (Some 2), Make_Set (Some 3), Set_Union (Some 1) (Some 3)]"]
    by (metis (no_types, lifting))
qed

text \<open>What the operations lead to is well formed.\<close>

lemma do_ops_ok:
  assumes "ops_allowed (classes s0) es" and "sets_ok s0" and "do_ops es s0 = Some s"
  shows "sets_ok s"
  using assms
proof (induction es arbitrary: s0)
  case (Cons e es)
  then obtain s1 where "do_op e s0 = Some s1" "sets_ok s1" "classes s1 = partition_op e (classes s0)"
    using do_op_effect [of s0 e] by auto
  with Cons.IH [of s1] Cons.prems show ?case by simp
qed simp

lemma classes_new [simp]: "classes DisjointSets_new = {}"
  by (simp add: classes_def DisjointSets_new_def)

text \<open>
  C25: Sizes and ranks are small. In a structure built by such a sequence the size stored for a root is
  the number of nodes of its class, its rank \<open>k\<close> is not negative and the class has at least \<open>2 ^ k\<close>
  nodes, and the rank of every other node of the class is below \<open>k\<close>: a search follows at most
  \<open>log\<^sub>2 n\<close> parents, and neither counter overflows an \<open>int\<close> below \<open>2 ^ 31\<close> objects.
\<close>
theorem union_find_bounds:
  assumes "ops_allowed {} es" and "do_ops es DisjointSets_new = Some s" and "is_root r s"
  shows "\<exists>X k. X \<in> classes s \<and> r \<in> X \<and> finite X \<and> map_of (m_set_size s) r = Some (int (card X)) \<and>
    map_of (m_rank s) r = Some k \<and> 0 \<le> k \<and> 2 ^ nat k \<le> card X \<and>
    (\<forall>x \<in> X - {r}. \<exists>j. map_of (m_rank s) x = Some j \<and> j < k)"
proof -
  have ok: "sets_ok s"
    using do_ops_ok [of DisjointSets_new es s] assms(1,2) by simp
  let ?P = "map_of (m_parent_d s)"
  have r: "?P r = Some r"
    using assms(3) by (simp add: is_root_def split: option.splits)
  have doms: "dom (map_of (m_rank s)) = dom ?P" "dom (map_of (m_set_size s)) = dom ?P"
    using ok by (simp_all add: sets_ok_def)
  then obtain k n where kn: "map_of (m_rank s) r = Some k" "map_of (m_set_size s) r = Some n"
    using r by blast
  have size: "0 \<le> k" "n = int (card (members ?P r))" "2 ^ nat k \<le> card (members ?P r)"
    using ok r kn unfolding sets_ok_def by force+
  have below: "\<exists>j. map_of (m_rank s) x = Some j \<and> j < k" if "root_of ?P x r" "x \<noteq> r" for x
  proof -
    have "x \<in> dom (map_of (m_rank s))"
      using root_of_dom [OF that(1)] doms(1) by simp
    with rank_below_root [OF ok that] kn(1) show ?thesis by auto
  qed
  show ?thesis
  proof (intro exI conjI)
    show "members ?P r \<in> classes s" "r \<in> members ?P r"
      using classes_of(1,2) [OF root_of.root_self [where P = ?P, OF r]] .
    show "\<forall>x \<in> members ?P r - {r}. \<exists>j. map_of (m_rank s) x = Some j \<and> j < k"
      using below by (simp add: members_def)
  qed (use size kn in simp_all)
qed

lemma union_find_bounds_witness:
  "\<exists>s X k. do_ops [Make_Set (Some 1), Make_Set (Some 2), Set_Union (Some 1) (Some 2)] DisjointSets_new = Some s \<and>
     X \<in> classes s \<and> Some 1 \<in> X \<and> map_of (m_rank s) (Some 1) = Some k \<and> 2 ^ nat k \<le> card X"
proof -
  let ?es = "[Make_Set (Some 1), Make_Set (Some 2), Set_Union (Some 1) (Some 2)]"
  have ops: "ops_allowed {} ?es"
    by simp
  have "map_option (is_root (Some 1)) (do_ops ?es DisjointSets_new) = Some True"
    by (simp add: make_set_def DisjointSets_new_def setunion_def find_set.simps om_index_def om_at_def hang_def is_root_def Let_def)
  then obtain s where s: "do_ops ?es DisjointSets_new = Some s" "is_root (Some 1) s"
    by auto
  from union_find_bounds [OF ops s] s(1) show ?thesis by blast
qed

text \<open>\<open>get_sets\<close> visits the nodes that have a size, one after the other.\<close>

definition sets_of :: "(node \<rightharpoonup> node) \<Rightarrow> node set \<Rightarrow> node \<rightharpoonup> node set" where
  "sets_of P D r = (let X = {x \<in> D. root_of P x r} in if X = {} then None else Some X)"

lemma get_sets_loop_effect:
  assumes "sets_ok s" and "\<forall>(x, n) \<in> set entries. x \<in> dom (map_of (m_parent_d s))"
    and "map_of the_sets = sets_of (map_of (m_parent_d s)) D"
  shows "\<exists>s' the_sets'. get_sets_loop entries (s, the_sets) = Some (s', the_sets') \<and> sets_ok s' \<and> same_sets s s' \<and>
    map_of the_sets' = sets_of (map_of (m_parent_d s)) (D \<union> fst ` set entries)"
  using assms
proof (induction entries arbitrary: s the_sets D)
  case Nil
  then show ?case by (simp add: same_sets_def)
next
  case (Cons e entries)
  obtain x n where e: "e = (x, n)" by (cases e)
  obtain r where r: "root_of (map_of (m_parent_d s)) x r"
    using root_exists [OF Cons.prems(1)] Cons.prems(2) e by auto
  obtain s1 where s1: "find_set x s = Some (r, s1)" "sets_ok s1" "same_sets s s1"
    using find_effect [OF Cons.prems(1) r] by blast
  have roots: "root_of (map_of (m_parent_d s1)) = root_of (map_of (m_parent_d s))"
      "dom (map_of (m_parent_d s1)) = dom (map_of (m_parent_d s))"
    using s1(3) by (simp_all add: same_sets_def)
  then have sets: "sets_of (map_of (m_parent_d s1)) = sets_of (map_of (m_parent_d s))"
    by (simp add: sets_of_def fun_eq_iff)
  define m where "m = om_put r (insert x (case map_of the_sets r of None \<Rightarrow> {} | Some X \<Rightarrow> X)) the_sets"
  have "map_of m q = sets_of (map_of (m_parent_d s1)) (insert x D) q" for q
  proof (cases "q = r")
    case True
    then show ?thesis
      using r Cons.prems(3) unfolding sets m_def by (auto simp: sets_of_def Let_def)
  next
    case False
    then have "{y \<in> insert x D. root_of (map_of (m_parent_d s)) y q} = {y \<in> D. root_of (map_of (m_parent_d s)) y q}"
      using root_of_unique [OF r] by auto
    then show ?thesis
      using False Cons.prems(3) unfolding sets m_def sets_of_def by simp
  qed
  then have m: "map_of m = sets_of (map_of (m_parent_d s1)) (insert x D)" ..
  have "\<forall>(x, n) \<in> set entries. x \<in> dom (map_of (m_parent_d s1))"
    using Cons.prems(2) roots(2) by simp
  from Cons.IH [OF s1(2) this m]
  obtain s' the_sets' where "get_sets_loop entries (s1, m) = Some (s', the_sets')" "sets_ok s'" "same_sets s1 s'"
    "map_of the_sets' = sets_of (map_of (m_parent_d s1)) (insert x D \<union> fst ` set entries)"
    by blast
  then show ?case
    using s1 sets by (simp add: e m_def same_sets_def)
qed

text \<open>
  C26: \<open>get_sets\<close> delivers the partition. On a structure built by \<open>make_set\<close> and \<open>setunion\<close> it returns,
  changes no class, and the map it fills leads from each root, and from nothing else, to the
  class of the root.
\<close>
theorem get_sets_exact:
  assumes "ops_allowed {} es" and "do_ops es DisjointSets_new = Some s"
  shows "\<exists>s' the_sets. get_sets s [] = Some (s', the_sets) \<and> classes s' = classes s \<and>
    (\<forall>r X. map_of the_sets r = Some X \<longleftrightarrow> X \<in> classes s \<and> r \<in> X \<and> is_root r s)"
proof -
  have ok: "sets_ok s"
    using do_ops_ok [of DisjointSets_new es s] assms by simp
  let ?P = "map_of (m_parent_d s)"
  have keys: "fst ` set (m_set_size s) = dom ?P"
    using ok by (simp add: sets_ok_def dom_map_of_conv_image_fst)
  have nodes: "\<forall>(x, n) \<in> set (m_set_size s). x \<in> dom ?P"
    using keys by force
  have start: "map_of [] = sets_of ?P {}"
    by (simp add: sets_of_def fun_eq_iff)
  obtain s' the_sets where run: "get_sets s [] = Some (s', the_sets)" "sets_ok s'" "same_sets s s'"
    "map_of the_sets = sets_of ?P (dom ?P)"
    using get_sets_loop_effect [OF ok nodes start] by (auto simp: get_sets_def keys)
  have "sets_of ?P (dom ?P) r = Some X \<longleftrightarrow> X \<in> classes s \<and> r \<in> X \<and> is_root r s" for r X
  proof -
    have all: "{x \<in> dom ?P. root_of ?P x r} = members ?P r"
      by (auto simp: members_def dest: root_of_dom)
    have root: "is_root r s \<longleftrightarrow> ?P r = Some r"
      by (auto simp: is_root_def split: option.splits)
    show ?thesis
    proof (cases "?P r = Some r")
      case True
      note self = root_of.root_self [where P = ?P, OF True]
      have "members ?P r \<noteq> {}"
        using classes_of(2) [OF self] by blast
      then have "sets_of ?P (dom ?P) r = Some (members ?P r)"
        unfolding sets_of_def all by simp
      then show ?thesis
        using classes_of(1,2) [OF self] classes_of(3) [OF self, of X] True unfolding root by (metis option.inject)
    next
      case False
      then have "members ?P r = {}"
        using root_of_root [of ?P _ r] by (auto simp: members_def)
      with False show ?thesis
        unfolding sets_of_def all root by simp
    qed
  qed
  with run same_sets_classes [OF run(3) ok run(2)] show ?thesis
    by (intro exI [of _ s'] exI [of _ the_sets]) simp
qed

lemma get_sets_exact_witness:
  "\<exists>s s' the_sets. do_ops [Make_Set (Some 1), Make_Set (Some 2), Set_Union (Some 1) (Some 2)] DisjointSets_new = Some s \<and>
     get_sets s [] = Some (s', the_sets) \<and> classes s' = classes s"
proof -
  have ops: "ops_allowed {} [Make_Set (Some 1), Make_Set (Some 2), Set_Union (Some 1) (Some 2)]"
    by simp
  obtain s where s: "do_ops [Make_Set (Some 1), Make_Set (Some 2), Set_Union (Some 1) (Some 2)] DisjointSets_new = Some s"
    by (simp add: make_set_def DisjointSets_new_def setunion_def find_set.simps om_index_def om_at_def hang_def Let_def)
  from get_sets_exact [OF ops s] s show ?thesis by blast
qed

text \<open>A search for a node that was never made answers NULL and makes NULL a node.\<close>

lemma find_unknown:
  assumes "map_of (m_parent_d s) x = None" and "map_of (m_parent_d s) None = None"
  shows "map_option fst (find_set x s) = Some None \<and>
    map_option (\<lambda>(r, s'). map_of (m_parent_d s') None) (find_set x s) = Some (Some None)"
  using assms by (cases x) (simp_all add: find_set.simps om_index_absent)

end
