(* ===== verification/Overlap.thy ===== *)
theory Overlap
  imports Prelude Complex_Main "HOL-Library.Log_Nat"
begin

text \<open>
  The overlap of two lifetimes, \<open>compute_overlap\<close> of \<open>simulator/analyze.cpp\<close>. The times are \<open>unsigned int\<close>
  and are subtracted with wrap-around; the quotient is a \<open>double\<close>. A non-negative \<open>double\<close> is a
  rational, infinity or NaN, and every operation rounds its exact result to 53 significant bits, to
  the nearest, ties to even (IEEE 754, the default of the hardware). The values that occur here are
  zero or lie between \<open>2 ^ -32\<close> and \<open>2 ^ 39\<close>, far from the limits of the exponent, so the exponent is
  an unbounded integer.
\<close>

section \<open>Rounding to double\<close>

text \<open>The binary exponent of a positive rational.\<close>

definition exponent :: "rat \<Rightarrow> int" where
  "exponent x =
     (let (a, b) = quotient_of x;
          e = int (floorlog 2 (nat a)) - int (floorlog 2 (nat b))
      in if 2 powi e \<le> x then e else e - 1)"

definition to_even :: "rat \<Rightarrow> int" where
  "to_even x =
     (let n = \<lfloor>x\<rfloor>; r = x - of_int n
      in if r < 1 / 2 \<or> r = 1 / 2 \<and> even n then n else n + 1)"

definition round_double :: "rat \<Rightarrow> rat" where
  "round_double x =
     (if x = 0 then 0 else let u = 2 powi (exponent x - 52) in of_int (to_even (x / u)) * u)"

datatype Double = Finite rat | Infinity | NaN

definition double_of :: "u32 \<Rightarrow> Double" where
  "double_of w = Finite (round_double (of_nat (unat w)))"

fun double_divide :: "Double \<Rightarrow> Double \<Rightarrow> Double" where
  "double_divide NaN y = NaN"
| "double_divide x NaN = NaN"
| "double_divide Infinity Infinity = NaN"
| "double_divide Infinity (Finite b) = Infinity"
| "double_divide (Finite a) Infinity = Finite 0"
| "double_divide (Finite a) (Finite b) =
     (if b \<noteq> 0 then Finite (round_double (a / b)) else if a = 0 then NaN else Infinity)"

fun double_times :: "Double \<Rightarrow> Double \<Rightarrow> Double" where
  "double_times NaN y = NaN"
| "double_times x NaN = NaN"
| "double_times Infinity Infinity = Infinity"
| "double_times Infinity (Finite b) = (if b = 0 then NaN else Infinity)"
| "double_times (Finite a) Infinity = (if a = 0 then NaN else Infinity)"
| "double_times (Finite a) (Finite b) = Finite (round_double (a * b))"

section \<open>The function\<close>

definition compute_overlap :: "u32 \<Rightarrow> u32 \<Rightarrow> u32 \<Rightarrow> u32 \<Rightarrow> Double" where
  "compute_overlap start1 end1 start2 end2 =
     (let span_start = min start1 start2;
          span_end = max end1 end2;
          overlap_start = max start1 start2;
          overlap_end = min end1 end2;
          fspan = double_of (span_end - span_start);
          foverlap = double_of (overlap_end - overlap_start);
          frac = double_divide foverlap fspan
      in double_times frac (Finite 100))"

section \<open>Rounding\<close>

lemma exponent_bounds:
  assumes "0 < x"
  shows "2 powi exponent x \<le> x" and "x < 2 powi (exponent x + 1)"
proof -
  obtain a b where q: "quotient_of x = (a, b)" by (cases "quotient_of x")
  have b: "0 < b" using q by (rule quotient_of_denom_pos)
  have x: "x = of_int a / of_int b" using q by (rule quotient_of_div)
  have a: "0 < a" using assms b x by (simp add: zero_less_divide_iff)
  define la lb where "la = floorlog 2 (nat a)" and "lb = floorlog 2 (nat b)"
  have la: "(2::rat) ^ (la - 1) \<le> of_int a \<and> of_int a < (2::rat) ^ la" and la0: "0 < la"
  proof -
    have "2 ^ (la - 1) \<le> nat a \<and> nat a < 2 ^ la" unfolding la_def by (rule floorlog_bounds) (use a in auto)
    then have "(of_nat (2 ^ (la - 1)) :: rat) \<le> of_nat (nat a) \<and> of_nat (nat a) < (of_nat (2 ^ la) :: rat)"
      using of_nat_le_iff of_nat_less_iff by blast
    then show "(2::rat) ^ (la - 1) \<le> of_int a \<and> of_int a < (2::rat) ^ la" using a by simp
    show "0 < la" using a by (auto simp: la_def floorlog_def)
  qed
  have lb: "(2::rat) ^ (lb - 1) \<le> of_int b \<and> of_int b < (2::rat) ^ lb" and lb0: "0 < lb"
  proof -
    have "2 ^ (lb - 1) \<le> nat b \<and> nat b < 2 ^ lb" unfolding lb_def by (rule floorlog_bounds) (use b in auto)
    then have "(of_nat (2 ^ (lb - 1)) :: rat) \<le> of_nat (nat b) \<and> of_nat (nat b) < (of_nat (2 ^ lb) :: rat)"
      using of_nat_le_iff of_nat_less_iff by blast
    then show "(2::rat) ^ (lb - 1) \<le> of_int b \<and> of_int b < (2::rat) ^ lb" using b by simp
    show "0 < lb" using b by (auto simp: lb_def floorlog_def)
  qed
  have up: "x < 2 powi (int la - int lb + 1)"
  proof -
    have "of_int a < (2::rat) ^ la * 1" using la by simp
    also have "\<dots> \<le> 2 ^ la * (of_int b / 2 ^ (lb - 1))" using lb by (intro mult_left_mono) (auto simp: field_simps)
    finally have "x < 2 ^ la / 2 ^ (lb - 1)" using b by (simp add: x field_simps)
    also have "\<dots> = 2 powi (int la - int (lb - 1))" by (simp add: power_int_diff)
    also have "int la - int (lb - 1) = int la - int lb + 1" using lb0 by simp
    finally show ?thesis .
  qed
  have low: "2 powi (int la - int lb - 1) \<le> x"
  proof -
    have "2 powi (int la - int lb - 1) = (2::rat) ^ (la - 1) / 2 ^ lb"
      using la0 by (cases la) (simp_all add: power_int_diff)
    also have "\<dots> \<le> of_int a / of_int b" using la lb a b by (intro frac_le) auto
    finally show ?thesis using x by simp
  qed
  show "2 powi exponent x \<le> x" "x < 2 powi (exponent x + 1)"
    using up low by (auto simp: exponent_def q la_def [symmetric] lb_def [symmetric] Let_def)
qed

lemma to_even_le: "x \<le> of_int m \<Longrightarrow> to_even x \<le> m"
proof -
  assume le: "x \<le> of_int m"
  show ?thesis
  proof (cases "\<lfloor>x\<rfloor> < m")
    case True then show ?thesis by (simp add: to_even_def Let_def)
  next
    case False
    then have "x = of_int m" using le by linarith
    then show ?thesis by (simp add: to_even_def)
  qed
qed

lemma to_even_ge: "of_int m \<le> x \<Longrightarrow> m \<le> to_even x"
  by (simp add: to_even_def Let_def le_floor_iff) linarith

lemma to_even_near: "\<bar>of_int (to_even x) - x\<bar> \<le> 1 / 2"
proof -
  have "of_int \<lfloor>x\<rfloor> \<le> x" "x < of_int \<lfloor>x\<rfloor> + 1" by linarith+
  then show ?thesis by (auto simp: to_even_def Let_def abs_le_iff)
qed

text \<open>The numbers a \<open>double\<close> can hold.\<close>

definition is_double :: "rat \<Rightarrow> bool" where
  "is_double y \<longleftrightarrow> (\<exists>m k. 0 \<le> m \<and> m \<le> 2 ^ 53 \<and> y = of_int m * 2 powi k)"

lemma is_double_of_nat: "n \<le> 2 ^ 53 \<Longrightarrow> is_double (of_nat n)"
  unfolding is_double_def by (intro exI [of _ "int n"] exI [of _ 0]) (simp add: of_nat_le_iff [of n "2 ^ 53", where 'a = int, simplified])

lemma unit_step:
  assumes "0 < x"
  shows "2 powi exponent x = 2 ^ 52 * (2 :: rat) powi (exponent x - 52)" and "0 < (2 :: rat) powi (exponent x - 52)"
  by (simp_all add: power_int_diff)

text \<open>Beyond the grid of \<open>x\<close> a double is a multiple of its step, or lies below the power of two at \<open>x\<close>.\<close>

lemma is_double_cases:
  assumes "is_double y"
  obtains (grid) j where "y = of_int j * 2 powi (e - 52)" | (small) "y \<le> 2 powi e"
proof -
  obtain m k where m: "0 \<le> m" "m \<le> 2 ^ 53" and y: "y = of_int m * 2 powi k" using assms by (auto simp: is_double_def)
  show ?thesis
  proof (cases "e - 52 \<le> k")
    case True
    have "(2 :: rat) powi k = 2 powi (k - (e - 52)) * 2 powi (e - 52)" by (subst power_int_add [symmetric]) simp_all
    also have "2 powi (k - (e - 52)) = (2 :: rat) ^ nat (k - (e - 52))" using True by (simp add: power_int_def)
    finally have "y = of_int (m * 2 ^ nat (k - (e - 52))) * 2 powi (e - 52)" by (simp add: y)
    then show ?thesis by (rule grid)
  next
    case False
    have "(of_int m :: rat) \<le> of_int (2 ^ 53)" using m(2) by (simp only: of_int_le_iff)
    then have "y \<le> 2 ^ 53 * 2 powi k" unfolding y by (intro mult_right_mono) (simp_all add: zero_le_power_int)
    also have "\<dots> = 2 powi (k + 53)" by (simp add: power_int_add)
    also have "\<dots> \<le> 2 powi e" using False by (intro power_int_increasing) simp_all
    finally show ?thesis by (rule small)
  qed
qed

lemma round_double_le:
  assumes "is_double y" and "0 < x" and "x \<le> y"
  shows "round_double x \<le> y"
proof -
  let ?u = "2 powi (exponent x - 52) :: rat"
  note u = unit_step [OF assms(2)]
  obtain j where y: "y = of_int j * ?u"
    using assms(1)
  proof (cases rule: is_double_cases [of y "exponent x"])
    case small
    then have "y = of_int (2 ^ 52) * ?u" using exponent_bounds(1) [OF assms(2)] assms(3) u by simp
    then show ?thesis by (rule that)
  qed
  have "x / ?u \<le> of_int j" using assms(3) u(2) by (simp add: y pos_divide_le_eq)
  then have "of_int (to_even (x / ?u)) \<le> (of_int j :: rat)" by (simp add: to_even_le)
  then show ?thesis using assms(2) u(2) by (simp add: round_double_def Let_def y mult_right_mono)
qed

lemma round_double_ge:
  assumes "is_double y" and "0 < x" and "y \<le> x"
  shows "y \<le> round_double x"
proof -
  let ?u = "2 powi (exponent x - 52) :: rat"
  note u = unit_step [OF assms(2)]
  obtain j where y: "y \<le> of_int j * ?u" and x: "of_int j * ?u \<le> x"
    using assms(1)
  proof (cases rule: is_double_cases [of y "exponent x"])
    case (grid j) then show ?thesis using that [of j] assms(3) by simp
  next
    case small then show ?thesis using that [of "2 ^ 52"] exponent_bounds(1) [OF assms(2)] u by simp
  qed
  have "of_int j \<le> x / ?u" using x u(2) by (simp add: pos_le_divide_eq)
  then have "(of_int j :: rat) \<le> of_int (to_even (x / ?u))" by (simp add: to_even_ge)
  then have "of_int j * ?u \<le> round_double x" using assms(2) u(2) by (simp add: round_double_def Let_def mult_right_mono)
  then show ?thesis using y by simp
qed

lemma round_double_id: "is_double x \<Longrightarrow> 0 \<le> x \<Longrightarrow> round_double x = x"
  using round_double_le [of x x] round_double_ge [of x x] by (cases "x = 0") (auto simp: round_double_def [of 0])

lemma round_double_nonneg: "0 \<le> x \<Longrightarrow> 0 \<le> round_double x"
  using round_double_ge [of 0 x] is_double_of_nat [of 0] by (cases "x = 0") (auto simp: round_double_def [of 0])

lemma double_of_exact: "double_of w = Finite (of_nat (unat w))"
proof -
  have "unat w < 2 ^ 32" by (rule u32_bound)
  then have "round_double (of_nat (unat w)) = of_nat (unat w)" by (intro round_double_id is_double_of_nat of_nat_0_le_iff) simp
  then show ?thesis by (simp only: double_of_def)
qed

lemma round_double_near:
  assumes "0 \<le> x"
  shows "\<bar>round_double x - x\<bar> \<le> x / 2 ^ 53"
proof (cases "x = 0")
  case False
  then have pos: "0 < x" using assms by simp
  let ?u = "2 powi (exponent x - 52) :: rat"
  note u = unit_step [OF pos]
  have "round_double x - x = (of_int (to_even (x / ?u)) - x / ?u) * ?u"
    using False u(2) by (simp add: round_double_def Let_def left_diff_distrib)
  then have "\<bar>round_double x - x\<bar> = \<bar>of_int (to_even (x / ?u)) - x / ?u\<bar> * ?u"
    using u(2) by (simp add: abs_mult)
  also have "\<dots> \<le> 1 / 2 * ?u" using to_even_near u(2) by (intro mult_right_mono) auto
  also have "\<dots> \<le> x / 2 ^ 53" using exponent_bounds(1) [OF pos] u(1) by (simp add: field_simps)
  finally show ?thesis .
qed (simp add: round_double_def)

text \<open>A quotient, rounded, times 100, rounded again, is still within \<open>2 ^ -51\<close> of the exact percentage.\<close>

lemma percent_near:
  assumes "0 \<le> q"
  shows "\<bar>round_double (round_double q * 100) - q * 100\<bar> \<le> q * 100 / 2 ^ 51" and "0 \<le> round_double (round_double q * 100)"
proof -
  have a: "\<bar>round_double q - q\<bar> \<le> q / 2 ^ 53" by (rule round_double_near [OF assms])
  have p: "0 \<le> round_double q" by (rule round_double_nonneg [OF assms])
  then have b: "\<bar>round_double (round_double q * 100) - round_double q * 100\<bar> \<le> round_double q * 100 / 2 ^ 53"
    by (intro round_double_near) simp
  show "\<bar>round_double (round_double q * 100) - q * 100\<bar> \<le> q * 100 / 2 ^ 51" 
  proof -
    have q53: "q / 2 ^ 53 \<le> q" using assms by (simp add: field_simps)
    have "round_double q \<le> q * 2" using a q53 by linarith
    then have "round_double q * 100 / 2 ^ 53 \<le> q * 200 / 2 ^ 53" by simp
    moreover have "q * 200 / 2 ^ 53 + q / 2 ^ 53 * 100 \<le> q * 100 / 2 ^ 51" using assms by simp
    ultimately show ?thesis using a b by linarith
  qed
  show "0 \<le> round_double (round_double q * 100)" using p by (intro round_double_nonneg) simp
qed

section \<open>Lifetimes\<close>

lemma compute_overlap_cases:
  "compute_overlap s1 e1 s2 e2 =
     (let span = unat (max e1 e2 - min s1 s2); overlap = unat (min e1 e2 - max s1 s2)
      in if span \<noteq> 0 then Finite (round_double (round_double (of_nat overlap / of_nat span) * 100))
         else if overlap = 0 then NaN else Infinity)"
  unfolding compute_overlap_def double_of_exact Let_def double_divide.simps of_nat_eq_0_iff by simp

lemma percent_full:
  assumes "0 \<le> q" and "q \<le> 1"
  shows "round_double (round_double q * 100) \<le> 100"
proof -
  have one: "is_double 1" and hundred: "is_double 100" using is_double_of_nat [of 1] is_double_of_nat [of 100] by simp_all
  have "round_double q \<le> 1" using assms one round_double_le [of 1 q] by (cases "q = 0") (auto simp: round_double_def [of 0])
  moreover note round_double_nonneg [OF assms(1)]
  ultimately show ?thesis using round_double_le [OF hundred, of "round_double q * 100"]
    by (cases "round_double q = 0") (auto simp: round_double_def [of 0])
qed

text \<open>A quotient of 32-bit numbers below 1 misses 1 by more than the rounding can make up, and one above 1 likewise.\<close>

lemma percent_below:
  assumes "a < b" and "b < 2 ^ 32"
  shows "round_double (round_double (of_nat a / of_nat b) * 100) < 100"
proof -
  let ?q = "of_nat a / of_nat b :: rat"
  have "(of_nat b :: rat) < of_nat (2 ^ 32)" using assms(2) by (simp only: of_nat_less_iff)
  then have b: "(of_nat b :: rat) < 2 ^ 32" by simp
  have "(of_nat a :: rat) + 1 \<le> of_nat b" using assms(1) of_nat_le_iff [of "Suc a" b, where 'a = rat] by simp
  then have "?q * of_nat b \<le> (1 - 1 / 2 ^ 32) * of_nat b" using b assms(1) by (simp add: field_simps)
  then have "?q \<le> 1 - 1 / 2 ^ 32" using assms(1) by (subst (asm) mult_le_cancel_right) auto
  moreover have "0 \<le> ?q" by simp
  ultimately show ?thesis using percent_near(1) [of ?q] by (simp add: abs_le_iff field_simps)
qed

lemma percent_above:
  assumes "b < a" and "0 < b" and "b < 2 ^ 32"
  shows "100 < round_double (round_double (of_nat a / of_nat b) * 100)"
proof -
  let ?q = "of_nat a / of_nat b :: rat"
  have "(of_nat b :: rat) < of_nat (2 ^ 32)" using assms(3) by (simp only: of_nat_less_iff)
  then have b: "(of_nat b :: rat) < 2 ^ 32" by simp
  have "(of_nat b :: rat) + 1 \<le> of_nat a" using assms(1) of_nat_le_iff [of "Suc b" a, where 'a = rat] by simp
  then have "(1 + 1 / 2 ^ 32) * of_nat b \<le> ?q * of_nat b" using b assms(2) by (simp add: field_simps)
  then have "1 + 1 / 2 ^ 32 \<le> ?q" using assms(2) by (subst (asm) mult_le_cancel_right) auto
  then show ?thesis using percent_near(1) [of ?q] by (simp add: abs_le_iff field_simps)
qed

text \<open>The four times of two lifetimes, as numbers.\<close>

lemma unat_min_max:
  "unat (min (a :: u32) b) = min (unat a) (unat b)" "unat (max (a :: u32) b) = max (unat a) (unat b)"
  by (simp_all add: min_def max_def word_le_nat_alt)

lemma span_unat:
  assumes "s1 \<le> e1" and "s2 \<le> (e2 :: u32)"
  shows "unat (max e1 e2 - min s1 s2) = max (unat e1) (unat e2) - min (unat s1) (unat s2)"
  using assms by (subst unat_sub) (auto simp: unat_min_max word_le_nat_alt)

lemma wrapped_unat:
  "unat (a - (b :: u32)) = (if unat b \<le> unat a then unat a - unat b else 2 ^ 32 - (unat b - unat a))"
  using u32_bound [of b] by (auto simp: unat_sub_if' word_le_nat_alt)

section \<open>Property\<close>

text \<open>
  C40: The overlap of two lifetimes. For two lifetimes that begin before they end, the result is NaN
  exactly when both are the same single moment. Otherwise it is a number: when the lifetimes meet, the
  percentage of their joint span that they share, within a relative error of \<open>2 ^ -51\<close>, between 0 and 100
  and 100 exactly for equal lifetimes; when they do not meet, the difference of the times wraps around,
  the numerator is \<open>2 ^ 32\<close> less the gap between them, and the result is above 100 whenever span and gap
  together are below \<open>2 ^ 32\<close>.
\<close>
theorem overlap_of_lifetimes:
  fixes start1 end1 start2 end2 :: u32
  assumes "start1 \<le> end1" and "start2 \<le> end2"
  shows "let span = max (unat end1) (unat end2) - min (unat start1) (unat start2);
             last_start = max (unat start1) (unat start2); first_end = min (unat end1) (unat end2);
             shared = (if last_start \<le> first_end then first_end - last_start else 2 ^ 32 - (last_start - first_end));
             exact = of_nat shared / of_nat span * 100
         in if span = 0 then compute_overlap start1 end1 start2 end2 = NaN
            else \<exists>p. compute_overlap start1 end1 start2 end2 = Finite p \<and> \<bar>p - exact\<bar> \<le> exact / 2 ^ 51 \<and>
              (if last_start \<le> first_end
               then 0 \<le> p \<and> p \<le> 100 \<and> (p = 100 \<longleftrightarrow> start1 = start2 \<and> end1 = end2)
               else (span + (last_start - first_end) < 2 ^ 32 \<longrightarrow> 100 < p))"
proof -
  define span ls fe where "span = max (unat end1) (unat end2) - min (unat start1) (unat start2)"
    and "ls = max (unat start1) (unat start2)" and "fe = min (unat end1) (unat end2)"
  define shared where "shared = (if ls \<le> fe then fe - ls else 2 ^ 32 - (ls - fe))"
  define q where "q = (of_nat shared / of_nat span :: rat)"
  note d = span_def ls_def fe_def
  have sp: "unat (max end1 end2 - min start1 start2) = span" unfolding span_def by (rule span_unat) (use assms in auto)
  have sh: "unat (min end1 end2 - max start1 start2) = shared" by (simp add: wrapped_unat unat_min_max shared_def d)
  have le: "unat start1 \<le> unat end1" "unat start2 \<le> unat end2" using assms by (simp_all add: word_le_nat_alt)
  have bnd: "span < 2 ^ 32" using u32_bound [of end1] u32_bound [of end2] by (auto simp: span_def)
  have meets: "span = 0 \<Longrightarrow> shared = 0" using le by (auto simp: shared_def d max_def min_def split: if_splits)
  have met: "ls \<le> fe \<Longrightarrow> shared \<le> span \<and> (shared = span \<longleftrightarrow> unat start1 = unat start2 \<and> unat end1 = unat end2)"
    using le by (auto simp: shared_def d max_def min_def split: if_splits)
  let ?p = "round_double (round_double q * 100)"
  have res: "compute_overlap start1 end1 start2 end2 = (if span \<noteq> 0 then Finite ?p else NaN)"
    using meets by (simp add: compute_overlap_cases sp sh q_def Let_def)
  have near: "\<bar>?p - q * 100\<bar> \<le> q * 100 / 2 ^ 51" "0 \<le> ?p" by (rule percent_near, simp add: q_def)+
  have within: "?p \<le> 100 \<and> (?p = 100 \<longleftrightarrow> shared = span)" if "ls \<le> fe" "span \<noteq> 0"
    using met [OF that(1)] that(2) percent_full [of q] percent_below [of shared span] bnd
    by (cases "shared = span") (auto simp: q_def round_double_id is_double_of_nat [of 1, simplified] is_double_of_nat [of 100, simplified])
  have beyond: "100 < ?p" if "\<not> ls \<le> fe" "span \<noteq> 0" "span + (ls - fe) < 2 ^ 32"
    using that percent_above [of span shared] bnd by (auto simp: q_def shared_def)
  show ?thesis
    unfolding Let_def d [symmetric] shared_def [symmetric] q_def [symmetric]
    using res near within beyond met by (auto simp: word_unat_eq_iff)
qed

text \<open>Two lifetimes that share 5 of 20, and two with a gap: the second result is far above 100.\<close>

lemma overlap_of_lifetimes_witness:
  "compute_overlap 10 20 15 30 = Finite 25 \<and> compute_overlap 1 2 4 5 = Finite 107374182350 \<and>
   (\<exists>p. compute_overlap 10 20 15 30 = Finite p \<and> 0 \<le> p \<and> p < 100) \<and> (\<exists>p. compute_overlap 1 2 4 5 = Finite p \<and> 100 < p)"
proof (intro conjI)
  have "is_double (1 / 4)" unfolding is_double_def by (rule exI [of _ 1], rule exI [of _ "- 2"]) (simp add: power_int_def power2_eq_square)
  then show "compute_overlap 10 20 15 30 = Finite 25"
    using is_double_of_nat [of 25] by (simp add: compute_overlap_cases round_double_id)
  have "is_double (2147483647 / 2)"
    unfolding is_double_def by (rule exI [of _ 2147483647], rule exI [of _ "- 1"]) (simp add: power_int_def)
  then show "compute_overlap 1 2 4 5 = Finite 107374182350"
    using is_double_of_nat [of 107374182350] by (simp add: compute_overlap_cases round_double_id)
  show "\<exists>p. compute_overlap 10 20 15 30 = Finite p \<and> 0 \<le> p \<and> p < 100" using overlap_of_lifetimes [of 10 20 15 30] by force
  show "\<exists>p. compute_overlap 1 2 4 5 = Finite p \<and> 100 < p" using overlap_of_lifetimes [of 1 2 4 5] by force
qed

end
