(* ===== verification/Spec2Isabelle.thy ===== *)
theory Spec2Isabelle
  imports Names_File Context_Tree Merlin_Graph Trace_Meaning Conformance Union_Find Overlap
begin

text \<open>
  A verification library for the trace simulator of QTR-tool (\<open>simulator/\<close>, C++).

  \<^bold>\<open>The program.\<close> A Java agent (not modelled) writes a trace of method entries and exits, allocations,
  field updates and witnesses, and the tables of classes, fields and methods. The simulator reads
  the tables, replays the trace on a model of the Java heap and of the stacks of the threads, and
  computes when every object died: the Merlin pass propagates the last time an object was seen
  along the references. The parts and their theories, in the order of the imports:

  \<^item> \<open>Prelude\<close>: results (\<open>fault + 'a\<close>: a failed \<open>assert\<close>, a NULL or wild pointer, an access out of bounds,
    a conversion or a call of \<open>exit\<close> is a value), loops over containers (\<open>foldR\<close>, locale \<open>loop_body\<close>),
    \<open>std::map\<close> as a sorted association list (locale \<open>ordered_map\<close>), stores of cells for what \<open>new\<close>
    creates, decimal and hexadecimal output.
  \<^item> \<open>Tokenizing\<close> (\<open>tokenizer.hpp\<close>, \<open>tokenizer.cpp\<close>): the line buffer, the array of token offsets and the
    typed accessors, the debug output; the reading loop that all clients share (\<open>read_lines\<close>, locale
    \<open>line_handler\<close>). Lemmas: equality with a reference tokenizer, printed lines are read back, what a blank line
    does in either mode.
  \<^item> \<open>Class_Info\<close> (\<open>classinfo.hpp\<close>, \<open>classinfo.cpp\<close>, \<open>et2utility.hpp\<close>; the constant of \<open>class_list.cpp\<close>): the four stores of classes,
    methods, fields and allocation sites, and the readers of both file versions. Lemmas: the tables
    stay linked, what an unknown class of a field does, how a reader can stop.
  \<^item> \<open>Class_Files\<close> (the files of version 2): what the readers of classes and fields make of a printed list of
    entries, which names lead where and which fields a class has.
  \<^item> \<open>Names_File\<close> (the file of version 1): a meaning of lists of declarations (\<open>declare_all\<close>), and that the tables and the
    faults of the reader are those of the meaning.
  \<^item> \<open>Heap_Model\<close> (\<open>heap.hpp\<close>, \<open>heap.cpp\<close>): objects, edges, allocation, deaths, the end of the program
    and its counters, cycles, node identifiers. Lemmas: the live size is exact along every run of
    the heap (\<open>heap_run\<close>) and untouched by the end of the program, an object dies once, the tallies of the end of the program, ownership of
    edges by fields.
  \<^item> \<open>Records\<close> (\<open>record.hpp\<close>, \<open>refstate.hpp\<close>, \<open>summary.hpp\<close>): the records of the trace and their
    constructors.
  \<^item> \<open>Execution\<close> (\<open>execution.hpp\<close>, \<open>execution.cpp\<close>): clocks, threads with their method stacks, the tree of
    calling contexts, context pairs. Lemmas: the threads implement independent stacks (locale
    \<open>call_stack\<close>, interpreted on \<open>ExecState\<close>), the views of a stack, death contexts.
  \<^item> \<open>Context_Tree\<close> (\<open>class CCNode\<close> and the mode \<open>Full\<close>): the invariant of the tree of calling contexts (\<open>tree_ok\<close>),
    the loops that climb to the root with the traces they store, and the contexts of the nodes in every tree that
    roots and calls can build. The constructor of \<open>Thread\<close> sets no current node, so no such lemma is about the
    threads of the mode \<open>Full\<close>, but that their first call fails when the memory there holds NULL.
  \<^item> \<open>Trace_Reader\<close> (\<open>simulator.cpp\<close>, \<open>read_trace_file_part1\<close>): one handler for every kind of line,
    composed with the heap, the threads and the class tables (state \<open>Sim\<close>). Lemmas: the handlers
    implement an abstract machine (\<open>Machine\<close>) step by step and fault by fault; what a reading counts,
    orders and leaves out.
  \<^item> \<open>Merlin\<close> (\<open>simulator.cpp\<close>, \<open>verify_trace\<close> to \<open>apply_merlin\<close>): the depth-first search over the heap
    with the deques of the source, and the merge of death records. Lemmas: the time an object gets
    is the latest of the objects that reach it (\<open>merlin_time\<close>, over the reflexive transitive closure of
    the references); the exact list that the merge makes (\<open>merged\<close>). \<open>std::sort\<close> leaves the order of equal elements open, so it is an argument with
    the contract of the locale \<open>sorting\<close>, which insertion sort meets.
  \<^item> \<open>Merlin_Graph\<close>: the meaning of the pass without a heap. Heaps are built by the operations the reader and the
    pass use, in any order, beside an abstract graph of stamps and fields (\<open>represents\<close>); the search gives every
    object the latest stamp of the objects that lead to it in the graph. As the reader makes no edges (see
    \<open>Trace_Reader\<close>), this says what the pass does on the heaps it was written for.
  \<^item> \<open>Simulation\<close> (\<open>simulator.cpp\<close>, the rest): the table of objects, the four commands and \<open>main\<close>. Files
    and standard input are arguments. Lemmas: what a simulation leaves, when \<open>main\<close> gives which exit
    code, the table of objects is read back, and so is the output of the command \<open>CLASS\<close> without its prefix.
  \<^item> \<open>Trace_Meaning\<close>: the meaning of a whole simulation as a function of the list of events alone, with no
    state: when an event happens, who mentions an object last, what its size is, which events are
    acceptable. The theorem joins the names files, the reader, the abstract machine and the search.
  \<^item> \<open>Conformance\<close>: a typing of the state (every pointer of an object, an edge, a thread, a context, a
    class table or an entity leads to a cell of its store; only the unset \<open>m_curcc\<close> of threads is left out), kept by
    every handler, by a reading and by a simulation.
  \<^item> \<open>Union_Find\<close> (\<open>analyze.cpp\<close>, \<open>class DisjointSets\<close>): union by rank with path compression, and the
    abstract partition it implements.
  \<^item> \<open>Overlap\<close> (\<open>analyze.cpp\<close>, \<open>compute_overlap\<close>): the percentage that two lifetimes share, with the wrap-around
    of \<open>unsigned int\<close> and the rounding of \<open>double\<close> to 53 bits written out over rationals.

  \<^bold>\<open>Conventions.\<close> \<open>unsigned int\<close> is \<open>32 word\<close> and \<open>unsigned long\<close> is \<open>64 word\<close>, both with wrap-around; \<open>int\<close>
  values that the code bounds itself (token numbers, the level of a death site, the ranks and sizes
  of the union-find structure) are unbounded integers or naturals. Assertions are on. A pointer is a
  position in the store of its class and a nullable pointer an option; memory is never reused, so a
  freed edge is an empty cell. What an uninitialised variable or member holds is an argument
  (\<open>environment\<close>). Containers have fewer than \<open>2 ^ 32\<close> elements where the code stores their size in
  an \<open>unsigned int\<close>; the theorems that need it say so. In \<open>end_of_program_nosave\<close> the code binds a
  reference to the object behind a NULL pointer; the outcome \<open>Null_Pointer\<close> stands for this undefined
  behaviour.

  \<^bold>\<open>Termination.\<close> No definition uses fuel. Loops over lines, tokens and the two loops of the Merlin pass
  are total functions with a measure (the search: the objects not labelled yet, then the stack).
  Climbing the tree of contexts and \<open>find\<close> follow stored pointers and are partial functions with
  the value None for an endless loop; under the invariants of their structures they are proved to
  return.

  \<^bold>\<open>Not modelled.\<close> Messages and banners on the terminal, and the text the reader, the heap and the class
  tables write under the debugging switches, which change no state (the debug output of the tokenizer
  and of the context pairs is modelled). \<open>analyze\<close> and \<open>analyze2\<close> have their bodies commented out and
  leave nothing. The member functions that are declared and have no body, iterators handed out over the
  containers, and typedefs that no function uses have no counterpart. \<open>version.hpp\<close> declares strings that the
  build generates. The Java agents and the scripts are other programs.
\<close>

end
